(* ===== verification/Prelude.thy ===== *)
theory Prelude
  imports Main "HOL-Library.Word" "HOL-Library.Multiset" "HOL-Library.Sublist"
    "HOL-Library.List_Lexorder"
begin

text \<open>
  Shared vocabulary of the development: the Rust standard-library notions the crate uses.
  \<^item> \<open>ordering\<close>, \<open>cmp\<close>, \<open>then_with\<close>: \<^verbatim>\<open>std::cmp::Ordering\<close> and \<^verbatim>\<open>Ord::cmp\<close>.
  \<^item> \<open>error\<close>, \<open>and_then\<close>, \<open>collect_res\<close>: \<^verbatim>\<open>crate::Result\<close>, the \<^verbatim>\<open>?\<close> operator and
    \<^verbatim>\<open>Iterator::collect::<Result<Vec<_>>>\<close>.
  \<^item> \<open>in_i64\<close>, \<open>i64_add\<close>, \<open>checked_add_i64\<close>, \<open>u64_add\<close>: two's complement arithmetic; values are
    \<open>int\<close> and every wrapping or checked operation is written out.
  \<^item> \<open>sort_by\<close>: the stable \<^verbatim>\<open>slice::sort_by\<close>, with its laws proved once in the locale
    \<open>total_cmp\<close> for any comparator that is a total preorder on a carrier.
\<close>

named_theorems result_simps \<open>unfolding rules for the result monad\<close>
named_theorems int_range_simps \<open>machine integer ranges as linear arithmetic\<close>

type_synonym byte = "8 word"
type_synonym bytes = "byte list"

section \<open>Orderings\<close>

datatype ordering = Less | Equal | Greater

definition cmp :: "'a::linorder \<Rightarrow> 'a \<Rightarrow> ordering" where
  "cmp a b = (if a < b then Less else if a = b then Equal else Greater)"

fun reverse_ord :: "ordering \<Rightarrow> ordering" where
  "reverse_ord Less = Greater"
| "reverse_ord Equal = Equal"
| "reverse_ord Greater = Less"

fun then_with :: "ordering \<Rightarrow> ordering \<Rightarrow> ordering" where
  "then_with Equal o2 = o2"
| "then_with o1 o2 = o1"

definition is_gt :: "ordering \<Rightarrow> bool" where "is_gt r \<longleftrightarrow> r = Greater"
definition is_ge :: "ordering \<Rightarrow> bool" where "is_ge r \<longleftrightarrow> r \<noteq> Less"

lemma cmp_simps [simp]:
  "cmp a b = Less \<longleftrightarrow> a < b"
  "cmp a b = Equal \<longleftrightarrow> a = b"
  "cmp a b = Greater \<longleftrightarrow> b < a"
  "Less = cmp a b \<longleftrightarrow> a < b"
  "Equal = cmp a b \<longleftrightarrow> a = b"
  "Greater = cmp a b \<longleftrightarrow> b < a"
  by (auto simp: cmp_def)

lemma reverse_cmp: "reverse_ord (cmp a b) = cmp b a"
  by (auto simp: cmp_def)

lemma reverse_ord_eq [simp]:
  "reverse_ord r = Less \<longleftrightarrow> r = Greater"
  "reverse_ord r = Equal \<longleftrightarrow> r = Equal"
  "reverse_ord r = Greater \<longleftrightarrow> r = Less"
  by (cases r; simp)+

lemma reverse_then_with: "reverse_ord (then_with a b) = then_with (reverse_ord a) (reverse_ord b)"
  by (cases a) auto

lemma then_with_eq [simp]:
  "then_with a b = Equal \<longleftrightarrow> a = Equal \<and> b = Equal"
  "then_with a b = Less \<longleftrightarrow> a = Less \<or> a = Equal \<and> b = Less"
  "then_with a b = Greater \<longleftrightarrow> a = Greater \<or> a = Equal \<and> b = Greater"
  by (cases a; simp)+

section \<open>Results\<close>

text \<open>
  The variants of \<^verbatim>\<open>crate::Error\<close> the modelled code raises. The string is the fixed part of the
  message, which tells the branch that raised it. \<open>IoError\<close> is \<^verbatim>\<open>std::io::Error\<close>,
  \<open>KeyComparisonFailure\<close> the one that carries a \<^verbatim>\<open>KeyComparisonFailure\<close> of the index readers; \<open>Panic\<close> is a
  Rust panic (an index out of range, an \<^verbatim>\<open>unwrap\<close> of \<^verbatim>\<open>None\<close>), which no caller catches.
\<close>

datatype error =
    DataInvalid string
  | Unsupported string
  | UnexpectedError string
  | ConfigInvalid string
  | IoError string
  | KeyComparisonFailure
  | Panic string

type_synonym 'a result = "error + 'a"

fun and_then :: "'a result \<Rightarrow> ('a \<Rightarrow> 'b result) \<Rightarrow> 'b result" where
  "and_then (Inl e) f = Inl e"
| "and_then (Inr x) f = f x"

fun collect_res :: "'a result list \<Rightarrow> 'a list result" where
  "collect_res [] = Inr []"
| "collect_res (r # rs) = and_then r (\<lambda>x. and_then (collect_res rs) (\<lambda>xs. Inr (x # xs)))"

fun collect_opt :: "'a option list \<Rightarrow> 'a list option" where
  "collect_opt [] = Some []"
| "collect_opt (r # rs) =
     (case r of None \<Rightarrow> None
      | Some x \<Rightarrow> (case collect_opt rs of None \<Rightarrow> None | Some xs \<Rightarrow> Some (x # xs)))"

definition ok :: "'a result \<Rightarrow> 'a option" where
  "ok r = (case r of Inl _ \<Rightarrow> None | Inr x \<Rightarrow> Some x)"

definition ok_or :: "error \<Rightarrow> 'a option \<Rightarrow> 'a result" where
  "ok_or e x = (case x of None \<Rightarrow> Inl e | Some y \<Rightarrow> Inr y)"

lemma and_then_Inr_iff [result_simps]:
  "and_then r f = Inr y \<longleftrightarrow> (\<exists>x. r = Inr x \<and> f x = Inr y)"
  by (cases r) auto

lemma and_then_Inl_iff [result_simps]:
  "and_then r f = Inl e \<longleftrightarrow> r = Inl e \<or> (\<exists>x. r = Inr x \<and> f x = Inl e)"
  by (cases r) auto

lemma collect_res_Inr_iff [result_simps]:
  "collect_res rs = Inr xs \<longleftrightarrow> rs = map Inr xs"
  by (induction rs arbitrary: xs) (auto simp: and_then_Inr_iff)

lemma collect_opt_map_Some [simp]: "collect_opt (map Some xs) = Some xs"
  by (induction xs) auto

lemma collect_opt_Some_iff [result_simps]:
  "collect_opt rs = Some xs \<longleftrightarrow> rs = map Some xs"
  by (induction rs arbitrary: xs) (auto split: option.splits)

lemma collect_opt_None_iff: "collect_opt rs = None \<longleftrightarrow> None \<in> set rs"
  by (induction rs) (auto split: option.splits)

lemma ok_Some_iff [simp]: "ok r = Some x \<longleftrightarrow> r = Inr x"
  by (cases r) (auto simp: ok_def)

section \<open>Machine integers\<close>

definition i64_min :: int where "i64_min = - (2 ^ 63)"
definition i64_max :: int where "i64_max = 2 ^ 63 - 1"
definition u64_max :: int where "u64_max = 2 ^ 64 - 1"
definition i32_min :: int where "i32_min = - (2 ^ 31)"
definition i32_max :: int where "i32_max = 2 ^ 31 - 1"

definition in_i64 :: "int \<Rightarrow> bool" where "in_i64 x \<longleftrightarrow> i64_min \<le> x \<and> x \<le> i64_max"
definition in_u64 :: "int \<Rightarrow> bool" where "in_u64 x \<longleftrightarrow> 0 \<le> x \<and> x \<le> u64_max"
definition in_i32 :: "int \<Rightarrow> bool" where "in_i32 x \<longleftrightarrow> i32_min \<le> x \<and> x \<le> i32_max"

lemmas i64_range_defs [int_range_simps] =
  in_i64_def in_u64_def in_i32_def i64_min_def i64_max_def u64_max_def i32_min_def i32_max_def

text \<open>Two's complement reading of \<open>x\<close> at width \<open>w\<close>, the \<^verbatim>\<open>as iN\<close> cast and wrapping arithmetic.\<close>

definition wrap_signed :: "nat \<Rightarrow> int \<Rightarrow> int" where
  "wrap_signed w x = (x + 2 ^ (w - 1)) mod 2 ^ w - 2 ^ (w - 1)"

definition wrap_unsigned :: "nat \<Rightarrow> int \<Rightarrow> int" where
  "wrap_unsigned w x = x mod 2 ^ w"

definition i64_add :: "int \<Rightarrow> int \<Rightarrow> int" where "i64_add a b = wrap_signed 64 (a + b)"
definition i64_sub :: "int \<Rightarrow> int \<Rightarrow> int" where "i64_sub a b = wrap_signed 64 (a - b)"
definition u64_add :: "int \<Rightarrow> int \<Rightarrow> int" where "u64_add a b = wrap_unsigned 64 (a + b)"

definition checked_add_i64 :: "int \<Rightarrow> int \<Rightarrow> int option" where
  "checked_add_i64 a b = (if in_i64 (a + b) then Some (a + b) else None)"

definition checked_add_u64 :: "int \<Rightarrow> int \<Rightarrow> int option" where
  "checked_add_u64 a b = (if in_u64 (a + b) then Some (a + b) else None)"

lemma wrap_signed_64 [simp]: "in_i64 x \<Longrightarrow> wrap_signed 64 x = x"
  by (simp add: wrap_signed_def int_range_simps)

lemma i64_add_in [simp]: "in_i64 (a + b) \<Longrightarrow> i64_add a b = a + b"
  by (simp add: i64_add_def)

lemma i64_sub_in [simp]: "in_i64 (a - b) \<Longrightarrow> i64_sub a b = a - b"
  by (simp add: i64_sub_def)

lemma u64_add_in [simp]: "in_u64 (a + b) \<Longrightarrow> u64_add a b = a + b"
  by (simp add: u64_add_def wrap_unsigned_def int_range_simps)

lemma wrap_signed_64_in: "in_i64 (wrap_signed 64 x)"
  by (simp add: wrap_signed_def int_range_simps)

lemma wrap_signed_32_in: "in_i32 (wrap_signed 32 x)"
  by (simp add: wrap_signed_def int_range_simps)

lemma wrap_signed_32 [simp]: "in_i32 x \<Longrightarrow> wrap_signed 32 x = x"
  by (simp add: wrap_signed_def int_range_simps)

section \<open>Byte order\<close>

text \<open>\<^verbatim>\<open>from_le_bytes\<close> and \<^verbatim>\<open>to_le_bytes\<close> as unsigned values; the big-endian forms reverse the bytes.\<close>

fun from_le :: "bytes \<Rightarrow> int" where
  "from_le [] = 0"
| "from_le (b # bs) = uint b + 256 * from_le bs"

fun to_le :: "nat \<Rightarrow> int \<Rightarrow> bytes" where
  "to_le 0 x = []"
| "to_le (Suc n) x = word_of_int (x mod 256) # to_le n (x div 256)"

definition from_be :: "bytes \<Rightarrow> int" where "from_be bs = from_le (rev bs)"
definition to_be :: "nat \<Rightarrow> int \<Rightarrow> bytes" where "to_be n x = rev (to_le n x)"

lemma length_to_le [simp]: "length (to_le n x) = n"
  by (induction n arbitrary: x) auto

lemma length_to_be [simp]: "length (to_be n x) = n"
  by (simp add: to_be_def)

lemma uint_byte_lt [simp]: "uint (b :: byte) < 256"
  using uint_lt2p [of b] by simp

lemma from_le_nonneg: "0 \<le> from_le bs"
  by (induction bs) auto

lemma from_le_bound: "from_le bs < 256 ^ length bs"
proof (induction bs)
  case (Cons b bs)
  have "uint b \<le> 255" using uint_byte_lt [of b] by linarith
  moreover have "from_le bs \<le> 256 ^ length bs - 1" using Cons by linarith
  ultimately have "uint b + 256 * from_le bs \<le> 255 + 256 * (256 ^ length bs - 1)"
    by (intro add_mono mult_left_mono) auto
  then show ?case by simp
qed simp

lemma from_to_le: "from_le (to_le n x) = x mod 256 ^ n"
proof (induction n arbitrary: x)
  case (Suc n)
  have "from_le (to_le (Suc n) x) = x mod 256 + 256 * (x div 256 mod 256 ^ n)"
    by (simp add: Suc uint_word_of_int)
  also have "\<dots> = x mod (256 * 256 ^ n)"
    by (simp add: mod_mult2_eq' zmod_zmult2_eq)
  finally show ?case by simp
qed simp

lemma from_to_be: "from_be (to_be n x) = x mod 256 ^ n"
  by (simp add: from_be_def to_be_def from_to_le)

lemma to_from_le: "to_le (length bs) (from_le bs) = bs"
proof (induction bs)
  case (Cons b bs)
  have "(uint b + 256 * from_le bs) mod 256 = uint b"
    and "(uint b + 256 * from_le bs) div 256 = from_le bs"
    using uint_byte_lt [of b] by simp_all
  with Cons show ?case by simp
qed simp

section \<open>Stable sorting\<close>

text \<open>
  \<^verbatim>\<open>slice::sort_by\<close> is stable: insertion from the right, stepping over strictly smaller elements
  only, gives the one stable result.
\<close>

fun insort_by :: "('a \<Rightarrow> 'a \<Rightarrow> ordering) \<Rightarrow> 'a \<Rightarrow> 'a list \<Rightarrow> 'a list" where
  "insort_by c x [] = [x]"
| "insort_by c x (y # ys) = (if c x y = Greater then y # insort_by c x ys else x # y # ys)"

fun sort_by :: "('a \<Rightarrow> 'a \<Rightarrow> ordering) \<Rightarrow> 'a list \<Rightarrow> 'a list" where
  "sort_by c [] = []"
| "sort_by c (x # xs) = insort_by c x (sort_by c xs)"

lemma mset_insort_by [simp]: "mset (insort_by c x xs) = add_mset x (mset xs)"
  by (induction xs) auto

lemma mset_sort_by [simp]: "mset (sort_by c xs) = mset xs"
  by (induction xs) auto

lemma set_insort_by [simp]: "set (insort_by c x xs) = insert x (set xs)"
  by (metis mset_insort_by set_mset_add_mset_insert set_mset_mset)

lemma set_sort_by [simp]: "set (sort_by c xs) = set xs"
  by (metis mset_sort_by set_mset_mset)

lemma length_sort_by [simp]: "length (sort_by c xs) = length xs"
  by (metis mset_sort_by size_mset)

text \<open>The contract of a comparator: a total preorder on a carrier.\<close>

locale total_cmp =
  fixes c :: "'a \<Rightarrow> 'a \<Rightarrow> ordering" and A :: "'a set"
  assumes cmp_refl: "x \<in> A \<Longrightarrow> c x x = Equal"
    and cmp_flip: "x \<in> A \<Longrightarrow> y \<in> A \<Longrightarrow> c y x = reverse_ord (c x y)"
    and cmp_trans: "x \<in> A \<Longrightarrow> y \<in> A \<Longrightarrow> z \<in> A \<Longrightarrow>
      c x y \<noteq> Greater \<Longrightarrow> c y z \<noteq> Greater \<Longrightarrow> c x z \<noteq> Greater"
begin

lemma cmp_total: "x \<in> A \<Longrightarrow> y \<in> A \<Longrightarrow> c x y = Greater \<Longrightarrow> c y x = Less"
  using cmp_flip [of x y] by simp

lemma less_le_trans:
  assumes "x \<in> A" "y \<in> A" "z \<in> A" "c x y = Less" "c y z \<noteq> Greater"
  shows "c x z = Less"
proof (rule ccontr)
  assume "c x z \<noteq> Less"
  then have "c z x \<noteq> Greater" using assms(1,3) cmp_flip [of x z] by simp
  then have "c y x \<noteq> Greater" using assms cmp_trans [of y z x] by blast
  with assms(1,2,4) show False using cmp_flip [of x y] by simp
qed

lemma le_less_trans:
  assumes "x \<in> A" "y \<in> A" "z \<in> A" "c x y \<noteq> Greater" "c y z = Less"
  shows "c x z = Less"
proof (rule ccontr)
  assume "c x z \<noteq> Less"
  then have "c z x \<noteq> Greater" using assms(1,3) cmp_flip [of x z] by simp
  then have "c z y \<noteq> Greater" using assms cmp_trans [of z x y] by blast
  with assms(2,3,5) show False using cmp_flip [of y z] by simp
qed

lemma equal_trans:
  assumes "x \<in> A" "y \<in> A" "z \<in> A" "c x y = Equal"
  shows "c x z = c y z"
proof -
  have yx: "c y x = Equal" using assms cmp_flip [of x y] by simp
  show ?thesis
  proof (cases "c y z")
    case Less
    then show ?thesis using le_less_trans [of x y z] assms by simp
  next
    case Equal
    have "c x z \<noteq> Greater" using cmp_trans [of x y z] assms Equal by simp
    moreover have "c x z \<noteq> Less"
      using le_less_trans [of y x z] assms yx Equal by auto
    ultimately show ?thesis using Equal by (cases "c x z") auto
  next
    case Greater
    then have "c z y = Less" using assms cmp_flip [of y z] by simp
    then have "c z x = Less" using less_le_trans [of z y x] assms yx by simp
    then show ?thesis using Greater assms cmp_flip [of z x] by simp
  qed
qed

lemma sorted_insort_by:
  assumes "x \<in> A" "set xs \<subseteq> A" "sorted_wrt (\<lambda>a b. c a b \<noteq> Greater) xs"
  shows "sorted_wrt (\<lambda>a b. c a b \<noteq> Greater) (insort_by c x xs)"
  using assms
proof (induction xs)
  case (Cons y ys)
  show ?case
  proof (cases "c x y = Greater")
    case True
    then have "c y x \<noteq> Greater" using Cons.prems cmp_total [of x y] by simp
    with True Cons show ?thesis by auto
  next
    case False
    with Cons.prems show ?thesis by (auto dest: cmp_trans [of x y])
  qed
qed simp

lemma sorted_sort_by:
  "set xs \<subseteq> A \<Longrightarrow> sorted_wrt (\<lambda>a b. c a b \<noteq> Greater) (sort_by c xs)"
  by (induction xs) (auto intro!: sorted_insort_by)

lemma filter_insort_by:
  assumes "k \<in> A" "x \<in> A" "set xs \<subseteq> A"
  shows "filter (\<lambda>y. c k y = Equal) (insort_by c x xs) =
    (if c k x = Equal then x # filter (\<lambda>y. c k y = Equal) xs
     else filter (\<lambda>y. c k y = Equal) xs)"
  using assms
proof (induction xs)
  case (Cons y ys)
  have "\<not> (c k x = Equal \<and> c k y = Equal \<and> c x y = Greater)"
    using equal_trans [of k x y] Cons.prems by auto
  with Cons show ?case by auto
qed simp

text \<open>Stability: the elements equal to a key keep their relative order.\<close>

lemma sort_by_stable:
  "k \<in> A \<Longrightarrow> set xs \<subseteq> A \<Longrightarrow>
   filter (\<lambda>y. c k y = Equal) (sort_by c xs) = filter (\<lambda>y. c k y = Equal) xs"
  by (induction xs) (auto simp: filter_insort_by)

end

lemma total_cmp_map:
  assumes "total_cmp c A" "\<And>x. x \<in> B \<Longrightarrow> f x \<in> A"
  shows "total_cmp (\<lambda>x y. c (f x) (f y)) B"
proof
  fix x y z
  assume "x \<in> B" "y \<in> B" "z \<in> B"
  note A = this [THEN assms(2)]
  show "c (f x) (f x) = Equal"
    by (rule total_cmp.cmp_refl [OF assms(1) A(1)])
  show "c (f y) (f x) = reverse_ord (c (f x) (f y))"
    by (rule total_cmp.cmp_flip [OF assms(1) A(1,2)])
  show "c (f x) (f z) \<noteq> Greater"
    if "c (f x) (f y) \<noteq> Greater" "c (f y) (f z) \<noteq> Greater"
    using that by (rule total_cmp.cmp_trans [OF assms(1) A])
qed

lemma total_cmp_then_with:
  assumes "total_cmp c A" "total_cmp d A"
  shows "total_cmp (\<lambda>x y. then_with (c x y) (d x y)) A"
proof
  fix x assume "x \<in> A"
  then show "then_with (c x x) (d x x) = Equal"
    using assms by (simp add: total_cmp_def)
next
  fix x y assume "x \<in> A" "y \<in> A"
  then show "then_with (c y x) (d y x) = reverse_ord (then_with (c x y) (d x y))"
    using total_cmp.cmp_flip [OF assms(1), of x y] total_cmp.cmp_flip [OF assms(2), of x y]
    by (simp add: reverse_then_with)
next
  fix x y z
  assume A: "x \<in> A" "y \<in> A" "z \<in> A"
    and xy: "then_with (c x y) (d x y) \<noteq> Greater"
    and yz: "then_with (c y z) (d y z) \<noteq> Greater"
  note lt = total_cmp.less_le_trans [OF assms(1) A] total_cmp.le_less_trans [OF assms(1) A]
    and eq = total_cmp.equal_trans [OF assms(1) A]
  show "then_with (c x z) (d x z) \<noteq> Greater"
  proof (cases "c x y = Less \<or> c y z = Less")
    case True
    then have "c x z = Less" using lt xy yz by auto
    then show ?thesis by simp
  next
    case False
    then have e: "c x y = Equal \<and> c y z = Equal"
      using xy yz by (cases "c x y"; cases "c y z"; simp)
    then have "d x y \<noteq> Greater" "d y z \<noteq> Greater" using xy yz by simp_all
    then have "d x z \<noteq> Greater" using total_cmp.cmp_trans [OF assms(2) A] by blast
    then show ?thesis using e eq by simp
  qed
qed

interpretation linorder_cmp: total_cmp "cmp :: 'a::linorder \<Rightarrow> 'a \<Rightarrow> ordering" UNIV
  by unfold_locales (auto simp: reverse_cmp)

lemma total_cmp_key: "total_cmp (\<lambda>x y. cmp (f x :: 'b::linorder) (f y)) A"
  by (rule total_cmp_map [OF linorder_cmp.total_cmp_axioms]) simp

lemma total_cmp_const: "total_cmp (\<lambda>x y. Equal) A"
  by unfold_locales auto

lemma total_cmp_cong:
  assumes "total_cmp c A" "\<And>x y. x \<in> A \<Longrightarrow> y \<in> A \<Longrightarrow> d x y = c x y"
  shows "total_cmp d A"
proof
  fix x y z
  assume A: "x \<in> A" "y \<in> A" "z \<in> A"
  show "d x x = Equal"
    using A total_cmp.cmp_refl [OF assms(1)] by (simp add: assms(2))
  show "d y x = reverse_ord (d x y)"
    unfolding assms(2) [OF A(1,2)] assms(2) [OF A(2,1)]
    by (rule total_cmp.cmp_flip [OF assms(1) A(1,2)])
  show "d x z \<noteq> Greater" if "d x y \<noteq> Greater" "d y z \<noteq> Greater"
    using that total_cmp.cmp_trans [OF assms(1) A] by (simp add: assms(2) A)
qed

end
