(* ===== verification/Data_Model.thy ===== *)
theory Data_Model
  imports Prelude
begin

text \<open>
  The values and metadata the components exchange, from \<^verbatim>\<open>crates/paimon/src/spec\<close>.
  \<^item> \<open>data_type\<close>, \<open>data_field\<close>: \<^verbatim>\<open>spec/types.rs\<close>; the first argument of a constructor is the
    nullable flag.
  \<^item> \<open>datum\<close>, \<open>datum_cmp\<close>: \<^verbatim>\<open>spec/predicate.rs\<close>. A float is its IEEE 754 bit pattern, a string the
    list of its Unicode scalar values, compared by its UTF-8 bytes as Rust's \<^verbatim>\<open>str\<close> is.
  \<^item> \<open>data_file_meta\<close>, \<open>manifest_entry\<close>, \<open>file_identifier\<close>, \<open>row_kind\<close>: \<^verbatim>\<open>spec/data_file.rs\<close>,
    \<^verbatim>\<open>spec/manifest_entry.rs\<close>, \<^verbatim>\<open>spec/row_kind.rs\<close>.
\<close>

section \<open>Types\<close>

datatype (plugins del: quickcheck_random quickcheck_exhaustive quickcheck_bounded_forall
    quickcheck_full_exhaustive quickcheck_narrowing) data_type =
    TBoolean bool | TTinyInt bool | TSmallInt bool | TInt bool | TBigInt bool
  | TDecimal bool nat nat | TDouble bool | TFloat bool
  | TBinary bool nat | TVarBinary bool nat | TVariant bool | TBlob bool
  | TChar bool nat | TVarChar bool nat | TDate bool
  | TLocalZonedTimestamp bool nat | TTime bool nat | TTimestamp bool nat
  | TArray bool data_type | TMap bool data_type data_type | TMultiset bool data_type
  | TRow bool "data_field list" | TVector bool nat data_type
and data_field = DataField (field_id: int) (field_name: string) (field_type: data_type)
    (field_description: "string option") (field_default: "string option")

text \<open>\<^verbatim>\<open>DataType::copy_with_nullable\<close>; \<open>None\<close> where a parameter is outside the type's bounds.\<close>

fun valid_vector_element :: "data_type \<Rightarrow> bool" where
  "valid_vector_element (TBoolean _) = True"
| "valid_vector_element (TTinyInt _) = True"
| "valid_vector_element (TSmallInt _) = True"
| "valid_vector_element (TInt _) = True"
| "valid_vector_element (TBigInt _) = True"
| "valid_vector_element (TFloat _) = True"
| "valid_vector_element (TDouble _) = True"
| "valid_vector_element _ = False"

fun copy_with_nullable :: "data_type \<Rightarrow> bool \<Rightarrow> data_type option" where
  "copy_with_nullable (TBoolean _) n = Some (TBoolean n)"
| "copy_with_nullable (TTinyInt _) n = Some (TTinyInt n)"
| "copy_with_nullable (TSmallInt _) n = Some (TSmallInt n)"
| "copy_with_nullable (TInt _) n = Some (TInt n)"
| "copy_with_nullable (TBigInt _) n = Some (TBigInt n)"
| "copy_with_nullable (TDecimal _ p s) n =
     (if 1 \<le> p \<and> p \<le> 38 \<and> s \<le> p then Some (TDecimal n p s) else None)"
| "copy_with_nullable (TDouble _) n = Some (TDouble n)"
| "copy_with_nullable (TFloat _) n = Some (TFloat n)"
| "copy_with_nullable (TBinary _ l) n = (if 1 \<le> l then Some (TBinary n l) else None)"
| "copy_with_nullable (TVarBinary _ l) n =
     (if 1 \<le> l \<and> l \<le> 2147483647 then Some (TVarBinary n l) else None)"
| "copy_with_nullable (TVariant _) n = Some (TVariant n)"
| "copy_with_nullable (TBlob _) n = Some (TBlob n)"
| "copy_with_nullable (TChar _ l) n = (if 1 \<le> l \<and> l \<le> 255 then Some (TChar n l) else None)"
| "copy_with_nullable (TVarChar _ l) n =
     (if 1 \<le> l \<and> l \<le> 2147483647 then Some (TVarChar n l) else None)"
| "copy_with_nullable (TDate _) n = Some (TDate n)"
| "copy_with_nullable (TLocalZonedTimestamp _ p) n =
     (if p \<le> 9 then Some (TLocalZonedTimestamp n p) else None)"
| "copy_with_nullable (TTime _ p) n = (if p \<le> 9 then Some (TTime n p) else None)"
| "copy_with_nullable (TTimestamp _ p) n = (if p \<le> 9 then Some (TTimestamp n p) else None)"
| "copy_with_nullable (TArray _ t) n = Some (TArray n t)"
| "copy_with_nullable (TMap _ k v) n = Some (TMap n k v)"
| "copy_with_nullable (TMultiset _ t) n = Some (TMultiset n t)"
| "copy_with_nullable (TRow _ fs) n = Some (TRow n fs)"
| "copy_with_nullable (TVector _ l t) n =
     (if valid_vector_element t \<and> 1 \<le> l \<and> l \<le> 2147483647 then Some (TVector n l t) else None)"

definition equals_ignore_nullable :: "data_type \<Rightarrow> data_type \<Rightarrow> bool" where
  "equals_ignore_nullable a b =
     (case (copy_with_nullable a True, copy_with_nullable b True) of
        (Some x, Some y) \<Rightarrow> x = y | _ \<Rightarrow> False)"

section \<open>Floats and strings\<close>

text \<open>Sign and magnitude of an IEEE bit pattern.\<close>

definition f_mag :: "'a::len word \<Rightarrow> int" where
  "f_mag w = uint w mod 2 ^ (LENGTH('a) - 1)"

definition f_neg :: "'a::len word \<Rightarrow> bool" where
  "f_neg w \<longleftrightarrow> uint w \<ge> 2 ^ (LENGTH('a) - 1)"

definition f32_is_nan :: "32 word \<Rightarrow> bool" where
  "f32_is_nan w \<longleftrightarrow> f_mag w > 0x7F800000"

definition f64_is_nan :: "64 word \<Rightarrow> bool" where
  "f64_is_nan w \<longleftrightarrow> f_mag w > 0x7FF0000000000000"

text \<open>IEEE comparison of two numbers is comparison of the signed magnitudes; the zeros agree.\<close>

definition f_key :: "'a::len word \<Rightarrow> int" where
  "f_key w = (if f_neg w then - f_mag w else f_mag w)"

text \<open>\<^verbatim>\<open>total_cmp\<close>: the bits as a signed integer, the magnitude flipped under a sign.\<close>

definition f_total_key :: "'a::len word \<Rightarrow> int" where
  "f_total_key w = (if f_neg w then -1 - f_mag w else f_mag w)"

definition f32_partial_cmp :: "32 word \<Rightarrow> 32 word \<Rightarrow> ordering option" where
  "f32_partial_cmp a b =
     (if f32_is_nan a \<or> f32_is_nan b then None else Some (cmp (f_key a) (f_key b)))"

definition f64_partial_cmp :: "64 word \<Rightarrow> 64 word \<Rightarrow> ordering option" where
  "f64_partial_cmp a b =
     (if f64_is_nan a \<or> f64_is_nan b then None else Some (cmp (f_key a) (f_key b)))"

text \<open>Rust strings: lists of Unicode scalar values and their UTF-8 encoding.\<close>

type_synonym rstring = "nat list"

definition is_scalar :: "nat \<Rightarrow> bool" where
  "is_scalar c \<longleftrightarrow> c < 0x110000 \<and> \<not> (0xD800 \<le> c \<and> c \<le> 0xDFFF)"

definition utf8_char :: "nat \<Rightarrow> bytes" where
  "utf8_char c = map of_nat
     (if c < 0x80 then [c]
      else if c < 0x800 then [0xC0 + c div 64, 0x80 + c mod 64]
      else if c < 0x10000 then [0xE0 + c div 4096, 0x80 + c div 64 mod 64, 0x80 + c mod 64]
      else [0xF0 + c div 262144, 0x80 + c div 4096 mod 64, 0x80 + c div 64 mod 64,
            0x80 + c mod 64])"

definition utf8 :: "rstring \<Rightarrow> bytes" where
  "utf8 s = concat (map utf8_char s)"

definition is_cont :: "byte \<Rightarrow> bool" where
  "is_cont b \<longleftrightarrow> 0x80 \<le> unat b \<and> unat b \<le> 0xBF"

text \<open>
  \<^verbatim>\<open>std::str::from_utf8\<close>: the shortest-form, surrogate-free sequences of RFC 3629. \<open>utf8_next\<close> decodes
  one character.
\<close>

definition utf8_next :: "bytes \<Rightarrow> (nat \<times> bytes) option" where
  "utf8_next bs =
     (case bs of
        [] \<Rightarrow> None
      | b0 # t \<Rightarrow>
          let n0 = unat b0 in
          if n0 < 0x80 then Some (n0, t)
          else if 0xC2 \<le> n0 \<and> n0 \<le> 0xDF then
            (case t of
               b1 # r \<Rightarrow>
                 if is_cont b1 then Some ((n0 - 0xC0) * 64 + (unat b1 - 0x80), r) else None
             | _ \<Rightarrow> None)
          else if 0xE0 \<le> n0 \<and> n0 \<le> 0xEF then
            (case t of
               b1 # b2 # r \<Rightarrow>
                 if is_cont b1 \<and> is_cont b2 \<and> (n0 = 0xE0 \<longrightarrow> 0xA0 \<le> unat b1)
                    \<and> (n0 = 0xED \<longrightarrow> unat b1 \<le> 0x9F)
                 then Some ((n0 - 0xE0) * 4096 + (unat b1 - 0x80) * 64 + (unat b2 - 0x80), r)
                 else None
             | _ \<Rightarrow> None)
          else if 0xF0 \<le> n0 \<and> n0 \<le> 0xF4 then
            (case t of
               b1 # b2 # b3 # r \<Rightarrow>
                 if is_cont b1 \<and> is_cont b2 \<and> is_cont b3 \<and> (n0 = 0xF0 \<longrightarrow> 0x90 \<le> unat b1)
                    \<and> (n0 = 0xF4 \<longrightarrow> unat b1 \<le> 0x8F)
                 then Some ((n0 - 0xF0) * 262144 + (unat b1 - 0x80) * 4096 + (unat b2 - 0x80) * 64
                            + (unat b3 - 0x80), r)
                 else None
             | _ \<Rightarrow> None)
          else None)"

lemma utf8_next_shorter: "utf8_next bs = Some (c, r) \<Longrightarrow> length r < length bs"
  by (auto simp: utf8_next_def Let_def split: list.splits if_splits)

function from_utf8 :: "bytes \<Rightarrow> rstring option" where
  "from_utf8 bs =
     (if bs = [] then Some []
      else case utf8_next bs of
        None \<Rightarrow> None
      | Some (c, r) \<Rightarrow> map_option (Cons c) (from_utf8 r))"
  by pat_completeness auto
termination
  by (relation "measure length") (auto dest: utf8_next_shorter)

declare from_utf8.simps [simp del]

section \<open>Values\<close>

datatype (plugins del: quickcheck_random quickcheck_exhaustive quickcheck_bounded_forall
    quickcheck_full_exhaustive quickcheck_narrowing) datum =
    DBool bool
  | DTinyInt int
  | DSmallInt int
  | DInt int
  | DLong int
  | DFloat "32 word"
  | DDouble "64 word"
  | DString rstring
  | DDate int
  | DTime int
  | DTimestamp int int
  | DLocalZonedTimestamp int int
  | DDecimal int nat nat
  | DBytes bytes
  | DVariant bytes bytes

text \<open>\<^verbatim>\<open>unsigned_abs().to_string()\<close>: the decimal digits, most significant first.\<close>

fun dec_digits :: "nat \<Rightarrow> nat list" where
  "dec_digits n = (if n < 10 then [n] else dec_digits (n div 10) @ [n mod 10])"

declare dec_digits.simps [simp del]

text \<open>The digit loop of \<^verbatim>\<open>decimal_cmp\<close>: the shorter significand is padded with zeroes.\<close>

fun digits_cmp :: "nat list \<Rightarrow> nat list \<Rightarrow> ordering" where
  "digits_cmp [] [] = Equal"
| "digits_cmp (a # as) [] = then_with (cmp a 0) (digits_cmp as [])"
| "digits_cmp [] (b # bs) = then_with (cmp 0 b) (digits_cmp [] bs)"
| "digits_cmp (a # as) (b # bs) = then_with (cmp a b) (digits_cmp as bs)"

definition in_i128 :: "int \<Rightarrow> bool" where
  "in_i128 x \<longleftrightarrow> - (2 ^ 127) \<le> x \<and> x \<le> 2 ^ 127 - 1"

definition decimal_cmp :: "int \<Rightarrow> nat \<Rightarrow> int \<Rightarrow> nat \<Rightarrow> ordering option" where
  "decimal_cmp ua sa ub sb =
     (if sa = sb then Some (cmp ua ub)
      else
        let normalized =
          (if sa < sb then
             (let factor = 10 ^ (sb - sa) in
              if in_i128 factor \<and> in_i128 (ua * factor) then Some (cmp (ua * factor) ub) else None)
           else
             (let factor = 10 ^ (sa - sb) in
              if in_i128 factor \<and> in_i128 (ub * factor) then Some (cmp ua (ub * factor)) else None))
        in case normalized of
          Some r \<Rightarrow> Some r
        | None \<Rightarrow>
            if sgn ua \<noteq> sgn ub then Some (cmp (sgn ua) (sgn ub))
            else if ua = 0 then Some Equal
            else
              let da = dec_digits (nat \<bar>ua\<bar>); db = dec_digits (nat \<bar>ub\<bar>);
                  magnitude = then_with
                    (cmp (int (length da) - int sa) (int (length db) - int sb))
                    (digits_cmp da db)
              in Some (if sgn ua < 0 then reverse_ord magnitude else magnitude))"

definition datum_cmp :: "datum \<Rightarrow> datum \<Rightarrow> ordering option" where
  "datum_cmp lhs rhs =
     (case lhs of
          DBool a \<Rightarrow> (case rhs of DBool b \<Rightarrow> Some (cmp a b) | _ \<Rightarrow> None)
        | DTinyInt a \<Rightarrow> (case rhs of DTinyInt b \<Rightarrow> Some (cmp a b) | _ \<Rightarrow> None)
        | DSmallInt a \<Rightarrow> (case rhs of DSmallInt b \<Rightarrow> Some (cmp a b) | _ \<Rightarrow> None)
        | DInt a \<Rightarrow> (case rhs of DInt b \<Rightarrow> Some (cmp a b) | _ \<Rightarrow> None)
        | DLong a \<Rightarrow> (case rhs of DLong b \<Rightarrow> Some (cmp a b) | _ \<Rightarrow> None)
        | DFloat a \<Rightarrow> (case rhs of DFloat b \<Rightarrow> f32_partial_cmp a b | _ \<Rightarrow> None)
        | DDouble a \<Rightarrow> (case rhs of DDouble b \<Rightarrow> f64_partial_cmp a b | _ \<Rightarrow> None)
        | DString a \<Rightarrow> (case rhs of DString b \<Rightarrow> Some (cmp (utf8 a) (utf8 b)) | _ \<Rightarrow> None)
        | DDate a \<Rightarrow> (case rhs of DDate b \<Rightarrow> Some (cmp a b) | _ \<Rightarrow> None)
        | DTime a \<Rightarrow> (case rhs of DTime b \<Rightarrow> Some (cmp a b) | _ \<Rightarrow> None)
        | DTimestamp ma na \<Rightarrow> (case rhs of DTimestamp mb nb \<Rightarrow> Some (then_with (cmp ma mb) (cmp na nb)) | _ \<Rightarrow> None)
        | DLocalZonedTimestamp ma na \<Rightarrow> (case rhs of DLocalZonedTimestamp mb nb \<Rightarrow> Some (then_with (cmp ma mb) (cmp na nb)) | _ \<Rightarrow> None)
        | DDecimal ua _ sa \<Rightarrow> (case rhs of DDecimal ub _ sb \<Rightarrow> decimal_cmp ua sa ub sb | _ \<Rightarrow> None)
        | DBytes a \<Rightarrow> (case rhs of DBytes b \<Rightarrow> Some (cmp a b) | _ \<Rightarrow> None)
        | DVariant va ma \<Rightarrow> (case rhs of DVariant vb mb \<Rightarrow> if va = vb \<and> ma = mb then Some Equal else None | _ \<Rightarrow> None))"

definition datum_eq :: "datum \<Rightarrow> datum \<Rightarrow> bool" where
  "datum_eq a b \<longleftrightarrow> datum_cmp a b = Some Equal"

text \<open>\<^verbatim>\<open>PredicateOperator\<close>\<close>

datatype (plugins del: quickcheck_random quickcheck_exhaustive quickcheck_bounded_forall
    quickcheck_full_exhaustive quickcheck_narrowing) predicate_operator =
    OpIsNull | OpIsNotNull | OpEq | OpNotEq | OpLt | OpLtEq | OpGt | OpGtEq | OpIn | OpNotIn
  | OpStartsWith | OpEndsWith | OpContains | OpArrayContains | OpArraysOverlap | OpArrayContainsAll
  | OpLike | OpBetween | OpNotBetween

section \<open>File and manifest metadata\<close>

record binary_table_stats =
  min_values :: bytes
  max_values :: bytes
  null_counts :: "int option list"

text \<open>\<^verbatim>\<open>DataFileMeta\<close>; \<open>creation_time\<close> is in epoch milliseconds.\<close>

record data_file_meta =
  file_name :: string
  file_size :: int
  row_count :: int
  min_key :: bytes
  max_key :: bytes
  key_stats :: binary_table_stats
  value_stats :: binary_table_stats
  min_sequence_number :: int
  max_sequence_number :: int
  schema_id :: int
  level :: int
  extra_files :: "string list"
  creation_time :: "int option"
  delete_row_count :: "int option"
  embedded_index :: "bytes option"
  file_source :: "int option"
  value_stats_cols :: "string list option"
  external_path :: "string option"
  first_row_id :: "int option"
  write_cols :: "string list option"
  column_max_sequence_numbers :: "int list option"

definition row_id_range :: "data_file_meta \<Rightarrow> (int \<times> int) option" where
  "row_id_range f =
     (case first_row_id f of
        None \<Rightarrow> None
      | Some from \<Rightarrow>
          if row_count f \<le> 0 then None
          else case checked_add_i64 from (row_count f - 1) of
            None \<Rightarrow> None
          | Some to \<Rightarrow> Some (from, to))"

datatype file_kind = Add | Delete

record manifest_entry =
  entry_version :: int
  entry_kind :: file_kind
  entry_partition :: bytes
  entry_bucket :: int
  entry_total_buckets :: int
  entry_file :: data_file_meta

record file_identifier =
  id_partition :: bytes
  id_bucket :: int
  id_level :: int
  id_file_name :: string
  id_extra_files :: "string list"
  id_embedded_index :: "bytes option"
  id_external_path :: "string option"

definition identifier_of :: "manifest_entry \<Rightarrow> file_identifier" where
  "identifier_of e = \<lparr>
     id_partition = entry_partition e,
     id_bucket = entry_bucket e,
     id_level = level (entry_file e),
     id_file_name = file_name (entry_file e),
     id_extra_files = extra_files (entry_file e),
     id_embedded_index = embedded_index (entry_file e),
     id_external_path = external_path (entry_file e) \<rparr>"

datatype row_kind = RkInsert | RkUpdateBefore | RkUpdateAfter | RkDelete

definition row_kind_from_value :: "int \<Rightarrow> row_kind result" where
  "row_kind_from_value v =
     (if v = 0 then Inr RkInsert
      else if v = 1 then Inr RkUpdateBefore
      else if v = 2 then Inr RkUpdateAfter
      else if v = 3 then Inr RkDelete
      else Inl (DataInvalid ''invalid row kind value''))"

fun is_add :: "row_kind \<Rightarrow> bool" where
  "is_add RkInsert = True"
| "is_add RkUpdateAfter = True"
| "is_add _ = False"

end
