(* ===== verification/Bin_Packing.thy ===== *)
theory Bin_Packing
  imports Data_Model
begin

text \<open>
  \<^verbatim>\<open>table/bin_pack.rs\<close>: greedy, order-preserving packing of weighted items into bins, and its use
  to split the files of an append bucket. \<open>pack_loop\<close> is the loop of \<^verbatim>\<open>pack_for_ordered\<close> with its
  three mutable variables; weights are \<^verbatim>\<open>i64\<close> and their sum wraps.
\<close>

fun pack_loop :: "('a \<Rightarrow> int) \<Rightarrow> int \<Rightarrow> 'a list list \<Rightarrow> 'a list \<Rightarrow> int \<Rightarrow> 'a list \<Rightarrow> 'a list list" where
  "pack_loop weight_func target packed bin_items bin_weight [] =
     (if bin_items = [] then packed else packed @ [bin_items])"
| "pack_loop weight_func target packed bin_items bin_weight (item # items) =
     (let weight = weight_func item in
      if i64_add bin_weight weight > target \<and> bin_items \<noteq> []
      then pack_loop weight_func target (packed @ [bin_items]) [item] (i64_add 0 weight) items
      else pack_loop weight_func target packed (bin_items @ [item]) (i64_add bin_weight weight) items)"

definition pack_for_ordered :: "'a list \<Rightarrow> ('a \<Rightarrow> int) \<Rightarrow> int \<Rightarrow> 'a list list" where
  "pack_for_ordered items weight_func target_weight =
     pack_loop weight_func target_weight [] [] 0 items"

definition file_weight :: "int \<Rightarrow> data_file_meta \<Rightarrow> int" where
  "file_weight open_file_cost f = max (file_size f) open_file_cost"

definition split_for_batch :: "data_file_meta list \<Rightarrow> int \<Rightarrow> int \<Rightarrow> data_file_meta list list" where
  "split_for_batch files target_split_size open_file_cost =
     pack_for_ordered
       (sort_by (\<lambda>a b. cmp (min_sequence_number a) (min_sequence_number b)) files)
       (file_weight open_file_cost) target_split_size"

section \<open>Packing keeps every item, in order\<close>

lemma concat_pack_loop:
  "concat (pack_loop w t packed bin bw items) = concat packed @ bin @ items"
  by (induction items arbitrary: packed bin bw) (auto simp: Let_def)

lemma pack_loop_nonempty:
  "[] \<notin> set packed \<Longrightarrow> [] \<notin> set (pack_loop w t packed bin bw items)"
  by (induction items arbitrary: packed bin bw) (auto simp: Let_def)

lemma concat_pack_for_ordered: "concat (pack_for_ordered items w t) = items"
  by (simp add: pack_for_ordered_def concat_pack_loop)

lemma pack_for_ordered_nonempty: "[] \<notin> set (pack_for_ordered items w t)"
  by (simp add: pack_for_ordered_def pack_loop_nonempty)

section \<open>Packing respects the target, and is greedy\<close>

definition bin_sum :: "('a \<Rightarrow> int) \<Rightarrow> 'a list \<Rightarrow> int" where
  "bin_sum w xs = sum_list (map w xs)"

lemma bin_sum_simps [simp]:
  "bin_sum w [] = 0" "bin_sum w (x # xs) = w x + bin_sum w xs"
  "bin_sum w (xs @ ys) = bin_sum w xs + bin_sum w ys"
  by (simp_all add: bin_sum_def)

lemma bin_sum_nonneg: "\<forall>x\<in>set xs. 0 \<le> w x \<Longrightarrow> 0 \<le> bin_sum w xs"
  by (induction xs) auto

text \<open>A bin is legal when it fits the target or holds a single item.\<close>

definition legal_bin :: "('a \<Rightarrow> int) \<Rightarrow> int \<Rightarrow> 'a list \<Rightarrow> bool" where
  "legal_bin w t b \<longleftrightarrow> bin_sum w b \<le> t \<or> length b = 1"

text \<open>Two consecutive bins are greedy when the first had no room for the head of the second.\<close>

fun greedy :: "('a \<Rightarrow> int) \<Rightarrow> int \<Rightarrow> 'a list list \<Rightarrow> bool" where
  "greedy w t (a # b # bs) \<longleftrightarrow> bin_sum w a + w (hd b) > t \<and> greedy w t (b # bs)"
| "greedy w t _ \<longleftrightarrow> True"

lemma greedy_snoc:
  "greedy w t (bs @ [b]) \<Longrightarrow> bin_sum w b + w (hd c) > t \<Longrightarrow> greedy w t (bs @ [b, c])"
  by (induction w t bs rule: greedy.induct) (auto simp: neq_Nil_conv)

lemma greedy_snoc_hd:
  "greedy w t (bs @ [b]) \<Longrightarrow> b \<noteq> [] \<Longrightarrow> greedy w t (bs @ [b @ c])"
  by (induction w t bs rule: greedy.induct) auto

lemma greedy_nth:
  "greedy w t bs \<Longrightarrow> Suc i < length bs \<Longrightarrow> bin_sum w (bs ! i) + w (hd (bs ! Suc i)) > t"
  by (induction w t bs arbitrary: i rule: greedy.induct) (auto simp: nth_Cons split: nat.splits)

text \<open>
  The loop invariant: the running weight is the weight of the open bin, closed bins are legal,
  and the closed bins followed by the open one are greedy.
\<close>

lemma pack_loop_legal:
  assumes "\<forall>x\<in>set (concat packed @ bin @ items). 0 \<le> w x"
    and "bin_sum w (bin @ items) \<le> i64_max" and "bw = bin_sum w bin"
    and "\<forall>b\<in>set packed. legal_bin w t b" and "bin \<noteq> [] \<longrightarrow> legal_bin w t bin"
    and "bin = [] \<longrightarrow> packed = []" and "greedy w t (packed @ [bin])"
  shows "(\<forall>b\<in>set (pack_loop w t packed bin bw items). legal_bin w t b)
    \<and> greedy w t (pack_loop w t packed bin bw items)"
  using assms
proof (induction items arbitrary: packed bin bw)
  case Nil
  then show ?case by auto
next
  case (Cons x xs)
  have pos: "0 \<le> w x" "0 \<le> bin_sum w xs" "0 \<le> bin_sum w bin"
    using Cons.prems(1) by (auto intro!: bin_sum_nonneg)
  then have add: "i64_add bw (w x) = bw + w x" "i64_add 0 (w x) = w x"
    using Cons.prems(2,3) by (auto simp: int_range_simps)
  show ?case
  proof (cases "bw + w x > t \<and> bin \<noteq> []")
    case True
    have "greedy w t ((packed @ [bin]) @ [[x]])"
      using greedy_snoc [OF Cons.prems(7), of "[x]"] True Cons.prems(3) by simp
    then have "(\<forall>b\<in>set (pack_loop w t (packed @ [bin]) [x] (w x) xs). legal_bin w t b)
      \<and> greedy w t (pack_loop w t (packed @ [bin]) [x] (w x) xs)"
      using Cons.prems pos True by (intro Cons.IH) (auto simp: legal_bin_def)
    then show ?thesis using True by (simp add: Let_def add)
  next
    case False
    have "greedy w t (packed @ [bin @ [x]])"
      using greedy_snoc_hd [OF Cons.prems(7)] Cons.prems(6) by (cases "bin = []") auto
    moreover have "legal_bin w t (bin @ [x])"
      using False Cons.prems(3) by (cases "bin = []") (auto simp: legal_bin_def)
    ultimately have "(\<forall>b\<in>set (pack_loop w t packed (bin @ [x]) (bw + w x) xs). legal_bin w t b)
      \<and> greedy w t (pack_loop w t packed (bin @ [x]) (bw + w x) xs)"
      using Cons.prems pos by (intro Cons.IH) auto
    then show ?thesis using False by (auto simp: Let_def add)
  qed
qed

lemma pack_for_ordered_legal:
  assumes "\<forall>x\<in>set items. 0 \<le> w x" and "bin_sum w items \<le> i64_max"
  shows "(\<forall>b\<in>set (pack_for_ordered items w t). legal_bin w t b)
    \<and> greedy w t (pack_for_ordered items w t)"
  unfolding pack_for_ordered_def using assms by (intro pack_loop_legal) auto

text \<open>
  C5. Bin packing loses, duplicates and reorders nothing, makes no empty bin, and, as long as the
  weights are non-negative and their sum fits in an \<^verbatim>\<open>i64\<close>, every bin weighs at most the target
  unless a single item alone is heavier; and it is greedy: a bin is closed only when the next item
  did not fit.
\<close>

theorem pack_for_ordered_correct:
  assumes "\<forall>x\<in>set items. 0 \<le> w x" and "sum_list (map w items) \<le> i64_max"
  shows "concat (pack_for_ordered items w t) = items \<and>
    [] \<notin> set (pack_for_ordered items w t) \<and>
    (\<forall>b\<in>set (pack_for_ordered items w t). sum_list (map w b) \<le> t \<or> length b = 1) \<and>
    (\<forall>i. Suc i < length (pack_for_ordered items w t) \<longrightarrow>
       sum_list (map w (pack_for_ordered items w t ! i))
         + w (hd (pack_for_ordered items w t ! Suc i)) > t)"
proof -
  have *: "(\<forall>b\<in>set (pack_for_ordered items w t). legal_bin w t b)
    \<and> greedy w t (pack_for_ordered items w t)"
    using assms by (intro pack_for_ordered_legal) (auto simp: bin_sum_def)
  then show ?thesis
    using greedy_nth [of w t "pack_for_ordered items w t"]
    by (simp add: concat_pack_for_ordered pack_for_ordered_nonempty legal_bin_def bin_sum_def)
qed

theorem pack_for_ordered_correct_witness:
  "pack_for_ordered [3, 4, 20, 1] id 10 = [[3, 4], [20], [1]] \<and>
   concat (pack_for_ordered [3, 4, 20, 1 :: int] id 10) = [3, 4, 20, 1] \<and>
   list_all (\<lambda>b. sum_list b \<le> 10 \<or> length b = 1) (pack_for_ordered [3, 4, 20, 1 :: int] id 10)"
  using pack_for_ordered_correct [of "[3, 4, 20, 1]" "id :: int \<Rightarrow> int" 10]
  by (simp add: pack_for_ordered_def int_range_simps)

end
