(* ===== verification/Rust_Strings.thy ===== *)
theory Rust_Strings
  imports Data_Model
begin

text \<open>
  Facts on Rust strings: UTF-8 encoding and decoding are inverse, and the byte order of the
  encodings is the order of the scalar values. Strings are compared in the source through their
  bytes; these lemmas let the components reason about characters.
\<close>

definition valid_rstring :: "rstring \<Rightarrow> bool" where
  "valid_rstring s \<longleftrightarrow> list_all is_scalar s"

lemma valid_rstring_simps [simp]:
  "valid_rstring []" "valid_rstring (c # s) \<longleftrightarrow> is_scalar c \<and> valid_rstring s"
  "valid_rstring (s @ t) \<longleftrightarrow> valid_rstring s \<and> valid_rstring t"
  by (auto simp: valid_rstring_def)

lemma utf8_simps [simp]:
  "utf8 [] = []" "utf8 (c # s) = utf8_char c @ utf8 s" "utf8 (s @ t) = utf8 s @ utf8 t"
  by (auto simp: utf8_def)

lemma unat_of_nat_byte [simp]: "n < 256 \<Longrightarrow> unat (of_nat n :: byte) = n"
  by (simp add: unat_of_nat)

lemma of_nat_byte_less: "m < 256 \<Longrightarrow> n < 256 \<Longrightarrow> (of_nat m :: byte) < of_nat n \<longleftrightarrow> m < n"
  by (simp add: word_less_nat_alt)

lemma of_nat_byte_eq: "m < 256 \<Longrightarrow> n < 256 \<Longrightarrow> (of_nat m :: byte) = of_nat n \<longleftrightarrow> m = n"
  by (metis unat_of_nat_byte)

section \<open>Decoding inverts encoding\<close>

lemma utf8_next_two:
  assumes "unat b0 = 0xC0 + x" "unat b1 = 0x80 + y" "2 \<le> x" "x < 32" "y < 64"
  shows "utf8_next (b0 # b1 # r) = Some (x * 64 + y, r)"
  using assms by (simp add: utf8_next_def is_cont_def)

lemma utf8_next_three:
  assumes "unat b0 = 0xE0 + x" "unat b1 = 0x80 + y" "unat b2 = 0x80 + z"
    "x < 16" "y < 64" "z < 64" "x = 0 \<Longrightarrow> 32 \<le> y" "x = 13 \<Longrightarrow> y \<le> 31"
  shows "utf8_next (b0 # b1 # b2 # r) = Some (x * 4096 + y * 64 + z, r)"
  using assms by (simp add: utf8_next_def is_cont_def)

lemma utf8_next_four:
  assumes "unat b0 = 0xF0 + x" "unat b1 = 0x80 + y" "unat b2 = 0x80 + z" "unat b3 = 0x80 + w"
    "x < 5" "y < 64" "z < 64" "w < 64" "x = 0 \<Longrightarrow> 16 \<le> y" "x = 4 \<Longrightarrow> y \<le> 15"
  shows "utf8_next (b0 # b1 # b2 # b3 # r) = Some (x * 262144 + y * 4096 + z * 64 + w, r)"
  using assms by (simp add: utf8_next_def is_cont_def)

lemma utf8_next_utf8_char:
  assumes "is_scalar c"
  shows "utf8_next (utf8_char c @ bs) = Some (c, bs)"
proof -
  consider "c < 0x80" | "0x80 \<le> c" "c < 0x800" | "0x800 \<le> c" "c < 0x10000" | "0x10000 \<le> c"
    by linarith
  then show ?thesis
  proof cases
    case 1
    then show ?thesis by (simp add: utf8_char_def utf8_next_def)
  next
    case 2
    then have "2 \<le> c div 64" "c div 64 < 32" "c div 64 * 64 + c mod 64 = c" by auto
    moreover have u: "utf8_char c = [of_nat (0xC0 + c div 64), of_nat (0x80 + c mod 64)]"
      using 2 by (simp add: utf8_char_def)
    ultimately show ?thesis
      unfolding u append.simps by (subst utf8_next_two) (auto simp del: of_nat_add)
  next
    case 3
    define x y z where xyz: "x = c div 64 div 64" "y = c div 64 mod 64" "z = c mod 64"
    have "c = (x * 64 + y) * 64 + z" unfolding xyz by simp
    then have c: "c = x * 4096 + y * 64 + z" "y < 64" "z < 64" unfolding xyz(2,3) by simp_all
    have u: "utf8_char c = [of_nat (0xE0 + x), of_nat (0x80 + y), of_nat (0x80 + z)]"
      using 3 div_mult2_eq [of c 64 64] by (simp add: utf8_char_def xyz)
    have "c < 0xD800 \<or> 0xE000 \<le> c" using assms by (auto simp: is_scalar_def)
    then have "x = 13 \<Longrightarrow> y \<le> 31" using c by auto
    moreover have "x < 16" using 3 c by linarith
    moreover have "x = 0 \<Longrightarrow> 32 \<le> y" using 3 c by linarith
    ultimately have "utf8_next (utf8_char c @ bs) = Some (x * 4096 + y * 64 + z, bs)"
      unfolding u append.simps using c(2,3)
      by (intro utf8_next_three) (simp_all del: of_nat_add)
    then show ?thesis using c(1) by simp
  next
    case 4
    define x y z w where xyz: "x = c div 64 div 64 div 64" "y = c div 64 div 64 mod 64"
      "z = c div 64 mod 64" "w = c mod 64"
    have "c = ((x * 64 + y) * 64 + z) * 64 + w" unfolding xyz by simp
    then have c: "c = x * 262144 + y * 4096 + z * 64 + w" "y < 64" "z < 64" "w < 64"
      unfolding xyz(2-4) by simp_all
    have u: "utf8_char c =
        [of_nat (0xF0 + x), of_nat (0x80 + y), of_nat (0x80 + z), of_nat (0x80 + w)]"
      using 4 div_mult2_eq [of c 64 64] div_mult2_eq [of c 4096 64]
      by (simp add: utf8_char_def xyz)
    have "c < 0x110000" using assms by (simp add: is_scalar_def)
    then have "x < 5" "x = 4 \<Longrightarrow> y \<le> 15" using c by linarith+
    moreover have "x = 0 \<Longrightarrow> 16 \<le> y" using 4 c by linarith
    ultimately have "utf8_next (utf8_char c @ bs) = Some (x * 262144 + y * 4096 + z * 64 + w, bs)"
      unfolding u append.simps using c(2-4)
      by (intro utf8_next_four) (simp_all del: of_nat_add)
    then show ?thesis using c(1) by simp
  qed
qed

lemma utf8_char_nonempty [simp]: "utf8_char c \<noteq> []"
  by (simp add: utf8_char_def)

lemma from_utf8_Nil [simp]: "from_utf8 [] = Some []"
  by (simp add: from_utf8.simps)

lemma from_utf8_utf8_char:
  "is_scalar c \<Longrightarrow> from_utf8 (utf8_char c @ bs) = map_option (Cons c) (from_utf8 bs)"
  by (subst from_utf8.simps) (simp add: utf8_next_utf8_char)

lemma from_utf8_utf8: "valid_rstring s \<Longrightarrow> from_utf8 (utf8 s) = Some s"
  by (induction s) (simp_all add: from_utf8_utf8_char)

lemma utf8_inject: "valid_rstring s \<Longrightarrow> valid_rstring t \<Longrightarrow> utf8 s = utf8 t \<longleftrightarrow> s = t"
  by (metis from_utf8_utf8 option.inject)

section \<open>Encoding inverts decoding\<close>

lemma of_nat_unat_byte: "n = unat b \<Longrightarrow> (of_nat n :: byte) = b"
  by simp

lemma is_cont_split: "is_cont b \<Longrightarrow> \<exists>y. unat b = 0x80 + y \<and> y < 64"
  unfolding is_cont_def by (intro exI [of _ "unat b - 0x80"]) auto

lemma utf8_char_two:
  assumes "unat b0 = 0xC0 + x" "unat b1 = 0x80 + y" "2 \<le> x" "x < 32" "y < 64"
  shows "utf8_char (x * 64 + y) = [b0, b1] \<and> is_scalar (x * 64 + y)"
proof -
  have "utf8_char (x * 64 + y) = [of_nat (0xC0 + x), of_nat (0x80 + y)]"
    using assms(3-5) by (simp add: utf8_char_def)
  then show ?thesis using assms
    by (simp add: of_nat_unat_byte is_scalar_def del: of_nat_add)
qed

lemma div_mod_64: "(z :: nat) < 64 \<Longrightarrow> (q * 64 + z) div 64 = q \<and> (q * 64 + z) mod 64 = z"
  by simp

lemma utf8_char_three:
  assumes "unat b0 = 0xE0 + x" "unat b1 = 0x80 + y" "unat b2 = 0x80 + z"
    "x < 16" "y < 64" "z < 64" "x = 0 \<Longrightarrow> 32 \<le> y" "x = 13 \<Longrightarrow> y \<le> 31"
  defines "c \<equiv> x * 4096 + y * 64 + z"
  shows "utf8_char c = [b0, b1, b2] \<and> is_scalar c"
proof -
  have e: "c = (x * 64 + y) * 64 + z" by (simp add: c_def)
  have d1: "c div 64 = x * 64 + y \<and> c mod 64 = z"
    unfolding e by (rule div_mod_64 [OF assms(6)])
  moreover have "c div 4096 = x \<and> c div 64 mod 64 = y"
    using div_mult2_eq [of c 64 64] div_mod_64 [OF assms(5), of x] d1 by simp
  moreover have r: "0x800 \<le> c" "c < 0x10000"
    using assms(4-7) unfolding c_def by (cases "x = 0"; linarith)+
  ultimately have "utf8_char c = [of_nat (0xE0 + x), of_nat (0x80 + y), of_nat (0x80 + z)]"
    by (simp add: utf8_char_def)
  moreover have "\<not> (0xD800 \<le> c \<and> c \<le> 0xDFFF)"
    using assms(4-8) unfolding c_def by (cases "x < 13"; cases "x = 13"; linarith)
  then have "is_scalar c" using r by (simp add: is_scalar_def)
  ultimately show ?thesis using assms(1-3)
    by (simp add: of_nat_unat_byte del: of_nat_add)
qed

lemma utf8_char_four:
  assumes "unat b0 = 0xF0 + x" "unat b1 = 0x80 + y" "unat b2 = 0x80 + z" "unat b3 = 0x80 + w"
    "x < 5" "y < 64" "z < 64" "w < 64" "x = 0 \<Longrightarrow> 16 \<le> y" "x = 4 \<Longrightarrow> y \<le> 15"
  defines "c \<equiv> x * 262144 + y * 4096 + z * 64 + w"
  shows "utf8_char c = [b0, b1, b2, b3] \<and> is_scalar c"
proof -
  have e: "c = ((x * 64 + y) * 64 + z) * 64 + w" by (simp add: c_def)
  have d1: "c div 64 = (x * 64 + y) * 64 + z \<and> c mod 64 = w"
    unfolding e by (rule div_mod_64 [OF assms(8)])
  moreover have d2: "c div 4096 = x * 64 + y \<and> c div 64 mod 64 = z"
    using div_mult2_eq [of c 64 64] div_mod_64 [OF assms(7), of "x * 64 + y"] d1 by simp
  moreover have "c div 262144 = x \<and> c div 4096 mod 64 = y"
    using div_mult2_eq [of c 4096 64] div_mod_64 [OF assms(6), of x] d2 by simp
  moreover have r: "0x10000 \<le> c" "c < 0x110000"
    using assms(5-10) unfolding c_def by (cases "x = 0"; cases "x = 4"; linarith)+
  ultimately have "utf8_char c =
      [of_nat (0xF0 + x), of_nat (0x80 + y), of_nat (0x80 + z), of_nat (0x80 + w)]"
    by (simp add: utf8_char_def)
  moreover have "is_scalar c" using r by (simp add: is_scalar_def)
  ultimately show ?thesis using assms(1-4)
    by (simp add: of_nat_unat_byte del: of_nat_add)
qed

lemma utf8_next_Some:
  assumes "utf8_next bs = Some (c, r)"
  shows "bs = utf8_char c @ r \<and> is_scalar c"
proof -
  obtain b0 t where bs: "bs = b0 # t" using assms by (cases bs) (auto simp: utf8_next_def)
  note next_simps = utf8_next_def bs Let_def
  consider "unat b0 < 0x80" | "0xC2 \<le> unat b0" "unat b0 \<le> 0xDF"
    | "0xE0 \<le> unat b0" "unat b0 \<le> 0xEF" | "0xF0 \<le> unat b0" "unat b0 \<le> 0xF4"
    using assms by (auto simp: next_simps split: if_splits)
  then show ?thesis
  proof cases
    case 1
    then show ?thesis using assms by (auto simp: next_simps utf8_char_def is_scalar_def)
  next
    case 2
    obtain b1 where b1: "t = b1 # r" "is_cont b1" "c = (unat b0 - 0xC0) * 64 + (unat b1 - 0x80)"
      using assms 2 by (auto simp: next_simps split: list.splits if_splits)
    then obtain y where "unat b1 = 0x80 + y" "y < 64" using is_cont_split by blast
    moreover obtain x where "unat b0 = 0xC0 + x" using 2 by (intro that [of "unat b0 - 0xC0"]) simp
    ultimately show ?thesis
      using utf8_char_two [of b0 x b1 y] 2 b1 by (simp add: bs)
  next
    case 3
    obtain b1 b2 where b: "t = b1 # b2 # r" "is_cont b1" "is_cont b2"
      "unat b0 = 0xE0 \<longrightarrow> 0xA0 \<le> unat b1" "unat b0 = 0xED \<longrightarrow> unat b1 \<le> 0x9F"
      "c = (unat b0 - 0xE0) * 4096 + (unat b1 - 0x80) * 64 + (unat b2 - 0x80)"
      using assms 3 by (auto simp: next_simps split: list.splits if_splits)
    then obtain y z where "unat b1 = 0x80 + y" "y < 64" "unat b2 = 0x80 + z" "z < 64"
      using is_cont_split by blast
    moreover obtain x where "unat b0 = 0xE0 + x" using 3 by (intro that [of "unat b0 - 0xE0"]) simp
    ultimately show ?thesis
      using utf8_char_three [of b0 x b1 y b2 z] 3 b by (simp add: bs)
  next
    case 4
    obtain b1 b2 b3 where b: "t = b1 # b2 # b3 # r" "is_cont b1" "is_cont b2" "is_cont b3"
      "unat b0 = 0xF0 \<longrightarrow> 0x90 \<le> unat b1" "unat b0 = 0xF4 \<longrightarrow> unat b1 \<le> 0x8F"
      "c = (unat b0 - 0xF0) * 262144 + (unat b1 - 0x80) * 4096 + (unat b2 - 0x80) * 64
        + (unat b3 - 0x80)"
      using assms 4 by (auto simp: next_simps split: list.splits if_splits)
    obtain y where "unat b1 = 0x80 + y" "y < 64" using is_cont_split [OF b(2)] by blast
    moreover obtain z where "unat b2 = 0x80 + z" "z < 64" using is_cont_split [OF b(3)] by blast
    moreover obtain w where "unat b3 = 0x80 + w" "w < 64" using is_cont_split [OF b(4)] by blast
    moreover obtain x where "unat b0 = 0xF0 + x" using 4 by (intro that [of "unat b0 - 0xF0"]) simp
    ultimately show ?thesis
      using utf8_char_four [of b0 x b1 y b2 z b3 w] 4 b by (simp add: bs)
  qed
qed

lemma utf8_from_utf8: "from_utf8 bs = Some s \<Longrightarrow> utf8 s = bs \<and> valid_rstring s"
proof (induction bs arbitrary: s rule: from_utf8.induct)
  case (1 bs)
  show ?case
  proof (cases "bs = []")
    case False
    then obtain c r t where "utf8_next bs = Some (c, r)" "from_utf8 r = Some t" "s = c # t"
      using "1.prems" unfolding from_utf8.simps [of bs] by (auto split: option.splits)
    then show ?thesis using "1.IH" False utf8_next_Some [of bs c r] by auto
  qed (use "1.prems" in simp)
qed

section \<open>Byte order is scalar order\<close>

lemma map_byte_less:
  "xs < ys \<Longrightarrow> \<forall>n\<in>set xs \<union> set ys. n < 256 \<Longrightarrow> map (of_nat :: nat \<Rightarrow> byte) xs < map of_nat ys"
proof (induction xs arbitrary: ys)
  case Nil
  then show ?case by (cases ys) auto
next
  case (Cons x xs)
  then show ?case by (cases ys) (auto simp: of_nat_byte_less of_nat_byte_eq)
qed

lemma lex_digit:
  assumes "(c :: nat) < d"
  shows "c div k < d div k \<or> c div k = d div k \<and> c mod k < d mod k"
proof (cases "c div k = d div k")
  case True
  then have "c mod k < d mod k"
    using assms div_mult_mod_eq [of c k] div_mult_mod_eq [of d k]
    by (metis nat_add_left_cancel_less)
  with True show ?thesis by simp
next
  case False
  then show ?thesis using div_le_mono [of c d k] assms by simp
qed

definition utf8_nats :: "nat \<Rightarrow> nat list" where
  "utf8_nats c =
     (if c < 0x80 then [c]
      else if c < 0x800 then [0xC0 + c div 64, 0x80 + c mod 64]
      else if c < 0x10000 then [0xE0 + c div 4096, 0x80 + c div 64 mod 64, 0x80 + c mod 64]
      else [0xF0 + c div 262144, 0x80 + c div 4096 mod 64, 0x80 + c div 64 mod 64, 0x80 + c mod 64])"

lemma utf8_char_nats: "utf8_char c = map of_nat (utf8_nats c)"
  by (simp add: utf8_char_def utf8_nats_def)

lemma lex_digits2:
  "(c :: nat) < d \<Longrightarrow> [c div 64, c mod 64] < [d div 64, d mod 64]"
  using lex_digit [of c d 64] by auto

lemma lex_digits3:
  assumes "(c :: nat) < d"
  shows "[c div 4096, c div 64 mod 64, c mod 64] < [d div 4096, d div 64 mod 64, d mod 64]"
proof (cases "c div 64 < d div 64")
  case True
  then have "[c div 64 div 64, c div 64 mod 64] < [d div 64 div 64, d div 64 mod 64]"
    by (rule lex_digits2)
  then show ?thesis using div_mult2_eq [of c 64 64] div_mult2_eq [of d 64 64] by auto
next
  case False
  then have "c div 64 = d div 64 \<and> c mod 64 < d mod 64" using lex_digit [OF assms, of 64] by simp
  then show ?thesis using div_mult2_eq [of c 64 64] div_mult2_eq [of d 64 64] by simp
qed

lemma lex_digits4:
  assumes "(c :: nat) < d"
  shows "[c div 262144, c div 4096 mod 64, c div 64 mod 64, c mod 64]
    < [d div 262144, d div 4096 mod 64, d div 64 mod 64, d mod 64]"
proof (cases "c div 4096 < d div 4096")
  case True
  then have "[c div 4096 div 64, c div 4096 mod 64] < [d div 4096 div 64, d div 4096 mod 64]"
    by (rule lex_digits2)
  then show ?thesis using div_mult2_eq [of c 4096 64] div_mult2_eq [of d 4096 64] by auto
next
  case False
  then have "c div 4096 = d div 4096" "[c div 64 mod 64, c mod 64] < [d div 64 mod 64, d mod 64]"
    using lex_digits3 [OF assms] by auto
  then show ?thesis using div_mult2_eq [of c 4096 64] div_mult2_eq [of d 4096 64] by simp
qed

lemma utf8_nats_less:
  assumes "c < d"
  shows "utf8_nats c < utf8_nats d"
proof -
  consider "c < 0x80" | "0x80 \<le> c" "c < 0x800" | "0x800 \<le> c" "c < 0x10000" | "0x10000 \<le> c"
    by linarith
  then show ?thesis
  proof cases
    case 1
    then show ?thesis using assms by (simp add: utf8_nats_def)
  next
    case 2
    then have "c div 64 < 32" by auto
    then show ?thesis using 2 assms lex_digits2 [OF assms] by (simp add: utf8_nats_def)
  next
    case 3
    then have "c div 4096 < 16" by auto
    then show ?thesis using 3 assms lex_digits3 [OF assms] by (simp add: utf8_nats_def)
  next
    case 4
    then show ?thesis using assms lex_digits4 [OF assms] by (simp add: utf8_nats_def)
  qed
qed

lemma utf8_nats_small: "c < 0x110000 \<Longrightarrow> \<forall>n\<in>set (utf8_nats c). n < 256"
  by (auto simp: utf8_nats_def)

lemma utf8_char_less:
  "c < d \<Longrightarrow> d < 0x110000 \<Longrightarrow> utf8_char c < utf8_char d"
  unfolding utf8_char_nats
  by (intro map_byte_less utf8_nats_less) (use utf8_nats_small [of c] utf8_nats_small [of d] in auto)

text \<open>No encoding of a character is a prefix of another, so the order extends to strings.\<close>

lemma utf8_char_prefix_free:
  assumes "is_scalar c" "is_scalar d" "prefix (utf8_char c) (utf8_char d)"
  shows "c = d"
proof -
  obtain r where "utf8_char d = utf8_char c @ r" using assms(3) by (auto simp: prefix_def)
  then have "utf8_next (utf8_char d @ []) = Some (c, r)"
    using utf8_next_utf8_char [OF assms(1)] by simp
  then show ?thesis using utf8_next_utf8_char [OF assms(2), of "[]"] by simp
qed

lemma list_less_append:
  "\<not> prefix xs ys \<Longrightarrow> xs < ys \<Longrightarrow> xs @ us < ys @ (vs :: 'a::linorder list)"
proof (induction xs arbitrary: ys)
  case (Cons x xs)
  then show ?case by (cases ys) auto
qed simp

lemma Nil_less_append: "xs \<noteq> [] \<Longrightarrow> [] < xs @ (ys :: 'a::linorder list)"
  by (cases xs) auto

lemma append_less_same [simp]: "xs @ ys < xs @ zs \<longleftrightarrow> ys < (zs :: 'a::linorder list)"
  by (induction xs) auto

lemma utf8_less_iff:
  "valid_rstring s \<Longrightarrow> valid_rstring t \<Longrightarrow> utf8 s < utf8 t \<longleftrightarrow> s < t"
proof (induction s arbitrary: t)
  case Nil
  then show ?case by (cases t) (auto simp: Nil_less_append)
next
  case (Cons c s)
  show ?case
  proof (cases t)
    case (Cons d u)
    have less: "utf8_char a @ x < utf8_char b @ y" if "a < b" "is_scalar a" "is_scalar b" for a b x y
      using that utf8_char_prefix_free [of a b]
      by (intro list_less_append utf8_char_less) (auto simp: is_scalar_def)
    show ?thesis
      using Cons Cons.prems Cons.IH [of u] less [of c d "utf8 s" "utf8 u"]
        less [of d c "utf8 u" "utf8 s"]
      by (cases c d rule: linorder_cases) (auto simp: order.asym)
  qed simp
qed

lemma cmp_utf8: "valid_rstring s \<Longrightarrow> valid_rstring t \<Longrightarrow> cmp (utf8 s) (utf8 t) = cmp s t"
  by (simp add: cmp_def utf8_less_iff utf8_inject)

end
