(* ===== verification/Variant_Binary.thy ===== *)
theory Variant_Binary
  imports Rust_Strings
begin

text \<open>
  \<^verbatim>\<open>variant.rs\<close>, read side: the binary Variant format (a \<^verbatim>\<open>value\<close> buffer and a \<^verbatim>\<open>metadata\<close> dictionary),
  its validator \<^verbatim>\<open>validate_payload\<close>, the typed getters and path navigation.
  \<^item> A position is a \<^verbatim>\<open>usize\<close>, here a \<open>nat\<close>. Additions the source checks are \<open>checked_add_usize\<close>; the
    unchecked ones stay below \<open>2 ^ 64\<close> because sizes are read from at most four bytes and positions
    are below the length of a buffer.
  \<^item> \<open>validate_value\<close> recurses through the children of objects and arrays; the loops over the children
    are \<open>validate_object\<close> and \<open>validate_array\<close>, which take the recursive call as an argument, and the
    depth limit of the source is the termination measure.
\<close>

unbundle bit_operations_syntax

section \<open>Constants\<close>

abbreviation (input) BASIC_TYPE_MASK :: byte where "BASIC_TYPE_MASK \<equiv> 0x3"
abbreviation (input) TYPE_INFO_MASK :: byte where "TYPE_INFO_MASK \<equiv> 0x3f"
abbreviation (input) V_PRIMITIVE :: nat where "V_PRIMITIVE \<equiv> 0"
abbreviation (input) V_SHORT_STR :: nat where "V_SHORT_STR \<equiv> 1"
abbreviation (input) V_OBJECT :: nat where "V_OBJECT \<equiv> 2"
abbreviation (input) V_ARRAY :: nat where "V_ARRAY \<equiv> 3"
abbreviation (input) V_NULL :: nat where "V_NULL \<equiv> 0"
abbreviation (input) V_TRUE :: nat where "V_TRUE \<equiv> 1"
abbreviation (input) V_FALSE :: nat where "V_FALSE \<equiv> 2"
abbreviation (input) V_INT1 :: nat where "V_INT1 \<equiv> 3"
abbreviation (input) V_INT2 :: nat where "V_INT2 \<equiv> 4"
abbreviation (input) V_INT4 :: nat where "V_INT4 \<equiv> 5"
abbreviation (input) V_INT8 :: nat where "V_INT8 \<equiv> 6"
abbreviation (input) V_DOUBLE :: nat where "V_DOUBLE \<equiv> 7"
abbreviation (input) V_DECIMAL4 :: nat where "V_DECIMAL4 \<equiv> 8"
abbreviation (input) V_DECIMAL8 :: nat where "V_DECIMAL8 \<equiv> 9"
abbreviation (input) V_DECIMAL16 :: nat where "V_DECIMAL16 \<equiv> 10"
abbreviation (input) V_DATE :: nat where "V_DATE \<equiv> 11"
abbreviation (input) V_TIMESTAMP :: nat where "V_TIMESTAMP \<equiv> 12"
abbreviation (input) V_TIMESTAMP_NTZ :: nat where "V_TIMESTAMP_NTZ \<equiv> 13"
abbreviation (input) V_FLOAT :: nat where "V_FLOAT \<equiv> 14"
abbreviation (input) V_BINARY :: nat where "V_BINARY \<equiv> 15"
abbreviation (input) V_LONG_STR :: nat where "V_LONG_STR \<equiv> 16"
abbreviation (input) V_UUID :: nat where "V_UUID \<equiv> 20"
abbreviation (input) U32_SIZE :: nat where "U32_SIZE \<equiv> 4"
abbreviation (input) SIZE_LIMIT :: nat where "SIZE_LIMIT \<equiv> 134217728"
abbreviation (input) MAX_NESTING_DEPTH :: nat where "MAX_NESTING_DEPTH \<equiv> 1000"
abbreviation (input) BINARY_SEARCH_THRESHOLD :: nat where "BINARY_SEARCH_THRESHOLD \<equiv> 32"

section \<open>Reading bytes\<close>

definition data_invalid :: "string \<Rightarrow> 'a result" where
  "data_invalid message = Inl (DataInvalid message)"

definition check_index :: "bytes \<Rightarrow> nat \<Rightarrow> unit result" where
  "check_index bs pos = (if pos \<ge> length bs then data_invalid ''Malformed Variant'' else Inr ())"

definition checked_add_usize :: "nat \<Rightarrow> nat \<Rightarrow> nat option" where
  "checked_add_usize a b = (if a + b < 2 ^ 64 then Some (a + b) else None)"

definition check_range :: "bytes \<Rightarrow> nat \<Rightarrow> nat \<Rightarrow> unit result" where
  "check_range bs pos len =
     (if len = 0 then Inr ()
      else case checked_add_usize pos len of
        None \<Rightarrow> data_invalid ''Malformed Variant''
      | Some v \<Rightarrow> check_index bs (v - 1))"

definition slice_of :: "bytes \<Rightarrow> nat \<Rightarrow> nat \<Rightarrow> bytes" where
  "slice_of bs pos len = take len (drop pos bs)"

definition read_unsigned :: "bytes \<Rightarrow> nat \<Rightarrow> nat \<Rightarrow> nat result" where
  "read_unsigned bs pos num_bytes =
     and_then (check_range bs pos num_bytes)
       (\<lambda>_. Inr (nat (from_le (slice_of bs pos num_bytes))))"

definition read_signed :: "bytes \<Rightarrow> nat \<Rightarrow> nat \<Rightarrow> int result" where
  "read_signed bs pos num_bytes =
     and_then (check_range bs pos num_bytes)
       (\<lambda>_. Inr (wrap_signed (8 * num_bytes) (from_le (slice_of bs pos num_bytes))))"

definition basic_type :: "byte \<Rightarrow> nat" where
  "basic_type b = unat (b AND BASIC_TYPE_MASK)"

definition type_info :: "byte \<Rightarrow> nat" where
  "type_info b = unat (drop_bit 2 b AND TYPE_INFO_MASK)"

section \<open>Kinds, sizes and layouts\<close>

datatype variant_kind =
    KObject | KArray | KNull | KBoolean | KLong | KString | KDouble | KDecimal | KDate
  | KTimestamp | KTimestampNtz | KFloat | KBinary | KUuid

definition value_kind :: "bytes \<Rightarrow> nat \<Rightarrow> variant_kind result" where
  "value_kind v pos =
     and_then (check_index v pos) (\<lambda>_.
       let bt = basic_type (v ! pos); ti = type_info (v ! pos) in
       if bt = V_SHORT_STR then Inr KString
       else if bt = V_OBJECT then Inr KObject
       else if bt = V_ARRAY then Inr KArray
       else if ti = V_NULL then Inr KNull
       else if ti = V_TRUE \<or> ti = V_FALSE then Inr KBoolean
       else if ti = V_INT1 \<or> ti = V_INT2 \<or> ti = V_INT4 \<or> ti = V_INT8 then Inr KLong
       else if ti = V_DOUBLE then Inr KDouble
       else if ti = V_DECIMAL4 \<or> ti = V_DECIMAL8 \<or> ti = V_DECIMAL16 then Inr KDecimal
       else if ti = V_DATE then Inr KDate
       else if ti = V_TIMESTAMP then Inr KTimestamp
       else if ti = V_TIMESTAMP_NTZ then Inr KTimestampNtz
       else if ti = V_FLOAT then Inr KFloat
       else if ti = V_BINARY then Inr KBinary
       else if ti = V_LONG_STR then Inr KString
       else if ti = V_UUID then Inr KUuid
       else data_invalid ''Unknown primitive type in Variant'')"

text \<open>The fields of the header byte of an object and of an array.\<close>

definition object_size_bytes :: "byte \<Rightarrow> nat" where
  "object_size_bytes b = (let large_size = (type_info b div 16 mod 2 \<noteq> 0) in if large_size then U32_SIZE else 1)"

definition object_id_size :: "byte \<Rightarrow> nat" where
  "object_id_size b = type_info b div 4 mod 4 + 1"

definition array_size_bytes :: "byte \<Rightarrow> nat" where
  "array_size_bytes b = (let large_size = (type_info b div 4 mod 2 \<noteq> 0) in if large_size then U32_SIZE else 1)"

definition header_offset_size :: "byte \<Rightarrow> nat" where
  "header_offset_size b = type_info b mod 4 + 1"

record object_layout_t =
  ol_size :: nat
  ol_id_size :: nat
  ol_offset_size :: nat
  ol_id_start :: nat
  ol_offset_start :: nat
  ol_data_start :: nat

definition object_layout :: "bytes \<Rightarrow> nat \<Rightarrow> object_layout_t result" where
  "object_layout v pos =
     and_then (check_index v pos) (\<lambda>_.
       if basic_type (v ! pos) \<noteq> V_OBJECT then data_invalid ''Expected Variant object''
       else
         let size_bytes = object_size_bytes (v ! pos)
         in and_then (read_unsigned v (pos + 1) size_bytes) (\<lambda>size.
           let id_size = object_id_size (v ! pos);
               offset_size = header_offset_size (v ! pos);
               id_start = pos + 1 + size_bytes;
               offset_start = id_start + size * id_size;
               data_start = offset_start + (size + 1) * offset_size
           in and_then (check_range v id_start (size * id_size)) (\<lambda>_.
              and_then (check_range v offset_start ((size + 1) * offset_size)) (\<lambda>_.
                Inr \<lparr>ol_size = size, ol_id_size = id_size, ol_offset_size = offset_size,
                     ol_id_start = id_start, ol_offset_start = offset_start,
                     ol_data_start = data_start\<rparr>))))"

record array_layout_t =
  al_size :: nat
  al_offset_size :: nat
  al_offset_start :: nat
  al_data_start :: nat

definition array_layout :: "bytes \<Rightarrow> nat \<Rightarrow> array_layout_t result" where
  "array_layout v pos =
     and_then (check_index v pos) (\<lambda>_.
       if basic_type (v ! pos) \<noteq> V_ARRAY then data_invalid ''Expected Variant array''
       else
         let size_bytes = array_size_bytes (v ! pos)
         in and_then (read_unsigned v (pos + 1) size_bytes) (\<lambda>size.
           let offset_size = header_offset_size (v ! pos);
               offset_start = pos + 1 + size_bytes;
               data_start = offset_start + (size + 1) * offset_size
           in and_then (check_range v offset_start ((size + 1) * offset_size)) (\<lambda>_.
                Inr \<lparr>al_size = size, al_offset_size = offset_size,
                     al_offset_start = offset_start, al_data_start = data_start\<rparr>)))"

definition value_size :: "bytes \<Rightarrow> nat \<Rightarrow> nat result" where
  "value_size v pos =
     and_then (check_index v pos) (\<lambda>_.
       let bt = basic_type (v ! pos); ti = type_info (v ! pos) in
       if bt = V_SHORT_STR then Inr (1 + ti)
       else if bt = V_OBJECT then
         and_then (object_layout v pos) (\<lambda>l.
         and_then (read_unsigned v (ol_offset_start l + ol_size l * ol_offset_size l)
                     (ol_offset_size l)) (\<lambda>data_size.
           Inr (ol_data_start l - pos + data_size)))
       else if bt = V_ARRAY then
         and_then (array_layout v pos) (\<lambda>l.
         and_then (read_unsigned v (al_offset_start l + al_size l * al_offset_size l)
                     (al_offset_size l)) (\<lambda>data_size.
           Inr (al_data_start l - pos + data_size)))
       else if ti = V_NULL \<or> ti = V_TRUE \<or> ti = V_FALSE then Inr 1
       else if ti = V_INT1 then Inr 2
       else if ti = V_INT2 then Inr 3
       else if ti = V_INT4 \<or> ti = V_DATE \<or> ti = V_FLOAT then Inr 5
       else if ti = V_INT8 \<or> ti = V_DOUBLE \<or> ti = V_TIMESTAMP \<or> ti = V_TIMESTAMP_NTZ then Inr 9
       else if ti = V_DECIMAL4 then Inr 6
       else if ti = V_DECIMAL8 then Inr 10
       else if ti = V_DECIMAL16 then Inr 18
       else if ti = V_BINARY \<or> ti = V_LONG_STR then
         and_then (read_unsigned v (pos + 1) U32_SIZE) (\<lambda>len. Inr (1 + U32_SIZE + len))
       else if ti = V_UUID then Inr 17
       else data_invalid ''Unknown primitive type in Variant'')"

section \<open>The metadata dictionary\<close>

definition metadata_offset_size :: "bytes \<Rightarrow> nat result" where
  "metadata_offset_size metadata =
     and_then (check_index metadata 0) (\<lambda>_.
       if metadata ! 0 AND 0x0f \<noteq> 1 then data_invalid ''Malformed Variant metadata version''
       else Inr (unat (drop_bit 6 (metadata ! 0) AND 0x3) + 1))"

definition str_from_utf8 :: "string \<Rightarrow> bytes \<Rightarrow> rstring result" where
  "str_from_utf8 message bs = ok_or (DataInvalid message) (from_utf8 bs)"

definition get_metadata_key :: "bytes \<Rightarrow> nat \<Rightarrow> rstring result" where
  "get_metadata_key metadata key_id =
     and_then (metadata_offset_size metadata) (\<lambda>offset_size.
     and_then (read_unsigned metadata 1 offset_size) (\<lambda>dict_size.
       if key_id \<ge> dict_size then data_invalid ''Malformed Variant metadata dictionary id''
       else
         let string_start = 1 + (dict_size + 2) * offset_size in
         and_then (read_unsigned metadata (1 + (key_id + 1) * offset_size) offset_size) (\<lambda>offset.
         and_then (read_unsigned metadata (1 + (key_id + 2) * offset_size) offset_size) (\<lambda>next_offset.
           if offset > next_offset then data_invalid ''Malformed Variant metadata offsets''
           else
             and_then (check_range metadata (string_start + offset) (next_offset - offset)) (\<lambda>_.
               str_from_utf8 ''Malformed Variant metadata UTF-8''
                 (slice_of metadata (string_start + offset) (next_offset - offset)))))))"

fun validate_metadata_loop ::
    "bytes \<Rightarrow> nat \<Rightarrow> nat \<Rightarrow> nat \<Rightarrow> nat \<Rightarrow> nat \<Rightarrow> rstring set \<Rightarrow> nat list \<Rightarrow> unit result" where
  "validate_metadata_loop metadata offset_size offset_start string_start string_size
     previous_offset seen [] = Inr ()"
| "validate_metadata_loop metadata offset_size offset_start string_start string_size
     previous_offset seen (key_id # ids) =
     and_then (read_unsigned metadata (offset_start + key_id * offset_size) offset_size) (\<lambda>offset.
     and_then (read_unsigned metadata (offset_start + (key_id + 1) * offset_size) offset_size)
       (\<lambda>next_offset.
       if offset \<noteq> previous_offset \<or> offset > next_offset \<or> next_offset > string_size
       then data_invalid ''Malformed Variant metadata offsets''
       else
         and_then (str_from_utf8 ''Malformed Variant metadata UTF-8''
                     (slice_of metadata (string_start + offset) (next_offset - offset))) (\<lambda>key.
           if key \<in> seen then data_invalid ''Malformed Variant metadata duplicate key''
           else validate_metadata_loop metadata offset_size offset_start string_start string_size
                  next_offset (insert key seen) ids)))"

definition validate_metadata :: "bytes \<Rightarrow> unit result" where
  "validate_metadata metadata =
     and_then (metadata_offset_size metadata) (\<lambda>offset_size.
     and_then (read_unsigned metadata 1 offset_size) (\<lambda>dict_size.
       let offset_start = 1 + offset_size;
           string_start = offset_start + (dict_size + 1) * offset_size
       in
         and_then (check_range metadata offset_start ((dict_size + 1) * offset_size)) (\<lambda>_.
         and_then (read_unsigned metadata (offset_start + dict_size * offset_size) offset_size)
           (\<lambda>string_size.
           if checked_add_usize string_start string_size \<noteq> Some (length metadata)
           then data_invalid ''Malformed Variant metadata size''
           else validate_metadata_loop metadata offset_size offset_start string_start string_size
                  0 {} [0..<dict_size]))))"

section \<open>Typed getters\<close>

definition get_boolean :: "bytes \<Rightarrow> nat \<Rightarrow> bool result" where
  "get_boolean v pos =
     and_then (check_index v pos) (\<lambda>_.
       let ti = type_info (v ! pos) in
       if basic_type (v ! pos) \<noteq> V_PRIMITIVE \<or> (ti \<noteq> V_TRUE \<and> ti \<noteq> V_FALSE)
       then data_invalid ''Expected Variant boolean''
       else Inr (ti = V_TRUE))"

definition get_long :: "bytes \<Rightarrow> nat \<Rightarrow> int result" where
  "get_long v pos =
     and_then (check_index v pos) (\<lambda>_.
       let ti = type_info (v ! pos) in
       if basic_type (v ! pos) \<noteq> V_PRIMITIVE
       then data_invalid ''Expected Variant long/date/timestamp''
       else if ti = V_INT1 then read_signed v (pos + 1) 1
       else if ti = V_INT2 then read_signed v (pos + 1) 2
       else if ti = V_INT4 \<or> ti = V_DATE then read_signed v (pos + 1) 4
       else if ti = V_INT8 \<or> ti = V_TIMESTAMP \<or> ti = V_TIMESTAMP_NTZ then read_signed v (pos + 1) 8
       else data_invalid ''Expected Variant long/date/timestamp'')"

text \<open>A double or float is its bit pattern: \<^verbatim>\<open>f64::from_bits(read_signed(..)? as u64)\<close>.\<close>

definition get_double :: "bytes \<Rightarrow> nat \<Rightarrow> 64 word result" where
  "get_double v pos =
     and_then (check_index v pos) (\<lambda>_.
       if basic_type (v ! pos) \<noteq> V_PRIMITIVE \<or> type_info (v ! pos) \<noteq> V_DOUBLE
       then data_invalid ''Expected Variant double''
       else and_then (read_signed v (pos + 1) 8) (\<lambda>x. Inr (word_of_int x)))"

definition get_float :: "bytes \<Rightarrow> nat \<Rightarrow> 32 word result" where
  "get_float v pos =
     and_then (check_index v pos) (\<lambda>_.
       if basic_type (v ! pos) \<noteq> V_PRIMITIVE \<or> type_info (v ! pos) \<noteq> V_FLOAT
       then data_invalid ''Expected Variant float''
       else and_then (read_signed v (pos + 1) 4) (\<lambda>x. Inr (word_of_int x)))"

definition get_string :: "bytes \<Rightarrow> nat \<Rightarrow> rstring result" where
  "get_string v pos =
     and_then (check_index v pos) (\<lambda>_.
       let bt = basic_type (v ! pos); ti = type_info (v ! pos) in
       and_then
         (if bt = V_SHORT_STR then Inr (pos + 1, ti)
          else if bt = V_PRIMITIVE \<and> ti = V_LONG_STR then
            and_then (read_unsigned v (pos + 1) U32_SIZE) (\<lambda>len. Inr (pos + 1 + U32_SIZE, len))
          else data_invalid ''Expected Variant string'')
         (\<lambda>(start, len).
            and_then (check_range v start len) (\<lambda>_.
              str_from_utf8 ''Malformed Variant string UTF-8'' (slice_of v start len))))"

definition get_binary :: "bytes \<Rightarrow> nat \<Rightarrow> bytes result" where
  "get_binary v pos =
     and_then (check_index v pos) (\<lambda>_.
       if basic_type (v ! pos) \<noteq> V_PRIMITIVE \<or> type_info (v ! pos) \<noteq> V_BINARY
       then data_invalid ''Expected Variant binary''
       else
         and_then (read_unsigned v (pos + 1) U32_SIZE) (\<lambda>len.
         and_then (check_range v (pos + 1 + U32_SIZE) len) (\<lambda>_.
           Inr (slice_of v (pos + 1 + U32_SIZE) len))))"

definition get_uuid :: "bytes \<Rightarrow> nat \<Rightarrow> bytes result" where
  "get_uuid v pos =
     and_then (check_index v pos) (\<lambda>_.
       if basic_type (v ! pos) \<noteq> V_PRIMITIVE \<or> type_info (v ! pos) \<noteq> V_UUID
       then data_invalid ''Expected Variant UUID''
       else and_then (check_range v (pos + 1) 16) (\<lambda>_. Inr (slice_of v (pos + 1) 16)))"

record variant_decimal =
  unscaled :: int
  precision :: nat
  dec_scale :: int

fun precision_loop :: "nat \<Rightarrow> nat" where
  "precision_loop value = (if value > 0 then 1 + precision_loop (value div 10) else 0)"

declare precision_loop.simps [simp del]

definition decimal_precision :: "int \<Rightarrow> nat" where
  "decimal_precision u = (let value = nat \<bar>u\<bar> in if value = 0 then 1 else precision_loop value)"

definition get_decimal :: "bytes \<Rightarrow> nat \<Rightarrow> variant_decimal result" where
  "get_decimal v pos =
     and_then (check_index v pos) (\<lambda>_.
       if basic_type (v ! pos) \<noteq> V_PRIMITIVE then data_invalid ''Expected Variant decimal''
       else if pos + 1 \<ge> length v then data_invalid ''Malformed Variant decimal''
       else
         let ti = type_info (v ! pos); scale = wrap_signed 8 (uint (v ! (pos + 1))) in
         and_then
           (if ti = V_DECIMAL4 then and_then (read_signed v (pos + 2) 4) (\<lambda>u. Inr (u, 9))
            else if ti = V_DECIMAL8 then and_then (read_signed v (pos + 2) 8) (\<lambda>u. Inr (u, 18))
            else if ti = V_DECIMAL16 then
              and_then (check_range v (pos + 2) 16) (\<lambda>_.
                Inr (wrap_signed 128 (from_le (slice_of v (pos + 2) 16)), 38))
            else data_invalid ''Expected Variant decimal'')
           (\<lambda>(u, max_precision).
              let p = decimal_precision u in
              if p > max_precision \<or> scale < 0 \<or> scale > int max_precision
              then data_invalid ''Malformed Variant decimal precision or scale''
              else Inr \<lparr>unscaled = u, precision = p, dec_scale = scale\<rparr>))"

section \<open>Validation\<close>

definition validate_sized_value :: "bytes \<Rightarrow> nat \<Rightarrow> nat \<Rightarrow> nat result" where
  "validate_sized_value v pos sz = and_then (check_range v pos sz) (\<lambda>_. Inr sz)"

fun cover_loop :: "nat \<Rightarrow> (nat \<times> nat) list \<Rightarrow> nat result" where
  "cover_loop expected_start [] = Inr expected_start"
| "cover_loop expected_start ((start, stop) # ranges) =
     (if start \<noteq> expected_start \<or> stop < start then data_invalid ''Malformed Variant offsets''
      else cover_loop stop ranges)"

definition validate_ranges_cover_data :: "(nat \<times> nat) list \<Rightarrow> nat \<Rightarrow> unit result" where
  "validate_ranges_cover_data ranges data_size =
     and_then (cover_loop 0 (sort_by (\<lambda>a b. cmp (fst a) (fst b)) ranges)) (\<lambda>expected_start.
       if expected_start \<noteq> data_size then data_invalid ''Malformed Variant offsets'' else Inr ())"

definition validate_offset_order :: "nat \<Rightarrow> nat \<Rightarrow> nat \<Rightarrow> nat \<Rightarrow> nat result" where
  "validate_offset_order previous_offset offset next_offset data_size =
     (if offset \<noteq> previous_offset \<or> offset > next_offset \<or> next_offset > data_size
      then data_invalid ''Malformed Variant offsets'' else Inr next_offset)"

text \<open>In the next definitions \<open>rec\<close> is \<^verbatim>\<open>validate_value(value, metadata, _, depth)\<close> at the child depth.\<close>

definition validate_child_value ::
    "(nat \<Rightarrow> nat result) \<Rightarrow> nat \<Rightarrow> nat \<Rightarrow> nat \<Rightarrow> nat \<Rightarrow> unit result" where
  "validate_child_value rec data_start data_size offset next_offset =
     (if offset > next_offset \<or> next_offset > data_size
      then data_invalid ''Malformed Variant offsets''
      else case checked_add_usize data_start offset of
        None \<Rightarrow> data_invalid ''Malformed Variant offsets''
      | Some child_pos \<Rightarrow>
          and_then (rec child_pos) (\<lambda>child_size.
            if child_size \<noteq> next_offset - offset then data_invalid ''Malformed Variant child size''
            else Inr ()))"

definition validate_child_range ::
    "(nat \<Rightarrow> nat result) \<Rightarrow> nat \<Rightarrow> nat \<Rightarrow> nat \<Rightarrow> (nat \<times> nat) result" where
  "validate_child_range rec data_start data_size offset =
     (if offset > data_size then data_invalid ''Malformed Variant offsets''
      else case checked_add_usize data_start offset of
        None \<Rightarrow> data_invalid ''Malformed Variant offsets''
      | Some child_pos \<Rightarrow>
          and_then (rec child_pos) (\<lambda>child_size.
            case checked_add_usize offset child_size of
              None \<Rightarrow> data_invalid ''Malformed Variant offsets''
            | Some stop \<Rightarrow>
                if stop > data_size then data_invalid ''Malformed Variant offsets''
                else Inr (offset, stop)))"

fun object_loop ::
    "(nat \<Rightarrow> nat result) \<Rightarrow> bytes \<Rightarrow> bytes \<Rightarrow> object_layout_t \<Rightarrow> nat \<Rightarrow> rstring option
      \<Rightarrow> (nat \<times> nat) list \<Rightarrow> nat list \<Rightarrow> (nat \<times> nat) list result" where
  "object_loop rec v metadata l data_size previous_key ranges [] = Inr ranges"
| "object_loop rec v metadata l data_size previous_key ranges (i # is) =
     and_then (read_unsigned v (ol_id_start l + ol_id_size l * i) (ol_id_size l)) (\<lambda>key_id.
     and_then (get_metadata_key metadata key_id) (\<lambda>key.
       if (case previous_key of None \<Rightarrow> False
           | Some previous \<Rightarrow> cmp (utf8 previous) (utf8 key) \<noteq> Less)
       then data_invalid ''Malformed Variant object key order''
       else
         and_then (read_unsigned v (ol_offset_start l + ol_offset_size l * i) (ol_offset_size l))
           (\<lambda>offset.
         and_then (validate_child_range rec (ol_data_start l) data_size offset) (\<lambda>range.
           object_loop rec v metadata l data_size (Some key) (ranges @ [range]) is))))"

definition validate_object :: "(nat \<Rightarrow> nat result) \<Rightarrow> bytes \<Rightarrow> bytes \<Rightarrow> nat \<Rightarrow> nat result" where
  "validate_object rec v metadata pos =
     and_then (object_layout v pos) (\<lambda>l.
     and_then (read_unsigned v (ol_offset_start l + ol_size l * ol_offset_size l)
                 (ol_offset_size l)) (\<lambda>data_size.
       case checked_add_usize (ol_data_start l) data_size of
         None \<Rightarrow> data_invalid ''Malformed Variant object offsets''
       | Some data_end \<Rightarrow>
           if data_end > length v then data_invalid ''Malformed Variant object offsets''
           else
             and_then (object_loop rec v metadata l data_size None [] [0..<ol_size l]) (\<lambda>ranges.
             and_then (read_unsigned v (ol_offset_start l + ol_offset_size l * ol_size l)
                         (ol_offset_size l)) (\<lambda>final_offset.
               if final_offset \<noteq> data_size then data_invalid ''Malformed Variant object offsets''
               else
                 and_then (validate_ranges_cover_data ranges data_size) (\<lambda>_.
                   Inr (ol_data_start l - pos + data_size))))))"

fun array_loop ::
    "(nat \<Rightarrow> nat result) \<Rightarrow> bytes \<Rightarrow> array_layout_t \<Rightarrow> nat \<Rightarrow> nat \<Rightarrow> nat list \<Rightarrow> nat result" where
  "array_loop rec v l data_size previous_offset [] = Inr previous_offset"
| "array_loop rec v l data_size previous_offset (i # is) =
     and_then (read_unsigned v (al_offset_start l + al_offset_size l * i) (al_offset_size l))
       (\<lambda>offset.
     and_then (read_unsigned v (al_offset_start l + al_offset_size l * (i + 1)) (al_offset_size l))
       (\<lambda>next_offset.
     and_then (validate_child_value rec (al_data_start l) data_size offset next_offset) (\<lambda>_.
     and_then (validate_offset_order previous_offset offset next_offset data_size) (\<lambda>previous.
       array_loop rec v l data_size previous is))))"

definition validate_array :: "(nat \<Rightarrow> nat result) \<Rightarrow> bytes \<Rightarrow> nat \<Rightarrow> nat result" where
  "validate_array rec v pos =
     and_then (array_layout v pos) (\<lambda>l.
     and_then (read_unsigned v (al_offset_start l + al_size l * al_offset_size l)
                 (al_offset_size l)) (\<lambda>data_size.
       case checked_add_usize (al_data_start l) data_size of
         None \<Rightarrow> data_invalid ''Malformed Variant array offsets''
       | Some data_end \<Rightarrow>
           if data_end > length v then data_invalid ''Malformed Variant array offsets''
           else
             and_then (array_loop rec v l data_size 0 [0..<al_size l]) (\<lambda>previous_offset.
             and_then (read_unsigned v (al_offset_start l + al_offset_size l * al_size l)
                         (al_offset_size l)) (\<lambda>final_offset.
               if final_offset \<noteq> data_size \<or> final_offset < previous_offset
               then data_invalid ''Malformed Variant array offsets''
               else Inr (al_data_start l - pos + data_size)))))"

definition validate_scalar :: "bytes \<Rightarrow> nat \<Rightarrow> 'a result \<Rightarrow> nat result" where
  "validate_scalar v pos got =
     and_then got (\<lambda>_. and_then (value_size v pos) (\<lambda>size. validate_sized_value v pos size))"

function validate_value :: "bytes \<Rightarrow> bytes \<Rightarrow> nat \<Rightarrow> nat \<Rightarrow> nat result" where
  "validate_value v metadata pos depth =
     (if depth > MAX_NESTING_DEPTH then data_invalid ''Malformed Variant nesting depth''
      else and_then (value_kind v pos) (\<lambda>kind.
        case kind of
          KObject \<Rightarrow>
            validate_object (\<lambda>p. validate_value v metadata p (depth + 1)) v metadata pos
        | KArray \<Rightarrow> validate_array (\<lambda>p. validate_value v metadata p (depth + 1)) v pos
        | KNull \<Rightarrow> validate_scalar v pos (Inr ())
        | KBoolean \<Rightarrow> validate_scalar v pos (get_boolean v pos)
        | KLong \<Rightarrow> validate_scalar v pos (get_long v pos)
        | KDate \<Rightarrow> validate_scalar v pos (get_long v pos)
        | KTimestamp \<Rightarrow> validate_scalar v pos (get_long v pos)
        | KTimestampNtz \<Rightarrow> validate_scalar v pos (get_long v pos)
        | KString \<Rightarrow> validate_scalar v pos (get_string v pos)
        | KDouble \<Rightarrow> validate_scalar v pos (get_double v pos)
        | KDecimal \<Rightarrow> validate_scalar v pos (get_decimal v pos)
        | KFloat \<Rightarrow> validate_scalar v pos (get_float v pos)
        | KBinary \<Rightarrow> validate_scalar v pos (get_binary v pos)
        | KUuid \<Rightarrow> validate_scalar v pos (get_uuid v pos)))"
  by pat_completeness auto
termination
  by (relation "measure (\<lambda>(v, m, p, d). 1001 - d)") auto

declare validate_value.simps [simp del]

definition validate_payload :: "bytes \<Rightarrow> bytes \<Rightarrow> unit result" where
  "validate_payload v metadata =
     (if metadata = [] \<or> metadata ! 0 AND 0x0f \<noteq> 1
      then data_invalid ''Malformed Variant metadata version''
      else if length v > SIZE_LIMIT \<or> length metadata > SIZE_LIMIT
      then data_invalid ''Variant value or metadata exceeds constructor size limit''
      else
        and_then (validate_metadata metadata) (\<lambda>_.
        and_then (validate_value v metadata 0 0) (\<lambda>root_size.
          if root_size \<noteq> length v then data_invalid ''Malformed Variant root size''
          else Inr ())))"

section \<open>Navigation\<close>

record variant_ref =
  vr_value :: bytes
  vr_metadata :: bytes
  vr_pos :: nat

record generic_variant =
  gv_value :: bytes
  gv_metadata :: bytes

definition variant_new_at :: "bytes \<Rightarrow> bytes \<Rightarrow> nat \<Rightarrow> variant_ref result" where
  "variant_new_at v metadata pos =
     and_then (check_index v pos) (\<lambda>_. Inr \<lparr>vr_value = v, vr_metadata = metadata, vr_pos = pos\<rparr>)"

definition variant_new :: "bytes \<Rightarrow> bytes \<Rightarrow> nat \<Rightarrow> variant_ref result" where
  "variant_new v metadata pos =
     and_then (validate_payload v metadata) (\<lambda>_. variant_new_at v metadata pos)"

definition from_parts :: "bytes \<Rightarrow> bytes \<Rightarrow> generic_variant result" where
  "from_parts v metadata =
     and_then (variant_new v metadata 0) (\<lambda>_. Inr \<lparr>gv_value = v, gv_metadata = metadata\<rparr>)"

definition variant_kind_of :: "variant_ref \<Rightarrow> variant_kind result" where
  "variant_kind_of r = value_kind (vr_value r) (vr_pos r)"

definition value_slice :: "variant_ref \<Rightarrow> bytes result" where
  "value_slice r =
     and_then (value_size (vr_value r) (vr_pos r)) (\<lambda>size.
     and_then (check_index (vr_value r) (vr_pos r + size - 1)) (\<lambda>_.
       Inr (slice_of (vr_value r) (vr_pos r) size)))"

definition to_owned_variant :: "variant_ref \<Rightarrow> generic_variant result" where
  "to_owned_variant r =
     and_then (value_slice r) (\<lambda>bs. Inr \<lparr>gv_value = bs, gv_metadata = vr_metadata r\<rparr>)"

definition field_key :: "variant_ref \<Rightarrow> object_layout_t \<Rightarrow> nat \<Rightarrow> rstring result" where
  "field_key r l i =
     and_then (read_unsigned (vr_value r) (ol_id_start l + ol_id_size l * i) (ol_id_size l)) (\<lambda>key_id.
       get_metadata_key (vr_metadata r) key_id)"

definition field_at :: "variant_ref \<Rightarrow> object_layout_t \<Rightarrow> nat \<Rightarrow> variant_ref option result" where
  "field_at r l i =
     and_then (read_unsigned (vr_value r) (ol_offset_start l + ol_offset_size l * i)
                 (ol_offset_size l)) (\<lambda>offset.
     and_then (variant_new_at (vr_value r) (vr_metadata r) (ol_data_start l + offset)) (\<lambda>c.
       Inr (Some c)))"

fun linear_search ::
    "variant_ref \<Rightarrow> object_layout_t \<Rightarrow> rstring \<Rightarrow> nat list \<Rightarrow> variant_ref option result" where
  "linear_search r l key [] = Inr None"
| "linear_search r l key (i # is) =
     and_then (field_key r l i) (\<lambda>k.
       if key = k then field_at r l i else linear_search r l key is)"

function binary_search ::
    "variant_ref \<Rightarrow> object_layout_t \<Rightarrow> rstring \<Rightarrow> nat \<Rightarrow> nat \<Rightarrow> variant_ref option result" where
  "binary_search r l key low high =
     (if low < high then
        let mid = low + (high - low) div 2 in
        and_then (field_key r l mid) (\<lambda>k.
          case cmp (utf8 k) (utf8 key) of
            Less \<Rightarrow> binary_search r l key (mid + 1) high
          | Greater \<Rightarrow> binary_search r l key low mid
          | Equal \<Rightarrow> field_at r l mid)
      else Inr None)"
  by pat_completeness auto
termination
  by (relation "measure (\<lambda>(r, l, key, low, high). high - low)") auto

declare binary_search.simps [simp del]

definition get_field_by_key :: "variant_ref \<Rightarrow> rstring \<Rightarrow> variant_ref option result" where
  "get_field_by_key r key =
     and_then (object_layout (vr_value r) (vr_pos r)) (\<lambda>l.
       if ol_size l < BINARY_SEARCH_THRESHOLD then linear_search r l key [0..<ol_size l]
       else binary_search r l key 0 (ol_size l))"

definition get_element_at_index :: "variant_ref \<Rightarrow> nat \<Rightarrow> variant_ref option result" where
  "get_element_at_index r index =
     and_then (array_layout (vr_value r) (vr_pos r)) (\<lambda>l.
       if index \<ge> al_size l then Inr None
       else
         and_then (read_unsigned (vr_value r) (al_offset_start l + al_offset_size l * index)
                     (al_offset_size l)) (\<lambda>offset.
         and_then (variant_new_at (vr_value r) (vr_metadata r) (al_data_start l + offset)) (\<lambda>c.
           Inr (Some c))))"

datatype path_segment = PathKey rstring | PathIndex nat

fun get_path_segments :: "variant_ref \<Rightarrow> path_segment list \<Rightarrow> variant_ref option result" where
  "get_path_segments r [] = Inr (Some r)"
| "get_path_segments r (PathKey key # segs) =
     and_then (variant_kind_of r) (\<lambda>kind.
       if kind = KObject then
         and_then (get_field_by_key r key) (\<lambda>next.
           case next of None \<Rightarrow> Inr None | Some c \<Rightarrow> get_path_segments c segs)
       else Inr None)"
| "get_path_segments r (PathIndex index # segs) =
     and_then (variant_kind_of r) (\<lambda>kind.
       if kind = KArray then
         and_then (get_element_at_index r index) (\<lambda>next.
           case next of None \<Rightarrow> Inr None | Some c \<Rightarrow> get_path_segments c segs)
       else Inr None)"

end
