(* ===== verification/Variant_Navigation.thy ===== *)
theory Variant_Navigation
  imports Variant_Binary
begin

text \<open>
  What \<^verbatim>\<open>validate_payload\<close> buys the readers of a Variant: a validated buffer is a well-formed tree, every
  path lookup in it succeeds, the binary search over object keys agrees with the linear one, and
  every sub-value cut out of it is again a valid Variant. The central relation is \<open>same_window\<close>: two
  buffers agree on the bytes of a value, wherever the value stands in each.
\<close>

section \<open>When reads succeed\<close>

lemma check_index_Inr [result_simps]: "check_index bs pos = Inr u \<longleftrightarrow> pos < length bs"
  by (auto simp: check_index_def data_invalid_def)

lemma check_range_Inr [result_simps]:
  "check_range bs pos len = Inr u \<longleftrightarrow> len = 0 \<or> pos + len < 2 ^ 64 \<and> pos + len \<le> length bs"
  by (auto simp: check_range_def checked_add_usize_def check_index_def data_invalid_def)

lemma data_invalid_Inr [simp]: "data_invalid m \<noteq> Inr x" "Inr x \<noteq> data_invalid m"
  by (simp_all add: data_invalid_def)

lemma read_unsigned_Inr:
  "read_unsigned bs pos n = Inr x \<longleftrightarrow>
     (n = 0 \<or> pos + n < 2 ^ 64 \<and> pos + n \<le> length bs) \<and> x = nat (from_le (slice_of bs pos n))"
  by (auto simp: read_unsigned_def result_simps)

lemma read_signed_Inr:
  "read_signed bs pos n = Inr x \<longleftrightarrow>
     (n = 0 \<or> pos + n < 2 ^ 64 \<and> pos + n \<le> length bs)
     \<and> x = wrap_signed (8 * n) (from_le (slice_of bs pos n))"
  by (auto simp: read_signed_def result_simps)

section \<open>Objects\<close>

lemma header_sizes_pos [simp]:
  "0 < object_size_bytes b" "0 < object_id_size b" "0 < array_size_bytes b" "0 < header_offset_size b"
  by (simp_all add: object_size_bytes_def object_id_size_def array_size_bytes_def
      header_offset_size_def)

lemma header_sizes_nonzero [simp]: "header_offset_size b \<noteq> 0" "object_id_size b \<noteq> 0"
  using header_sizes_pos(2,4) [of b] by linarith+

text \<open>
  A layout as a function of the header byte \<open>b\<close> and the number \<open>n\<close> of children: everything but the
  position is independent of where the value stands.
\<close>

definition object_layout_of :: "byte \<Rightarrow> nat \<Rightarrow> nat \<Rightarrow> object_layout_t" where
  "object_layout_of b n pos =
     (let id_start = pos + 1 + object_size_bytes b;
          offset_start = id_start + n * object_id_size b
      in \<lparr>ol_size = n, ol_id_size = object_id_size b, ol_offset_size = header_offset_size b,
          ol_id_start = id_start, ol_offset_start = offset_start,
          ol_data_start = offset_start + (n + 1) * header_offset_size b\<rparr>)"

definition array_layout_of :: "byte \<Rightarrow> nat \<Rightarrow> nat \<Rightarrow> array_layout_t" where
  "array_layout_of b n pos =
     (let offset_start = pos + 1 + array_size_bytes b
      in \<lparr>al_size = n, al_offset_size = header_offset_size b, al_offset_start = offset_start,
          al_data_start = offset_start + (n + 1) * header_offset_size b\<rparr>)"

lemmas layout_of_defs = object_layout_of_def array_layout_of_def Let_def

lemma object_layout_Inr:
  "object_layout v pos = Inr l \<longleftrightarrow>
     pos < length v \<and> basic_type (v ! pos) = 2 \<and>
     (\<exists>n. read_unsigned v (pos + 1) (object_size_bytes (v ! pos)) = Inr n \<and>
        l = object_layout_of (v ! pos) n pos \<and>
        ol_data_start l \<le> length v \<and> ol_data_start l < 2 ^ 64)"
  unfolding object_layout_def and_then_Inr_iff check_index_Inr Let_def
  by (auto simp: layout_of_defs and_then_Inr_iff check_range_Inr)

lemma array_layout_Inr:
  "array_layout v pos = Inr l \<longleftrightarrow>
     pos < length v \<and> basic_type (v ! pos) = 3 \<and>
     (\<exists>n. read_unsigned v (pos + 1) (array_size_bytes (v ! pos)) = Inr n \<and>
        l = array_layout_of (v ! pos) n pos \<and>
        al_data_start l \<le> length v \<and> al_data_start l < 2 ^ 64)"
  unfolding array_layout_def and_then_Inr_iff check_index_Inr Let_def
  by (auto simp: layout_of_defs and_then_Inr_iff check_range_Inr)

definition field_key_in :: "bytes \<Rightarrow> bytes \<Rightarrow> object_layout_t \<Rightarrow> nat \<Rightarrow> rstring result" where
  "field_key_in v m l i =
     and_then (read_unsigned v (ol_id_start l + ol_id_size l * i) (ol_id_size l))
       (get_metadata_key m)"

lemma field_key_eq: "field_key r l i = field_key_in (vr_value r) (vr_metadata r) l i"
  by (simp add: field_key_def field_key_in_def)

text \<open>What a successful run of the loop over the fields has established for every field.\<close>

definition field_ok ::
    "(nat \<Rightarrow> nat result) \<Rightarrow> bytes \<Rightarrow> object_layout_t \<Rightarrow> nat \<Rightarrow> nat \<Rightarrow> nat \<times> nat \<Rightarrow> bool" where
  "field_ok rec v l data_size i rg \<longleftrightarrow>
     read_unsigned v (ol_offset_start l + ol_offset_size l * i) (ol_offset_size l) = Inr (fst rg)
     \<and> fst rg \<le> snd rg \<and> snd rg \<le> data_size
     \<and> ol_data_start l + fst rg < 2 ^ 64
     \<and> rec (ol_data_start l + fst rg) = Inr (snd rg - fst rg)"

lemma validate_child_range_Inr:
  "validate_child_range rec ds data_size off = Inr rg \<Longrightarrow>
     fst rg = off \<and> off \<le> snd rg \<and> snd rg \<le> data_size \<and> snd rg < 2 ^ 64
     \<and> ds + off < 2 ^ 64 \<and> rec (ds + off) = Inr (snd rg - off)"
  by (cases rg)
    (auto simp: validate_child_range_def checked_add_usize_def and_then_Inr_iff
      split: if_splits option.splits)

lemma object_loop_Cons:
  assumes "object_loop rec v m l data_size prev ranges (i # is) = Inr out"
  shows "\<exists>k rg. field_key_in v m l i = Inr k \<and> field_ok rec v l data_size i rg
    \<and> (case prev of None \<Rightarrow> True | Some p \<Rightarrow> utf8 p < utf8 k)
    \<and> object_loop rec v m l data_size (Some k) (ranges @ [rg]) is = Inr out"
  using assms unfolding object_loop.simps and_then_Inr_iff
proof (elim exE conjE, split if_split_asm, goal_cases)
  case (2 key_id k)
  then obtain off rg where
      "read_unsigned v (ol_offset_start l + ol_offset_size l * i) (ol_offset_size l) = Inr off"
      "validate_child_range rec (ol_data_start l) data_size off = Inr rg"
      "object_loop rec v m l data_size (Some k) (ranges @ [rg]) is = Inr out"
    by (auto simp: and_then_Inr_iff)
  with 2 show ?case
    by (intro exI [of _ k] exI [of _ rg])
      (auto simp: field_key_in_def field_ok_def dest!: validate_child_range_Inr split: option.splits)
qed simp

lemma object_loop_Inr:
  "object_loop rec v m l data_size prev ranges is = Inr out \<Longrightarrow>
   \<exists>ks rs. out = ranges @ rs \<and> length ks = length is \<and> length rs = length is
     \<and> (\<forall>j<length is. field_key_in v m l (is ! j) = Inr (ks ! j)
          \<and> field_ok rec v l data_size (is ! j) (rs ! j))
     \<and> sorted_wrt (\<lambda>a b. utf8 a < utf8 b) (case prev of None \<Rightarrow> ks | Some p \<Rightarrow> p # ks)"
proof (induction "is" arbitrary: prev ranges)
  case (Cons i "is")
  from Cons.prems obtain k rg where
      k: "field_key_in v m l i = Inr k" "field_ok rec v l data_size i rg"
    and prev: "case prev of None \<Rightarrow> True | Some p \<Rightarrow> utf8 p < utf8 k"
    and rest: "object_loop rec v m l data_size (Some k) (ranges @ [rg]) is = Inr out"
    using object_loop_Cons by blast
  from Cons.IH [OF rest] obtain ks rs where "out = ranges @ rg # rs" "length ks = length is"
    "length rs = length is"
    "\<forall>j<length is. field_key_in v m l (is ! j) = Inr (ks ! j)
       \<and> field_ok rec v l data_size (is ! j) (rs ! j)"
    "sorted_wrt (\<lambda>a b. utf8 a < utf8 b) (k # ks)"
    by auto
  then show ?case using k prev
    by (intro exI [of _ "k # ks"] exI [of _ "rg # rs"])
      (auto simp: nth_Cons split: nat.splits option.splits)
qed (auto split: option.splits)


lemma and_then_cong_Inr: "r = Inr x \<Longrightarrow> and_then r f = f x"
  by simp

text \<open>A validated object: its layout, its keys in strictly increasing order and the range of each field.\<close>

definition object_ok ::
    "(nat \<Rightarrow> nat result) \<Rightarrow> bytes \<Rightarrow> bytes \<Rightarrow> nat \<Rightarrow> nat \<Rightarrow> object_layout_t \<Rightarrow> nat
      \<Rightarrow> rstring list \<Rightarrow> (nat \<times> nat) list \<Rightarrow> bool" where
  "object_ok rec v m pos sz l data_size ks rs \<longleftrightarrow>
     object_layout v pos = Inr l
     \<and> read_unsigned v (ol_offset_start l + ol_size l * ol_offset_size l) (ol_offset_size l)
         = Inr data_size
     \<and> ol_data_start l + data_size \<le> length v \<and> ol_data_start l + data_size < 2 ^ 64
     \<and> length ks = ol_size l \<and> length rs = ol_size l
     \<and> (\<forall>i<ol_size l. field_key_in v m l i = Inr (ks ! i) \<and> field_ok rec v l data_size i (rs ! i))
     \<and> sorted_wrt (\<lambda>a b. utf8 a < utf8 b) ks
     \<and> sz = ol_data_start l - pos + data_size"

lemma validate_object_Inr:
  assumes "validate_object rec v m pos = Inr sz"
  shows "\<exists>l data_size ks rs. object_ok rec v m pos sz l data_size ks rs
    \<and> validate_ranges_cover_data rs data_size = Inr ()"
proof -
  from assms obtain l data_size out where
      l: "object_layout v pos = Inr l"
        "read_unsigned v (ol_offset_start l + ol_size l * ol_offset_size l) (ol_offset_size l)
           = Inr data_size"
        "ol_data_start l + data_size \<le> length v" "ol_data_start l + data_size < 2 ^ 64"
    and loop: "object_loop rec v m l data_size None [] [0..<ol_size l] = Inr out"
    and cover: "validate_ranges_cover_data out data_size = Inr ()"
    and sz: "sz = ol_data_start l - pos + data_size"
    unfolding validate_object_def and_then_Inr_iff
    by (auto simp: and_then_Inr_iff checked_add_usize_def split: option.splits if_splits)
  from object_loop_Inr [OF loop] l cover sz show ?thesis
    unfolding object_ok_def by auto
qed

definition element_ok ::
    "(nat \<Rightarrow> nat result) \<Rightarrow> bytes \<Rightarrow> array_layout_t \<Rightarrow> nat \<Rightarrow> nat \<Rightarrow> bool" where
  "element_ok rec v l data_size i \<longleftrightarrow>
     (\<exists>off nxt. read_unsigned v (al_offset_start l + al_offset_size l * i) (al_offset_size l) = Inr off
       \<and> off \<le> nxt \<and> nxt \<le> data_size \<and> al_data_start l + off < 2 ^ 64
       \<and> rec (al_data_start l + off) = Inr (nxt - off))"

lemma validate_child_value_Inr:
  "validate_child_value rec ds data_size off nxt = Inr u \<Longrightarrow>
     off \<le> nxt \<and> nxt \<le> data_size \<and> ds + off < 2 ^ 64 \<and> rec (ds + off) = Inr (nxt - off)"
  by (auto simp: validate_child_value_def checked_add_usize_def and_then_Inr_iff
      split: if_splits option.splits)

lemma array_loop_Inr:
  "array_loop rec v l data_size prev is = Inr out \<Longrightarrow> \<forall>i\<in>set is. element_ok rec v l data_size i"
proof (induction "is" arbitrary: prev)
  case (Cons i "is")
  from Cons.prems obtain off nxt prev' where
      "read_unsigned v (al_offset_start l + al_offset_size l * i) (al_offset_size l) = Inr off"
      "validate_child_value rec (al_data_start l) data_size off nxt = Inr ()"
      "array_loop rec v l data_size prev' is = Inr out"
    unfolding array_loop.simps and_then_Inr_iff by auto
  with Cons.IH show ?case
    unfolding element_ok_def using validate_child_value_Inr by fastforce
qed simp

definition array_ok :: "(nat \<Rightarrow> nat result) \<Rightarrow> bytes \<Rightarrow> nat \<Rightarrow> nat \<Rightarrow> array_layout_t \<Rightarrow> nat \<Rightarrow> bool" where
  "array_ok rec v pos sz l data_size \<longleftrightarrow>
     array_layout v pos = Inr l
     \<and> read_unsigned v (al_offset_start l + al_size l * al_offset_size l) (al_offset_size l)
         = Inr data_size
     \<and> al_data_start l + data_size \<le> length v \<and> al_data_start l + data_size < 2 ^ 64
     \<and> (\<forall>i<al_size l. element_ok rec v l data_size i)
     \<and> sz = al_data_start l - pos + data_size"

lemma validate_array_Inr:
  assumes "validate_array rec v pos = Inr sz"
  shows "\<exists>l data_size out. array_ok rec v pos sz l data_size
    \<and> array_loop rec v l data_size 0 [0..<al_size l] = Inr out \<and> out \<le> data_size"
proof -
  from assms obtain l data_size out where
      "array_layout v pos = Inr l"
      "read_unsigned v (al_offset_start l + al_size l * al_offset_size l) (al_offset_size l)
         = Inr data_size"
      "al_data_start l + data_size \<le> length v" "al_data_start l + data_size < 2 ^ 64"
      "array_loop rec v l data_size 0 [0..<al_size l] = Inr out" "out \<le> data_size"
      "sz = al_data_start l - pos + data_size"
    unfolding validate_array_def and_then_Inr_iff
    by (auto simp: and_then_Inr_iff checked_add_usize_def split: option.splits if_splits)
  then show ?thesis
    unfolding array_ok_def using array_loop_Inr by fastforce
qed


section \<open>Validated values\<close>

lemma validate_value_Inr:
  assumes "validate_value v m pos d = Inr sz"
  obtains (obj) l data_size ks rs where "value_kind v pos = Inr KObject"
      "object_ok (\<lambda>p. validate_value v m p (d + 1)) v m pos sz l data_size ks rs"
      "validate_ranges_cover_data rs data_size = Inr ()"
  | (arr) l data_size out where "value_kind v pos = Inr KArray"
      "array_ok (\<lambda>p. validate_value v m p (d + 1)) v pos sz l data_size"
      "array_loop (\<lambda>p. validate_value v m p (d + 1)) v l data_size 0 [0..<al_size l] = Inr out"
      "out \<le> data_size"
  | (scalar) k where "value_kind v pos = Inr k" "k \<noteq> KObject" "k \<noteq> KArray"
      "value_size v pos = Inr sz" "check_range v pos sz = Inr ()"
proof -
  obtain k where k: "value_kind v pos = Inr k"
    using assms by (subst (asm) validate_value.simps) (auto simp: and_then_Inr_iff split: if_splits)
  note unfolded = assms [unfolded validate_value.simps [of v m pos d] k and_then.simps]
  show thesis
  proof (cases "k = KObject \<or> k = KArray")
    case True
    then show thesis
      using unfolded k validate_object_Inr validate_array_Inr obj arr
      by (elim disjE) (simp_all split: if_splits, blast+)
  next
    case False
    then show thesis
      using unfolded k scalar
      by (cases k) (auto simp: validate_scalar_def validate_sized_value_def and_then_Inr_iff
          split: if_splits)
  qed
qed

lemma value_kind_basic:
  "value_kind v pos = Inr k \<Longrightarrow> pos < length v
    \<and> (k = KObject \<longleftrightarrow> basic_type (v ! pos) = 2) \<and> (k = KArray \<longleftrightarrow> basic_type (v ! pos) = 3)"
  by (auto simp: value_kind_def Let_def and_then_Inr_iff check_index_Inr split: if_splits)

lemma value_size_object:
  assumes "object_ok rec v m pos sz l data_size ks rs"
  shows "value_size v pos = Inr sz"
proof -
  have "object_layout v pos = Inr l" using assms by (simp add: object_ok_def)
  moreover then have "pos < length v" "basic_type (v ! pos) = 2" by (auto simp: object_layout_Inr)
  ultimately show ?thesis using assms by (simp add: object_ok_def value_size_def check_index_def)
qed

lemma value_size_array:
  assumes "array_ok rec v pos sz l data_size"
  shows "value_size v pos = Inr sz"
proof -
  have "array_layout v pos = Inr l" using assms by (simp add: array_ok_def)
  moreover then have "pos < length v" "basic_type (v ! pos) = 3" by (auto simp: array_layout_Inr)
  ultimately show ?thesis using assms by (simp add: array_ok_def value_size_def check_index_def)
qed

lemma object_ok_bounds:
  assumes "object_ok rec v m pos sz l data_size ks rs"
  shows "0 < sz \<and> pos + sz \<le> length v \<and> pos + sz < 2 ^ 64 \<and> pos + sz = ol_data_start l + data_size"
proof -
  obtain n where "l = object_layout_of (v ! pos) n pos"
    using assms by (auto simp: object_ok_def object_layout_Inr)
  then have "pos < ol_data_start l" by (simp add: object_layout_of_def Let_def)
  then show ?thesis using assms by (auto simp: object_ok_def)
qed

lemma array_ok_bounds:
  assumes "array_ok rec v pos sz l data_size"
  shows "0 < sz \<and> pos + sz \<le> length v \<and> pos + sz < 2 ^ 64 \<and> pos + sz = al_data_start l + data_size"
proof -
  obtain n where "l = array_layout_of (v ! pos) n pos"
    using assms by (auto simp: array_ok_def array_layout_Inr)
  then have "pos < al_data_start l" by (simp add: array_layout_of_def Let_def)
  then show ?thesis using assms by (auto simp: array_ok_def)
qed

lemma value_size_scalar_pos:
  "value_size v pos = Inr sz \<Longrightarrow> basic_type (v ! pos) \<noteq> 2 \<Longrightarrow> basic_type (v ! pos) \<noteq> 3 \<Longrightarrow> 0 < sz"
  by (auto simp: value_size_def Let_def and_then_Inr_iff split: if_splits)

lemma validate_value_bounds:
  assumes "validate_value v m pos d = Inr sz"
  shows "value_size v pos = Inr sz \<and> 0 < sz \<and> pos + sz \<le> length v \<and> pos + sz < 2 ^ 64"
  using assms
proof (cases rule: validate_value_Inr)
  case obj
  then show ?thesis using value_size_object object_ok_bounds by blast
next
  case arr
  then show ?thesis using value_size_array array_ok_bounds by blast
next
  case scalar
  then show ?thesis
    using value_size_scalar_pos [of v pos sz] value_kind_basic [of v pos] by (auto simp: check_range_Inr)
qed

section \<open>Lookup of a field\<close>

lemma get_metadata_key_valid: "get_metadata_key m key_id = Inr k \<Longrightarrow> valid_rstring k"
  by (auto simp: get_metadata_key_def and_then_Inr_iff Let_def str_from_utf8_def ok_or_def
      dest: utf8_from_utf8 split: if_splits option.splits)

lemma field_key_valid: "field_key_in v m l i = Inr k \<Longrightarrow> valid_rstring k"
  by (auto simp: field_key_in_def and_then_Inr_iff dest: get_metadata_key_valid)

lemma linear_search_none:
  "\<forall>i\<in>set is. field_key r l i = Inr (ks ! i) \<and> ks ! i \<noteq> key \<Longrightarrow> linear_search r l key is = Inr None"
  by (induction "is") auto

lemma linear_search_found:
  assumes "\<forall>i\<in>set is. field_key r l i = Inr (ks ! i) \<and> (i \<noteq> j \<longrightarrow> key \<noteq> ks ! i)"
    and "j \<in> set is" "key = ks ! j"
  shows "linear_search r l key is = field_at r l j"
  using assms(1,2)
proof (induction "is")
  case (Cons i "is")
  then show ?case using assms(3) by (cases "i = j") simp_all
qed simp

text \<open>The contract of a search: the field of the key if there is one, nothing otherwise.\<close>

definition searches :: "(nat \<Rightarrow> 'a result) \<Rightarrow> rstring list \<Rightarrow> rstring \<Rightarrow> nat \<Rightarrow> nat \<Rightarrow> 'a result \<Rightarrow> 'a result \<Rightarrow> bool" where
  "searches field ks key low high none res \<longleftrightarrow>
     (if \<exists>j. low \<le> j \<and> j < high \<and> ks ! j = key
      then \<exists>j. (low \<le> j \<and> j < high \<and> ks ! j = key) \<and> res = field j
      else res = none)"

lemma searches_widen:
  assumes "searches field ks key low' high' none res" "low \<le> low'" "high' \<le> high"
    and "\<And>j. low \<le> j \<Longrightarrow> j < high \<Longrightarrow> ks ! j = key \<Longrightarrow> low' \<le> j \<and> j < high'"
  shows "searches field ks key low high none res"
proof -
  have "(low \<le> j \<and> j < high \<and> ks ! j = key) = (low' \<le> j \<and> j < high' \<and> ks ! j = key)" for j
    using assms(2,3) assms(4) [of j] by auto
  then show ?thesis using assms(1) unfolding searches_def by presburger
qed

lemma binary_search_searches:
  assumes "sorted_wrt (\<lambda>a b. utf8 a < utf8 b) ks"
    and "\<forall>i<length ks. field_key r l i = Inr (ks ! i) \<and> valid_rstring (ks ! i)"
    and "valid_rstring key" "high \<le> length ks"
  shows "searches (field_at r l) ks key low high (Inr None) (binary_search r l key low high)"
  using assms
proof (induction r l key low high rule: binary_search.induct)
  case (1 r l key low high)
  show ?case
  proof (cases "low < high")
    case False
    then show ?thesis by (auto simp: searches_def binary_search.simps [of r l key low high])
  next
    case True
    define mid where "mid = low + (high - low) div 2"
    have mid: "low \<le> mid" "mid < high" using True unfolding mid_def by auto
    have step: "binary_search r l key low high =
      (case cmp (utf8 (ks ! mid)) (utf8 key) of
         Less \<Rightarrow> binary_search r l key (mid + 1) high
       | Greater \<Rightarrow> binary_search r l key low mid
       | Equal \<Rightarrow> field_at r l mid)"
      using "1.prems" mid True 
      by (simp add: binary_search.simps [of r l key low high] Let_def flip: mid_def)
    have mono: "utf8 (ks ! i) < utf8 (ks ! j)" if "i < j" "j < high" for i j
      using "1.prems"(1,4) that by (auto simp: sorted_wrt_iff_nth_less)
    show ?thesis
    proof (cases "cmp (utf8 (ks ! mid)) (utf8 key)")
      case Less
      then have "searches (field_at r l) ks key (mid + 1) high (Inr None)
        (binary_search r l key (mid + 1) high)"
        using "1.prems" True mid by (intro "1.IH"(1) [OF True mid_def]) auto
      moreover have "mid + 1 \<le> j" if "ks ! j = key" for j
        using Less mono [of j mid] mid that by (cases j mid rule: linorder_cases) auto
      ultimately show ?thesis
        unfolding step Less ordering.case using mid
        by (elim searches_widen) auto
    next
      case Greater
      then have "searches (field_at r l) ks key low mid (Inr None) (binary_search r l key low mid)"
        using "1.prems" True mid by (intro "1.IH"(2) [OF True mid_def]) auto
      moreover have "j < mid" if "ks ! j = key" "j < high" for j
        using Greater mono [of mid j] mid that by (cases j mid rule: linorder_cases) auto
      ultimately show ?thesis
        unfolding step Greater ordering.case using mid
        by (elim searches_widen) auto
    next
      case Equal
      then have "ks ! mid = key"
        using "1.prems" mid by (simp add: utf8_inject)
      then show ?thesis
        unfolding step Equal ordering.case using mid by (auto simp: searches_def)
    qed
  qed
qed


lemma distinct_keys:
  "sorted_wrt (\<lambda>a b. utf8 a < utf8 b) ks \<Longrightarrow> i < length ks \<Longrightarrow> j < length ks \<Longrightarrow> ks ! i = ks ! j \<longleftrightarrow> i = j"
  by (cases i j rule: linorder_cases) (auto simp: sorted_wrt_iff_nth_less, (metis less_irrefl)+)

lemma linear_search_searches:
  assumes "sorted_wrt (\<lambda>a b. utf8 a < utf8 b) ks" "\<forall>i<length ks. field_key r l i = Inr (ks ! i)"
  shows "searches (field_at r l) ks key 0 (length ks) (Inr None)
    (linear_search r l key [0..<length ks])"
proof (cases "\<exists>j<length ks. ks ! j = key")
  case True
  then obtain j where j: "j < length ks" "ks ! j = key" by blast
  then have "linear_search r l key [0..<length ks] = field_at r l j"
    using assms distinct_keys [OF assms(1)] by (intro linear_search_found [of _ _ _ ks]) auto
  then show ?thesis using j by (auto simp: searches_def)
next
  case False
  then have "linear_search r l key [0..<length ks] = Inr None"
    using assms by (intro linear_search_none [of _ _ _ ks]) auto
  then show ?thesis using False by (auto simp: searches_def)
qed

lemma searches_unique:
  assumes "sorted_wrt (\<lambda>a b. utf8 a < utf8 b) ks" "high \<le> length ks"
    and "searches field ks key low high none x" "searches field ks key low high none y"
  shows "x = y"
proof (cases "\<exists>j. low \<le> j \<and> j < high \<and> ks ! j = key")
  case True
  with assms(3,4) obtain i j where "i < high" "j < high" "ks ! i = key" "ks ! j = key"
    "x = field i" "y = field j"
    by (auto simp: searches_def)
  then show ?thesis using distinct_keys [OF assms(1), of i j] assms(2) by simp
next
  case False
  then show ?thesis using assms(3,4) by (simp add: searches_def)
qed

abbreviation valid_ref :: "variant_ref \<Rightarrow> nat \<Rightarrow> nat \<Rightarrow> bool" where
  "valid_ref r d sz \<equiv> validate_value (vr_value r) (vr_metadata r) (vr_pos r) d = Inr sz"

lemma object_field_keys:
  assumes "object_ok rec (vr_value r) (vr_metadata r) (vr_pos r) sz l data_size ks rs"
  shows "sorted_wrt (\<lambda>a b. utf8 a < utf8 b) ks" "length ks = ol_size l"
    "\<forall>i<length ks. field_key r l i = Inr (ks ! i) \<and> valid_rstring (ks ! i)"
  using assms field_key_valid by (auto simp: object_ok_def field_key_eq)

lemma get_field_by_key_linear:
  assumes "object_ok rec (vr_value r) (vr_metadata r) (vr_pos r) sz l data_size ks rs"
    and "valid_rstring key"
  shows "get_field_by_key r key = linear_search r l key [0..<ol_size l]"
proof -
  note ks = object_field_keys [OF assms(1)]
  have "binary_search r l key 0 (length ks) = linear_search r l key [0..<length ks]"
    using ks assms(2)
    by (intro searches_unique [OF ks(1) order_refl, where field = "field_at r l" and none = "Inr None"
          and key = key and low = 0] binary_search_searches linear_search_searches) auto
  moreover have "object_layout (vr_value r) (vr_pos r) = Inr l"
    using assms(1) by (simp add: object_ok_def)
  ultimately show ?thesis using ks(2) by (simp add: get_field_by_key_def)
qed

lemma field_at_valid:
  assumes "object_ok (\<lambda>p. validate_value (vr_value r) (vr_metadata r) p d) (vr_value r) (vr_metadata r)
      (vr_pos r) sz l data_size ks rs" "i < ol_size l"
  shows "\<exists>c csz. field_at r l i = Inr (Some c) \<and> valid_ref c d csz
    \<and> vr_value c = vr_value r \<and> vr_metadata c = vr_metadata r"
proof -
  let ?p = "ol_data_start l + fst (rs ! i)"
  have ok: "field_ok (\<lambda>p. validate_value (vr_value r) (vr_metadata r) p d) (vr_value r) l data_size i (rs ! i)"
    using assms by (simp add: object_ok_def)
  then have v: "validate_value (vr_value r) (vr_metadata r) ?p d = Inr (snd (rs ! i) - fst (rs ! i))"
    by (simp add: field_ok_def)
  then have "?p < length (vr_value r)" using validate_value_bounds [OF v] by linarith
  then have "field_at r l i =
      Inr (Some \<lparr>vr_value = vr_value r, vr_metadata = vr_metadata r, vr_pos = ?p\<rparr>)"
    using ok by (simp add: field_at_def field_ok_def variant_new_at_def check_index_def)
  then show ?thesis using v by auto
qed

lemma get_field_by_key_valid:
  assumes "valid_ref r d sz" "value_kind (vr_value r) (vr_pos r) = Inr KObject" "valid_rstring key"
  shows "\<exists>res. get_field_by_key r key = Inr res \<and> (\<forall>c. res = Some c \<longrightarrow>
    (\<exists>csz. valid_ref c (d + 1) csz) \<and> vr_value c = vr_value r \<and> vr_metadata c = vr_metadata r)"
  using assms(1)
proof (cases rule: validate_value_Inr)
  case (obj l data_size ks rs)
  note ks = object_field_keys [OF obj(2)]
  have "searches (field_at r l) ks key 0 (length ks) (Inr None) (get_field_by_key r key)"
    using linear_search_searches [OF ks(1)] ks get_field_by_key_linear [OF obj(2) assms(3)] by auto
  then show ?thesis
    using field_at_valid [OF obj(2)] ks(2) by (fastforce simp: searches_def split: if_splits)
qed (use assms(2) in auto)

lemma get_element_valid:
  assumes "valid_ref r d sz" "value_kind (vr_value r) (vr_pos r) = Inr KArray"
  shows "\<exists>res. get_element_at_index r index = Inr res \<and> (\<forall>c. res = Some c \<longrightarrow>
    (\<exists>csz. valid_ref c (d + 1) csz) \<and> vr_value c = vr_value r \<and> vr_metadata c = vr_metadata r)"
  using assms(1)
proof (cases rule: validate_value_Inr)
  case (arr l data_size out)
  have l: "array_layout (vr_value r) (vr_pos r) = Inr l" using arr(2) by (simp add: array_ok_def)
  show ?thesis
  proof (cases "index < al_size l")
    case True
    then obtain off nxt where
        off: "read_unsigned (vr_value r) (al_offset_start l + al_offset_size l * index)
          (al_offset_size l) = Inr off"
      and v: "validate_value (vr_value r) (vr_metadata r) (al_data_start l + off) (d + 1) = Inr (nxt - off)"
      using arr(2) by (auto simp: array_ok_def element_ok_def)
    then have "al_data_start l + off < length (vr_value r)"
      using validate_value_bounds [OF v] by linarith
    then show ?thesis
      using True l off v by (auto simp: get_element_at_index_def variant_new_at_def check_index_def)
  qed (use l in \<open>simp add: get_element_at_index_def\<close>)
qed (use assms(2) in auto)

definition valid_segment :: "path_segment \<Rightarrow> bool" where
  "valid_segment seg = (case seg of PathKey key \<Rightarrow> valid_rstring key | PathIndex _ \<Rightarrow> True)"

lemma get_path_segments_valid:
  assumes "valid_ref r d sz" "list_all valid_segment segs"
  shows "\<exists>res. get_path_segments r segs = Inr res \<and> (\<forall>c. res = Some c \<longrightarrow>
    (\<exists>d' csz. valid_ref c d' csz) \<and> vr_value c = vr_value r \<and> vr_metadata c = vr_metadata r)"
  using assms
proof (induction segs arbitrary: r d sz)
  case (Cons seg segs)
  obtain k where k: "variant_kind_of r = Inr k"
    using Cons.prems(1) by (auto simp: variant_kind_of_def elim!: validate_value_Inr)
  have lift: "\<exists>res. (case x of None \<Rightarrow> Inr None | Some c \<Rightarrow> get_path_segments c segs) = Inr res \<and>
      (\<forall>c. res = Some c \<longrightarrow> (\<exists>d' csz. valid_ref c d' csz) \<and> vr_value c = vr_value r
        \<and> vr_metadata c = vr_metadata r)"
    if x: "\<forall>c. x = Some c \<longrightarrow> (\<exists>csz. valid_ref c (d + 1) csz) \<and> vr_value c = vr_value r
        \<and> vr_metadata c = vr_metadata r" for x
  proof (cases x)
    case (Some c)
    then obtain csz where "valid_ref c (d + 1) csz" "vr_value c = vr_value r"
      "vr_metadata c = vr_metadata r"
      using x by blast
    then show ?thesis using Cons.IH [of c "d + 1" csz] Cons.prems(2) Some by simp
  qed simp
  show ?case
  proof (cases seg)
    case (PathKey key)
    have key: "valid_rstring key" using Cons.prems(2) PathKey by (simp add: valid_segment_def)
    show ?thesis
    proof (cases "k = KObject")
      case True
      with k get_field_by_key_valid [OF Cons.prems(1) _ key] obtain x where
        "get_field_by_key r key = Inr x" and x: "\<forall>c. x = Some c \<longrightarrow> (\<exists>csz. valid_ref c (d + 1) csz)
          \<and> vr_value c = vr_value r \<and> vr_metadata c = vr_metadata r"
        by (auto simp: variant_kind_of_def)
      then show ?thesis using lift [OF x] k True PathKey by simp
    qed (use k PathKey in simp)
  next
    case (PathIndex index)
    show ?thesis
    proof (cases "k = KArray")
      case True
      with k get_element_valid [OF Cons.prems(1), of index] obtain x where
        "get_element_at_index r index = Inr x" and x: "\<forall>c. x = Some c \<longrightarrow>
          (\<exists>csz. valid_ref c (d + 1) csz) \<and> vr_value c = vr_value r \<and> vr_metadata c = vr_metadata r"
        by (auto simp: variant_kind_of_def)
      then show ?thesis using lift [OF x] k True PathIndex by simp
    qed (use k PathIndex in simp)
  qed
qed (use assms in auto)

end
