(* ===== verification/Variant_Slices.thy ===== *)
theory Variant_Slices
  imports Variant_Navigation
begin

text \<open>
  Validation does not depend on where a value stands: a validated value stays valid, with the same
  size, in any buffer that holds the same bytes at another position. This is what makes the slices
  returned by \<^verbatim>\<open>VariantRef::value_slice\<close> and \<^verbatim>\<open>to_owned_variant\<close> Variants of their own.
\<close>

definition same_window :: "bytes \<Rightarrow> nat \<Rightarrow> bytes \<Rightarrow> nat \<Rightarrow> nat \<Rightarrow> bool" where
  "same_window v p v' p' s \<longleftrightarrow>
     p + s \<le> length v \<and> p' + s \<le> length v' \<and> p + s < 2 ^ 64 \<and> p' + s < 2 ^ 64
     \<and> slice_of v p s = slice_of v' p' s"

lemma slice_of_slice: "k + n \<le> s \<Longrightarrow> slice_of v (p + k) n = slice_of (slice_of v p s) k n"
  by (simp add: slice_of_def drop_take add.commute)

lemma same_window_slice:
  "same_window v p v' p' s \<Longrightarrow> k + n \<le> s \<Longrightarrow> slice_of v' (p' + k) n = slice_of v (p + k) n"
  by (simp add: same_window_def slice_of_slice)

lemma same_window_sub:
  assumes "same_window v p v' p' s" "k + n \<le> s"
  shows "same_window v (p + k) v' (p' + k) n"
  using assms same_window_slice [OF assms] by (auto simp: same_window_def)

lemma same_window_nth:
  assumes "same_window v p v' p' s" "k < s"
  shows "v' ! (p' + k) = v ! (p + k)"
proof -
  have "slice_of v' (p' + k) 1 = slice_of v (p + k) 1"
    using assms by (intro same_window_slice) auto
  moreover have "p + k < length v" "p' + k < length v'" using assms by (auto simp: same_window_def)
  ultimately show ?thesis by (simp add: slice_of_def take_Suc hd_drop_conv_nth)
qed

lemma same_window_range:
  assumes "same_window v p v' p' s" "k + n \<le> s"
  shows "check_range v (p + k) n = Inr ()" "check_range v' (p' + k) n = Inr ()"
  using assms by (auto simp: same_window_def check_range_Inr)

lemma same_window_unsigned:
  "same_window v p v' p' s \<Longrightarrow> k + n \<le> s \<Longrightarrow> read_unsigned v' (p' + k) n = read_unsigned v (p + k) n"
  by (simp add: read_unsigned_def same_window_range same_window_slice)

lemma same_window_signed:
  "same_window v p v' p' s \<Longrightarrow> k + n \<le> s \<Longrightarrow> read_signed v' (p' + k) n = read_signed v (p + k) n"
  by (simp add: read_signed_def same_window_range same_window_slice)

section \<open>Scalars\<close>

lemma same_window_head:
  assumes "same_window v p v' p' s" "0 < s"
  shows "v' ! p' = v ! p" "check_index v p = Inr ()" "check_index v' p' = Inr ()"
  using same_window_nth [OF assms(1), of 0] assms by (auto simp: check_index_def same_window_def)

lemmas at_next = same_window_unsigned [where k = 1] same_window_signed [where k = 1]
  same_window_range [where k = 1] same_window_slice [where k = 1]

lemma same_window_kind: "same_window v p v' p' s \<Longrightarrow> 0 < s \<Longrightarrow> value_kind v' p' = value_kind v p"
  by (simp add: value_kind_def same_window_head)

lemma value_size_long:
  assumes "value_size v p = Inr s" "basic_type (v ! p) = 0" "type_info (v ! p) = 15 \<or> type_info (v ! p) = 16"
  shows "\<exists>len. read_unsigned v (p + 1) 4 = Inr len \<and> s = 5 + len"
  using assms(1) unfolding value_size_def and_then_Inr_iff
  using assms(2,3) by (auto simp: and_then_Inr_iff)

lemma basic_type_range: "basic_type b \<in> {0, 1, 2, 3}"
proof -
  have "unat (b AND 3) \<le> unat (3 :: byte)" by (intro word_le_nat_alt [THEN iffD1] word_and_le1)
  then show ?thesis by (auto simp: basic_type_def)
qed

lemma same_window_value_size:
  assumes "same_window v p v' p' s" "0 < s" "value_size v p = Inr s"
    "basic_type (v ! p) \<noteq> 2" "basic_type (v ! p) \<noteq> 3"
  shows "value_size v' p' = Inr s"
proof (cases "basic_type (v ! p) = 0 \<and> (type_info (v ! p) = 15 \<or> type_info (v ! p) = 16)")
  case True
  then obtain len where len: "read_unsigned v (p + 1) 4 = Inr len" "s = 5 + len"
    using value_size_long [OF assms(3)] by blast
  then have "read_unsigned v' (p' + 1) 4 = Inr len" using at_next(1) [OF assms(1), of 4] by simp
  then show ?thesis using True len
    by (auto simp: value_size_def same_window_head [OF assms(1,2)])
next
  case False
  then show ?thesis using assms(3-5) basic_type_range [of "v ! p"]
    unfolding value_size_def same_window_head [OF assms(1,2)] and_then.simps Let_def by auto
qed

text \<open>The number of bytes a primitive of a given type code takes, when it does not depend on its payload.\<close>

lemma value_size_fixed:
  assumes "value_size v p = Inr s" "basic_type (v ! p) = 0"
  shows "type_info (v ! p) = 3 \<Longrightarrow> s = 2" "type_info (v ! p) = 4 \<Longrightarrow> s = 3"
    "type_info (v ! p) \<in> {5, 11, 14} \<Longrightarrow> s = 5" "type_info (v ! p) \<in> {6, 7, 12, 13} \<Longrightarrow> s = 9"
    "type_info (v ! p) = 8 \<Longrightarrow> s = 6" "type_info (v ! p) = 9 \<Longrightarrow> s = 10"
    "type_info (v ! p) = 10 \<Longrightarrow> s = 18" "type_info (v ! p) = 20 \<Longrightarrow> s = 17"
  using assms by (auto simp: value_size_def and_then_Inr_iff)

lemma same_window_boolean:
  "same_window v p v' p' s \<Longrightarrow> 0 < s \<Longrightarrow> get_boolean v' p' = get_boolean v p"
  by (simp add: get_boolean_def same_window_head)

lemma same_window_long:
  assumes "same_window v p v' p' s" "0 < s" "value_size v p = Inr s"
  shows "get_long v' p' = get_long v p"
  using value_size_fixed(1-4) [OF assms(3)] at_next(2) [OF assms(1)]
  by (auto simp: get_long_def Let_def same_window_head [OF assms(1,2)] simp del: One_nat_def)

lemma same_window_double:
  assumes "same_window v p v' p' s" "0 < s" "value_size v p = Inr s"
  shows "get_double v' p' = get_double v p"
  using value_size_fixed(4) [OF assms(3)] at_next(2) [OF assms(1), of 8]
  by (auto simp: get_double_def same_window_head [OF assms(1,2)] simp del: One_nat_def)

lemma same_window_float:
  assumes "same_window v p v' p' s" "0 < s" "value_size v p = Inr s"
  shows "get_float v' p' = get_float v p"
  using value_size_fixed(3) [OF assms(3)] at_next(2) [OF assms(1), of 4]
  by (auto simp: get_float_def same_window_head [OF assms(1,2)] simp del: One_nat_def)

lemma same_window_uuid:
  assumes "same_window v p v' p' s" "0 < s" "value_size v p = Inr s"
  shows "get_uuid v' p' = get_uuid v p"
proof (cases "basic_type (v ! p) = 0 \<and> type_info (v ! p) = 20")
  case True
  then have "1 + 16 \<le> s" using value_size_fixed(8) [OF assms(3)] by simp
  then show ?thesis
    by (simp only: get_uuid_def same_window_head [OF assms(1,2)] at_next(3-5) [OF assms(1)])
qed (auto simp: get_uuid_def same_window_head [OF assms(1,2)])

lemma same_window_binary:
  assumes "same_window v p v' p' s" "0 < s" "value_size v p = Inr s"
  shows "get_binary v' p' = get_binary v p"
proof (cases "basic_type (v ! p) = 0 \<and> type_info (v ! p) = 15")
  case True
  then obtain len where len: "read_unsigned v (p + 1) 4 = Inr len" "s = 5 + len"
    using value_size_long [OF assms(3)] by blast
  then have "read_unsigned v' (p' + 1) 4 = Inr len" "5 + len \<le> s"
    using at_next(1) [OF assms(1), of 4] by simp_all
  then show ?thesis using True len same_window_range [OF assms(1), of 5 len]
      same_window_slice [OF assms(1), of 5 len]
    by (simp add: get_binary_def same_window_head [OF assms(1,2)] add.commute [of 5])
qed (auto simp: get_binary_def same_window_head [OF assms(1,2)])

lemma same_window_string:
  assumes "same_window v p v' p' s" "0 < s" "value_size v p = Inr s"
  shows "get_string v' p' = get_string v p"
proof -
  consider "basic_type (v ! p) = 1" | "basic_type (v ! p) = 0" "type_info (v ! p) = 16"
    | "basic_type (v ! p) \<noteq> 1" "\<not> (basic_type (v ! p) = 0 \<and> type_info (v ! p) = 16)"
    by auto
  then show ?thesis
  proof cases
    case 1
    then have "1 + type_info (v ! p) \<le> s" using assms(3) by (simp add: value_size_def and_then_Inr_iff)
    then show ?thesis using 1
      by (simp add: get_string_def same_window_head [OF assms(1,2)] at_next(3-5) [OF assms(1)]
          del: One_nat_def)
  next
    case 2
    then obtain len where len: "read_unsigned v (p + 1) 4 = Inr len" "s = 5 + len"
      using value_size_long [OF assms(3)] by blast
    then have "read_unsigned v' (p' + 1) 4 = Inr len" "5 + len \<le> s"
      using at_next(1) [OF assms(1), of 4] by simp_all
    then show ?thesis using 2 len same_window_range [OF assms(1), of 5 len]
        same_window_slice [OF assms(1), of 5 len]
      by (simp add: get_string_def same_window_head [OF assms(1,2)] add.commute [of 5])
  qed (auto simp: get_string_def data_invalid_def same_window_head [OF assms(1,2)])
qed

lemma same_window_decimal:
  assumes "same_window v p v' p' s" "0 < s" "value_size v p = Inr s"
    and "basic_type (v ! p) = 0" "type_info (v ! p) \<in> {8, 9, 10}"
  shows "get_decimal v' p' = get_decimal v p"
proof -
  have sz: "type_info (v ! p) = 8 \<and> s = 6 \<or> type_info (v ! p) = 9 \<and> s = 10 \<or> type_info (v ! p) = 10 \<and> s = 18"
    using assms(5) value_size_fixed(5-7) [OF assms(3,4)] by auto
  then have nx: "v' ! (p' + 1) = v ! (p + 1)" and "p + 1 < length v" "p' + 1 < length v'"
    using same_window_nth [OF assms(1), of 1] assms(1) by (auto simp: same_window_def)
  then show ?thesis
    using sz same_window_signed [OF assms(1), of 2 4] same_window_signed [OF assms(1), of 2 8]
      same_window_range [OF assms(1), of 2 16] same_window_slice [OF assms(1), of 2 16]
    unfolding get_decimal_def same_window_head [OF assms(1,2)] and_then.simps Let_def nx
    by (elim disjE) (simp_all add: assms(4))
qed

section \<open>Objects and arrays\<close>

text \<open>Offsets inside a value, relative to its position.\<close>

definition obj_ids :: "byte \<Rightarrow> nat" where "obj_ids b = 1 + object_size_bytes b"
definition obj_offs :: "byte \<Rightarrow> nat \<Rightarrow> nat" where "obj_offs b n = obj_ids b + n * object_id_size b"
definition obj_data :: "byte \<Rightarrow> nat \<Rightarrow> nat" where
  "obj_data b n = obj_offs b n + (n + 1) * header_offset_size b"
definition arr_offs :: "byte \<Rightarrow> nat" where "arr_offs b = 1 + array_size_bytes b"
definition arr_data :: "byte \<Rightarrow> nat \<Rightarrow> nat" where
  "arr_data b n = arr_offs b + (n + 1) * header_offset_size b"

lemmas rel_defs = obj_ids_def obj_offs_def obj_data_def arr_offs_def arr_data_def

lemma object_layout_of_simps:
  "ol_size (object_layout_of b n p) = n"
  "ol_id_size (object_layout_of b n p) = object_id_size b"
  "ol_offset_size (object_layout_of b n p) = header_offset_size b"
  "ol_id_start (object_layout_of b n p) = p + obj_ids b"
  "ol_offset_start (object_layout_of b n p) = p + obj_offs b n"
  "ol_data_start (object_layout_of b n p) = p + obj_data b n"
  by (simp_all add: object_layout_of_def Let_def rel_defs)

lemma array_layout_of_simps:
  "al_size (array_layout_of b n p) = n"
  "al_offset_size (array_layout_of b n p) = header_offset_size b"
  "al_offset_start (array_layout_of b n p) = p + arr_offs b"
  "al_data_start (array_layout_of b n p) = p + arr_data b n"
  by (simp_all add: array_layout_of_def Let_def rel_defs)

lemma slot_le: "i < n \<Longrightarrow> w * i + w \<le> n * (w :: nat)"
  using mult_le_mono1 [of "Suc i" n w] by (simp add: mult.commute add.commute)

lemma object_loop_intro:
  "length ks = length is \<Longrightarrow> length rs = length is \<Longrightarrow>
   (\<forall>j<length is. field_key_in v m l (is ! j) = Inr (ks ! j) \<and> field_ok rec v l data_size (is ! j) (rs ! j)) \<Longrightarrow>
   sorted_wrt (\<lambda>a b. utf8 a < utf8 b) (case prev of None \<Rightarrow> ks | Some p \<Rightarrow> p # ks) \<Longrightarrow>
   data_size < 2 ^ 64 \<Longrightarrow>
   object_loop rec v m l data_size prev ranges is = Inr (ranges @ rs)"
proof (induction "is" arbitrary: prev ranges ks rs)
  case (Cons i "is")
  obtain k ks' rg rs' where eq: "ks = k # ks'" "rs = rg # rs'"
    using Cons.prems(1,2) by (cases ks; cases rs) auto
  have i: "field_key_in v m l i = Inr k" "field_ok rec v l data_size i rg"
    using Cons.prems(3) eq by auto
  have tail: "\<forall>j<length is. field_key_in v m l (is ! j) = Inr (ks' ! j)
      \<and> field_ok rec v l data_size (is ! j) (rs' ! j)"
    using Cons.prems(3) eq by auto
  have "object_loop rec v m l data_size (Some k) (ranges @ [rg]) is = Inr ((ranges @ [rg]) @ rs')"
    using Cons.prems tail eq by (intro Cons.IH) (auto split: option.splits)
  moreover have "validate_child_range rec (ol_data_start l) data_size (fst rg) = Inr rg"
    using i(2) Cons.prems(5)
    by (cases rg) (auto simp: field_ok_def validate_child_range_def checked_add_usize_def)
  ultimately show ?case
    using i Cons.prems(4) eq
    by (auto simp: field_key_in_def field_ok_def and_then_Inr_iff split: option.splits)
qed simp

lemma validate_object_intro:
  assumes "object_ok rec v m pos sz l data_size ks rs" "validate_ranges_cover_data rs data_size = Inr ()"
  shows "validate_object rec v m pos = Inr sz"
proof -
  have "object_loop rec v m l data_size None [] [0..<ol_size l] = Inr ([] @ rs)"
    using assms(1) by (intro object_loop_intro [of ks]) (auto simp: object_ok_def)
  then show ?thesis
    using assms unfolding validate_object_def object_ok_def
    by (simp add: checked_add_usize_def mult.commute)
qed


lemma object_ok_transfer:
  assumes w: "same_window v p v' p' sz" and ok: "object_ok rec v m p sz l data_size ks rs"
    and rec: "\<And>k n. k + n \<le> sz \<Longrightarrow> rec (p + k) = Inr n \<Longrightarrow> rec' (p' + k) = Inr n"
  shows "object_ok rec' v' m p' sz (object_layout_of (v ! p) (ol_size l) p') data_size ks rs"
proof -
  obtain n where p: "p < length v" "basic_type (v ! p) = 2"
    and size: "read_unsigned v (p + 1) (object_size_bytes (v ! p)) = Inr n"
    and l: "l = object_layout_of (v ! p) n p"
    using ok by (auto simp: object_ok_def object_layout_Inr)
  let ?b = "v ! p"
  let ?l' = "object_layout_of ?b n p'"
  note shift = object_layout_of_simps [of ?b n]
  have sz: "sz = obj_data ?b n + data_size"
    using ok by (simp add: object_ok_def l shift)
  then have pos: "0 < sz" by (simp add: rel_defs)
  note head = same_window_head [OF w pos]
  have rd: "read_unsigned v' (p' + k) j = read_unsigned v (p + k) j" if "k + j \<le> obj_data ?b n" for k j
    using that sz by (intro same_window_unsigned [OF w]) simp
  have ids: "obj_ids ?b + object_id_size ?b * i + object_id_size ?b \<le> obj_data ?b n" if "i < n" for i
    using slot_le [OF that, of "object_id_size ?b"] by (simp add: rel_defs)
  have offs: "obj_offs ?b n + header_offset_size ?b * i + header_offset_size ?b \<le> obj_data ?b n"
    if "i \<le> n" for i
    using slot_le [of i "Suc n" "header_offset_size ?b"] that by (simp add: rel_defs)
  have "object_layout v' p' = Inr ?l'"
    using p head size rd [of 1 "object_size_bytes ?b"] w sz
    by (auto simp: object_layout_Inr shift same_window_def rel_defs)
  moreover have "field_key_in v' m ?l' i = field_key_in v m l i" if "i < n" for i
    using rd [OF ids [OF that]] by (simp add: field_key_in_def l shift add.assoc)
  moreover have "field_ok rec' v' ?l' data_size i rg" if "i < n" "field_ok rec v l data_size i rg" for i rg
    using that(2) rd [OF offs [of i]] that(1) rec [of "obj_data ?b n + fst rg" "snd rg - fst rg"] w
    by (auto simp: field_ok_def l shift add.assoc sz same_window_def)
  moreover have "read_unsigned v' (ol_offset_start ?l' + n * header_offset_size ?b) (header_offset_size ?b)
      = Inr data_size"
    using ok rd [OF offs [of n]] by (simp add: object_ok_def l shift add.assoc mult.commute)
  ultimately show ?thesis
    using ok w by (simp add: object_ok_def l shift sz same_window_def)
qed

lemma validate_child_value_transfer:
  assumes "validate_child_value rec ds data_size off nxt = Inr ()"
    and "\<And>n. off + n \<le> data_size \<Longrightarrow> rec (ds + off) = Inr n \<Longrightarrow> rec' (ds' + off) = Inr n"
    and "ds' + data_size < 2 ^ 64"
  shows "validate_child_value rec' ds' data_size off nxt = Inr ()"
proof -
  have *: "off \<le> nxt" "nxt \<le> data_size" "rec (ds + off) = Inr (nxt - off)"
    using validate_child_value_Inr [OF assms(1)] by auto
  then have "rec' (ds' + off) = Inr (nxt - off)" using assms(2) [of "nxt - off"] by simp
  then show ?thesis using * assms(3) by (simp add: validate_child_value_def checked_add_usize_def)
qed

lemma array_loop_transfer:
  assumes "array_loop rec v l data_size prev is = Inr out"
    and "\<And>i. i \<in> set is \<union> Suc ` set is \<Longrightarrow>
      read_unsigned v' (al_offset_start l' + al_offset_size l' * i) (al_offset_size l')
      = read_unsigned v (al_offset_start l + al_offset_size l * i) (al_offset_size l)"
    and "\<And>off n. off + n \<le> data_size \<Longrightarrow> rec (al_data_start l + off) = Inr n \<Longrightarrow>
      rec' (al_data_start l' + off) = Inr n"
    and "al_data_start l' + data_size < 2 ^ 64"
  shows "array_loop rec' v' l' data_size prev is = Inr out"
  using assms(1,2)
proof (induction "is" arbitrary: prev)
  case (Cons i "is")
  from Cons.prems(1) obtain off nxt prev' where
      "read_unsigned v (al_offset_start l + al_offset_size l * i) (al_offset_size l) = Inr off"
      "read_unsigned v (al_offset_start l + al_offset_size l * (i + 1)) (al_offset_size l) = Inr nxt"
      "validate_child_value rec (al_data_start l) data_size off nxt = Inr ()"
      "validate_offset_order prev off nxt data_size = Inr prev'"
      "array_loop rec v l data_size prev' is = Inr out"
    unfolding array_loop.simps and_then_Inr_iff by auto
  moreover from this(3) have "validate_child_value rec' (al_data_start l') data_size off nxt = Inr ()"
    by (rule validate_child_value_transfer) (use assms(3,4) in auto)
  ultimately show ?case
    using Cons.IH [of prev'] Cons.prems(2) [of i] Cons.prems(2) [of "Suc i"] Cons.prems(2)
    by (simp del: mult_Suc_right)
qed simp

lemma validate_array_transfer:
  assumes w: "same_window v p v' p' sz" and ok: "array_ok rec v p sz l data_size"
    and loop: "array_loop rec v l data_size 0 [0..<al_size l] = Inr out" "out \<le> data_size"
    and rec: "\<And>k n. k + n \<le> sz \<Longrightarrow> rec (p + k) = Inr n \<Longrightarrow> rec' (p' + k) = Inr n"
  shows "validate_array rec' v' p' = Inr sz"
proof -
  obtain n where p: "p < length v" "basic_type (v ! p) = 3"
    and size: "read_unsigned v (p + 1) (array_size_bytes (v ! p)) = Inr n"
    and l: "l = array_layout_of (v ! p) n p"
    using ok by (auto simp: array_ok_def array_layout_Inr)
  let ?b = "v ! p"
  let ?l' = "array_layout_of ?b n p'"
  note shift = array_layout_of_simps [of ?b n]
  have sz: "sz = arr_data ?b n + data_size"
    using ok by (simp add: array_ok_def l shift)
  then have pos: "0 < sz" by (simp add: rel_defs)
  note head = same_window_head [OF w pos]
  have rd: "read_unsigned v' (p' + k) j = read_unsigned v (p + k) j" if "k + j \<le> arr_data ?b n" for k j
    using that sz by (intro same_window_unsigned [OF w]) simp
  have offs: "arr_offs ?b + header_offset_size ?b * i + header_offset_size ?b \<le> arr_data ?b n"
    if "i \<le> n" for i
    using slot_le [of i "Suc n" "header_offset_size ?b"] that by (simp add: rel_defs)
  have "array_layout v' p' = Inr ?l'"
    using p head size rd [of 1 "array_size_bytes ?b"] w sz
    by (auto simp: array_layout_Inr shift same_window_def rel_defs)
  moreover have "read_unsigned v' (al_offset_start ?l' + header_offset_size ?b * n) (header_offset_size ?b)
      = Inr data_size"
    using ok rd [OF offs [of n]] by (simp add: array_ok_def l shift add.assoc mult.commute)
  moreover have "array_loop rec' v' ?l' data_size 0 [0..<n] = Inr out"
    using loop(1) [unfolded l shift(1)]
  proof (rule array_loop_transfer)
    show "read_unsigned v' (al_offset_start ?l' + al_offset_size ?l' * i) (al_offset_size ?l') =
        read_unsigned v (al_offset_start (array_layout_of ?b n p) + al_offset_size (array_layout_of ?b n p) * i)
          (al_offset_size (array_layout_of ?b n p))"
      if "i \<in> set [0..<n] \<union> Suc ` set [0..<n]" for i
      using rd [OF offs [of i]] that by (auto simp: shift add.assoc)
    show "rec' (al_data_start ?l' + off) = Inr k"
      if "off + k \<le> data_size" "rec (al_data_start (array_layout_of ?b n p) + off) = Inr k" for off k
      using rec [of "arr_data ?b n + off" k] that by (simp add: shift add.assoc sz)
  qed (use w sz in \<open>simp add: shift same_window_def add.assoc\<close>)
  ultimately show ?thesis
    using w sz loop(2)
    by (simp add: validate_array_def shift checked_add_usize_def same_window_def mult.commute)
qed


section \<open>Validation does not depend on the position\<close>

lemma validate_scalar_transfer:
  assumes "validate_value v m p d = Inr s" "value_kind v p = Inr k" "k \<noteq> KObject" "k \<noteq> KArray"
    and w: "same_window v p v' p' s" and "d' \<le> d"
  shows "validate_value v' m p' d' = Inr s"
proof -
  note b = validate_value_bounds [OF assms(1)]
  have bt: "basic_type (v ! p) \<noteq> 2" "basic_type (v ! p) \<noteq> 3"
    using value_kind_basic [OF assms(2)] assms(3,4) by auto
  have kind: "value_kind v' p' = Inr k" using same_window_kind [OF w] b assms(2) by simp
  have sz: "value_size v' p' = Inr s" using b bt by (intro same_window_value_size [OF w]) auto
  have range: "check_range v' p' s = Inr ()" using w by (auto simp: check_range_Inr same_window_def)
  have dec: "get_decimal v' p' = get_decimal v p" if "k = KDecimal"
    using that assms(2) b basic_type_range [of "v ! p"]
    by (intro same_window_decimal [OF w])
      (auto simp: value_kind_def and_then_Inr_iff Let_def split: if_splits)
  note getters = same_window_boolean [OF w] same_window_long [OF w] same_window_double [OF w]
    same_window_float [OF w] same_window_uuid [OF w] same_window_binary [OF w]
    same_window_string [OF w]
  have "d \<le> 1000" "d' \<le> 1000"
    using assms(1,6) by (auto simp: validate_value.simps [of v m p d] split: if_splits)
  then show ?thesis
    using assms(1-4) b sz range dec getters kind
    unfolding validate_value.simps [of v m p d] validate_value.simps [of v' m p' d']
    by (cases k) (auto simp: validate_scalar_def validate_sized_value_def and_then_Inr_iff)
qed

lemma validate_value_transfer:
  assumes "validate_value v m p d = Inr s" "same_window v p v' p' s" "d' \<le> d"
  shows "validate_value v' m p' d' = Inr s"
  using assms
proof (induction "1001 - d" arbitrary: p p' d d' s rule: less_induct)
  case less
  have d: "d \<le> 1000" "d' \<le> 1000"
    using less.prems(1,3) by (auto simp: validate_value.simps [of v m p d] split: if_splits)
  note b = validate_value_bounds [OF less.prems(1)]
  have kind: "value_kind v' p' = value_kind v p" using same_window_kind [OF less.prems(2)] b by simp
  have rec: "validate_value v' m (p' + k) (d' + 1) = Inr n"
    if "k + n \<le> s" "validate_value v m (p + k) (d + 1) = Inr n" for k n
    using that d less.prems(3) same_window_sub [OF less.prems(2) that(1)]
    by (intro less.hyps [of "d + 1"]) auto
  from less.prems(1) show ?case
  proof (cases rule: validate_value_Inr)
    case (obj l data_size ks rs)
    have "object_ok (\<lambda>q. validate_value v' m q (d' + 1)) v' m p' s
        (object_layout_of (v ! p) (ol_size l) p') data_size ks rs"
      by (rule object_ok_transfer [OF less.prems(2) obj(2)]) (rule rec)
    then have "validate_object (\<lambda>q. validate_value v' m q (d' + 1)) v' m p' = Inr s"
      using obj(3) by (rule validate_object_intro)
    then show ?thesis using d kind obj(1) by (simp add: validate_value.simps [of v' m p' d'])
  next
    case (arr l data_size out)
    have "validate_array (\<lambda>q. validate_value v' m q (d' + 1)) v' p' = Inr s"
      by (rule validate_array_transfer [OF less.prems(2) arr(2-4)]) (rule rec)
    then show ?thesis using d kind arr(1) by (simp add: validate_value.simps [of v' m p' d'])
  next
    case (scalar k)
    show ?thesis by (rule validate_scalar_transfer [OF less.prems(1) scalar(1-3) less.prems(2,3)])
  qed
qed

lemma value_slice_valid:
  assumes "valid_ref c d sz"
  shows "value_slice c = Inr (slice_of (vr_value c) (vr_pos c) sz)"
    and "validate_value (slice_of (vr_value c) (vr_pos c) sz) (vr_metadata c) 0 0 = Inr sz"
proof -
  note b = validate_value_bounds [OF assms]
  show "value_slice c = Inr (slice_of (vr_value c) (vr_pos c) sz)"
    using b by (auto simp: value_slice_def check_index_Inr and_then_Inr_iff)
  have "same_window (vr_value c) (vr_pos c) (slice_of (vr_value c) (vr_pos c) sz) 0 sz"
    using b by (auto simp: same_window_def slice_of_def)
  then show "validate_value (slice_of (vr_value c) (vr_pos c) sz) (vr_metadata c) 0 0 = Inr sz"
    by (rule validate_value_transfer [OF assms]) simp
qed

lemma validate_payload_root:
  assumes "validate_payload v m = Inr ()"
  shows "variant_new v m 0 = Inr \<lparr>vr_value = v, vr_metadata = m, vr_pos = 0\<rparr> \<and>
    validate_value v m 0 0 = Inr (length v)"
proof -
  have root: "validate_value v m 0 0 = Inr (length v)"
    using assms by (auto simp: validate_payload_def and_then_Inr_iff split: if_splits)
  then have "0 < length v" using validate_value_bounds by blast
  then show ?thesis using root assms by (simp add: variant_new_def variant_new_at_def check_index_def)
qed

lemma validate_payload_slice:
  assumes "validate_payload v m = Inr ()" "bs = slice_of v p sz" "p + sz \<le> length v"
    and "validate_value bs m 0 0 = Inr sz"
  shows "validate_payload bs m = Inr ()"
proof -
  have "length bs = sz" using assms(2,3) by (simp add: slice_of_def)
  then show ?thesis using assms by (auto simp: validate_payload_def and_then_Inr_iff split: if_splits)
qed

section \<open>Accepted Variants\<close>

text \<open>The Variant \<^verbatim>\<open>{"a": 5}\<close>.\<close>

definition sample_metadata :: bytes where "sample_metadata = [0x01, 1, 0, 1, 0x61]"
definition sample_value :: bytes where "sample_value = [2, 1, 0, 0, 2, 12, 5]"

lemmas variant_eval = check_index_def check_range_def checked_add_usize_def read_unsigned_def
  read_signed_def slice_of_def basic_type_def type_info_def value_kind_def object_layout_def
  object_size_bytes_def object_id_size_def header_offset_size_def validate_payload_def
  validate_metadata_def metadata_offset_size_def str_from_utf8_def from_utf8.simps utf8_next_def
  ok_or_def validate_object_def get_metadata_key_def validate_child_range_def
  validate_ranges_cover_data_def validate_scalar_def get_long_def value_size_def
  validate_sized_value_def sample_metadata_def sample_value_def

lemma sample_meta: "validate_metadata sample_metadata = Inr ()"
  by (simp add: variant_eval)
lemma sample_child: "validate_value [2, 1, 0, 0, 2, 12, 5] [0x01, 1, 0, 1, 0x61] (Suc (Suc (Suc (Suc (Suc 0))))) (Suc 0) = Inr 2"
  by (simp add: validate_value.simps [of _ _ "Suc (Suc (Suc (Suc (Suc 0))))" "Suc 0"] variant_eval)

lemma sample_root: "validate_value sample_value sample_metadata 0 0 = Inr 7"
  by (simp add: validate_value.simps [of _ _ 0 0] variant_eval sample_child)

lemma sample_payload: "validate_payload sample_value sample_metadata = Inr ()"
  using sample_root sample_meta by (simp add: validate_payload_def sample_value_def sample_metadata_def)

lemma sample_from_parts: "from_parts sample_value sample_metadata
    = Inr \<lparr>gv_value = sample_value, gv_metadata = sample_metadata\<rparr>"
  using validate_payload_root [OF sample_payload] by (simp add: from_parts_def)

text \<open>
  C6. Once a Variant has been accepted by \<^verbatim>\<open>GenericVariant::from_parts\<close>, no path lookup in it fails:
  \<^verbatim>\<open>get_path_segments\<close> returns \<^verbatim>\<open>Ok\<close> for every path, and when it finds a sub-value, \<^verbatim>\<open>to_owned_variant\<close>
  succeeds on it and the Variant it cuts out is accepted by \<^verbatim>\<open>from_parts\<close> in turn.
\<close>

theorem variant_paths_safe:
  assumes "from_parts v m = Inr g" and "list_all valid_segment segs"
  shows "\<exists>r res. variant_new v m 0 = Inr r \<and> get_path_segments r segs = Inr res \<and>
    (\<forall>c. res = Some c \<longrightarrow> (\<exists>sub. to_owned_variant c = Inr sub \<and>
      from_parts (gv_value sub) (gv_metadata sub) = Inr sub))"
proof -
  have payload: "validate_payload v m = Inr ()"
    using assms(1) by (auto simp: from_parts_def variant_new_def and_then_Inr_iff)
  let ?r = "\<lparr>vr_value = v, vr_metadata = m, vr_pos = 0\<rparr>"
  have root: "variant_new v m 0 = Inr ?r" "valid_ref ?r 0 (length v)"
    using validate_payload_root [OF payload] by simp_all
  obtain res where res: "get_path_segments ?r segs = Inr res"
    "\<forall>c. res = Some c \<longrightarrow> (\<exists>d sz. valid_ref c d sz) \<and> vr_value c = v \<and> vr_metadata c = m"
    using get_path_segments_valid [OF root(2) assms(2)] by auto
  have "\<exists>sub. to_owned_variant c = Inr sub \<and> from_parts (gv_value sub) (gv_metadata sub) = Inr sub"
    if found: "res = Some c" for c
  proof -
    obtain d sz where c: "valid_ref c d sz" "vr_value c = v" "vr_metadata c = m"
      using res(2) found by blast
    let ?bs = "slice_of v (vr_pos c) sz"
    have "validate_payload ?bs m = Inr ()"
      using validate_value_bounds [OF c(1)] value_slice_valid(2) [OF c(1)] c(2,3)
      by (intro validate_payload_slice [OF payload refl]) auto
    then show ?thesis
      using validate_payload_root [of ?bs m] value_slice_valid(1) [OF c(1)] c(2,3)
      by (simp add: to_owned_variant_def from_parts_def)
  qed
  then show ?thesis using root(1) res(1) by blast
qed

theorem variant_paths_safe_witness:
  "\<exists>r c sub. variant_new sample_value sample_metadata 0 = Inr r \<and>
     get_path_segments r [PathKey [0x61]] = Inr (Some c) \<and> get_long (vr_value c) (vr_pos c) = Inr 5 \<and>
     to_owned_variant c = Inr sub \<and> from_parts (gv_value sub) (gv_metadata sub) = Inr sub"
proof -
  have new: "variant_new sample_value sample_metadata 0
      = Inr \<lparr>vr_value = sample_value, vr_metadata = sample_metadata, vr_pos = 0\<rparr>"
    using validate_payload_root [OF sample_payload] by simp
  moreover have get: "get_path_segments \<lparr>vr_value = sample_value, vr_metadata = sample_metadata, vr_pos = 0\<rparr>
      [PathKey [0x61]] = Inr (Some \<lparr>vr_value = sample_value, vr_metadata = sample_metadata, vr_pos = 5\<rparr>)"
    by (simp add: variant_kind_of_def get_field_by_key_def field_key_def field_at_def variant_new_at_def
        variant_eval)
  moreover have "get_long sample_value 5 = Inr 5"
    by (simp add: variant_eval wrap_signed_def)
  ultimately show ?thesis
    using variant_paths_safe [OF sample_from_parts, of "[PathKey [0x61]]"]
    by (fastforce simp: valid_segment_def is_scalar_def)
qed

text \<open>
  C7. Field lookup by binary search, used for objects of 32 fields and more, returns exactly what the
  linear scan over all fields returns, at every object of an accepted Variant: validation has checked
  that the keys of every object are in strictly increasing order.
\<close>

theorem field_lookup_is_linear_scan:
  assumes "from_parts v m = Inr g" and "variant_new v m 0 = Inr r"
    and "list_all valid_segment segs" "get_path_segments r segs = Inr (Some c)"
    and "variant_kind_of c = Inr KObject" "valid_rstring key"
  shows "\<exists>l. object_layout (vr_value c) (vr_pos c) = Inr l \<and>
    get_field_by_key c key = linear_search c l key [0..<ol_size l]"
proof -
  have "validate_payload v m = Inr ()"
    using assms(1) by (auto simp: from_parts_def variant_new_def and_then_Inr_iff)
  then have root: "valid_ref r 0 (length v)"
    using validate_payload_root assms(2) by auto
  obtain res where "get_path_segments r segs = Inr res" "\<forall>c. res = Some c \<longrightarrow> (\<exists>d sz. valid_ref c d sz)"
    using get_path_segments_valid [OF root assms(3)] by blast
  then obtain d sz where "valid_ref c d sz" using assms(4) by auto
  then show ?thesis
  proof (cases rule: validate_value_Inr)
    case (obj l data_size ks rs)
    show ?thesis
      using get_field_by_key_linear [OF obj(2) assms(6)] obj(2) by (auto simp: object_ok_def)
  qed (use assms(5) in \<open>simp_all add: variant_kind_of_def\<close>)
qed

theorem field_lookup_is_linear_scan_witness:
  "\<exists>r l. variant_new sample_value sample_metadata 0 = Inr r \<and> object_layout (vr_value r) (vr_pos r) = Inr l \<and>
    ol_size l = 1 \<and> get_field_by_key r [0x61] = linear_search r l [0x61] [0..<1]"
proof -
  let ?r = "\<lparr>vr_value = sample_value, vr_metadata = sample_metadata, vr_pos = 0\<rparr>"
  have new: "variant_new sample_value sample_metadata 0 = Inr ?r"
    using validate_payload_root [OF sample_payload] by simp
  have "variant_kind_of ?r = Inr KObject" by (simp add: variant_kind_of_def variant_eval)
  then obtain l where "object_layout (vr_value ?r) (vr_pos ?r) = Inr l"
    "get_field_by_key ?r [0x61] = linear_search ?r l [0x61] [0..<ol_size l]"
    using field_lookup_is_linear_scan [OF sample_from_parts new, of "[]" ?r "[0x61]"]
    by (auto simp: is_scalar_def)
  moreover have "ol_size l = 1" using calculation(1) by (auto simp: variant_eval)
  ultimately show ?thesis using new by auto
qed

end
