(* ===== verification/Row_Ranges.thy ===== *)
theory Row_Ranges
  imports Data_Model
begin

text \<open>
  \<^verbatim>\<open>RowRange\<close> and its set operations from \<^verbatim>\<open>table/source.rs\<close>, and the row-position selection of
  \<^verbatim>\<open>table/row_position_selection.rs\<close> on stable row ids. A list of inclusive ranges denotes the set
  \<open>rows_of\<close> of row ids; a \<open>gapped\<close> list consists of non-empty ranges, sorted with at least one missing row
  between two of them, which is the normal form every operation returns. Bounds are \<^verbatim>\<open>i64\<close>, positions
  \<^verbatim>\<open>u64\<close>. \<^verbatim>\<open>RowRange::new\<close> asserts that a range is not inverted, so that every operation that makes a range is
  fallible here, and its correctness includes that the assertion never fails.
\<close>

section \<open>Ranges\<close>

record row_range =
  rr_from :: int
  rr_to :: int

definition row_range_new :: "int \<Rightarrow> int \<Rightarrow> row_range result" where
  "row_range_new from to =
     (if from \<le> to then Inr \<lparr>rr_from = from, rr_to = to\<rparr>
      else Inl (Panic ''RowRange from must be <= to''))"

text \<open>\<^verbatim>\<open>if c { result.push(RowRange::new(from, to)) }\<close>, as the list of what is pushed.\<close>

definition push_if :: "bool \<Rightarrow> int \<Rightarrow> int \<Rightarrow> row_range list result" where
  "push_if c from to = (if c then and_then (row_range_new from to) (\<lambda>r. Inr [r]) else Inr [])"

definition rr_count :: "row_range \<Rightarrow> int" where
  "rr_count r = i64_add (i64_sub (rr_to r) (rr_from r)) 1"

definition overlaps_inclusive :: "row_range \<Rightarrow> int \<Rightarrow> int \<Rightarrow> bool" where
  "overlaps_inclusive r file_start file_end \<longleftrightarrow> rr_from r \<le> file_end \<and> rr_to r \<ge> file_start"

definition intersect_inclusive :: "row_range \<Rightarrow> int \<Rightarrow> int \<Rightarrow> row_range option result" where
  "intersect_inclusive r file_start file_end =
     (let from = max (rr_from r) file_start; to = min (rr_to r) file_end in
      if from \<le> to then and_then (row_range_new from to) (\<lambda>x. Inr (Some x)) else Inr None)"

definition any_range_overlaps_file :: "row_range list \<Rightarrow> data_file_meta \<Rightarrow> bool" where
  "any_range_overlaps_file ranges f =
     (case row_id_range f of
        None \<Rightarrow> True
      | Some (file_start, file_end) \<Rightarrow>
          list_ex (\<lambda>r. overlaps_inclusive r file_start file_end) ranges)"

definition intersect_ranges_with_file :: "row_range list \<Rightarrow> data_file_meta \<Rightarrow> row_range list result" where
  "intersect_ranges_with_file ranges f =
     (case row_id_range f of
        None \<Rightarrow> Inr []
      | Some (file_start, file_end) \<Rightarrow>
          and_then (collect_res (map (\<lambda>r. intersect_inclusive r file_start file_end) ranges))
            (\<lambda>xs. Inr (List.map_filter (\<lambda>x. x) xs)))"

definition saturating_add_i64 :: "int \<Rightarrow> int \<Rightarrow> int" where
  "saturating_add_i64 a b = max i64_min (min i64_max (a + b))"

fun already_merged :: "row_range list \<Rightarrow> bool" where
  "already_merged (a # b # rs) \<longleftrightarrow>
     (case checked_add_i64 (rr_to a) 1 of None \<Rightarrow> False | Some nxt \<Rightarrow> nxt < rr_from b)
     \<and> already_merged (b # rs)"
| "already_merged _ \<longleftrightarrow> True"

fun merge_loop :: "row_range \<Rightarrow> row_range list \<Rightarrow> row_range list" where
  "merge_loop current [] = [current]"
| "merge_loop current (r # rs) =
     (if rr_from r \<le> saturating_add_i64 (rr_to current) 1
      then merge_loop (current\<lparr>rr_to := max (rr_to current) (rr_to r)\<rparr>) rs
      else current # merge_loop r rs)"

definition merge_row_ranges :: "row_range list \<Rightarrow> row_range list" where
  "merge_row_ranges ranges =
     (if length ranges \<le> 1 then ranges
      else if already_merged ranges then ranges
      else case sort_by (\<lambda>a b. cmp (rr_from a) (rr_from b)) ranges of
        [] \<Rightarrow> []
      | current # rs \<Rightarrow> merge_loop current rs)"

fun cut_loop :: "row_range \<Rightarrow> int \<Rightarrow> row_range list \<Rightarrow> row_range list result" where
  "cut_loop seg cursor [] = push_if (cursor \<le> rr_to seg) cursor (rr_to seg)"
| "cut_loop seg cursor (ct # cts) =
     (if rr_to ct < cursor \<or> rr_from ct > rr_to seg then cut_loop seg cursor cts
      else
        and_then (push_if (rr_from ct > cursor) cursor (i64_sub (rr_from ct) 1)) (\<lambda>gap.
          and_then (if rr_to ct \<ge> rr_to seg then Inr []
                    else cut_loop seg (max cursor (i64_add (rr_to ct) 1)) cts) (\<lambda>rest.
            Inr (gap @ rest))))"

definition exclude_row_ranges :: "row_range list \<Rightarrow> row_range list \<Rightarrow> row_range list result" where
  "exclude_row_ranges base subtract =
     (let base = merge_row_ranges base; subtract = merge_row_ranges subtract in
      and_then (collect_res (map (\<lambda>seg. cut_loop seg (rr_from seg) subtract) base)) (\<lambda>parts.
        Inr (concat parts)))"

fun intersect_ranges_loop :: "row_range list \<Rightarrow> row_range list \<Rightarrow> row_range list result" where
  "intersect_ranges_loop (a # as) (b # bs) =
     and_then (intersect_inclusive a (rr_from b) (rr_to b)) (\<lambda>x.
       and_then (if rr_to a \<le> rr_to b then intersect_ranges_loop as (b # bs) else intersect_ranges_loop (a # as) bs)
         (\<lambda>rest. Inr (case x of None \<Rightarrow> rest | Some r \<Rightarrow> r # rest)))"
| "intersect_ranges_loop _ _ = Inr []"

definition intersect_ranges :: "row_range list \<Rightarrow> row_range list \<Rightarrow> row_range list result" where
  "intersect_ranges left right =
     and_then (intersect_ranges_loop (merge_row_ranges left) (merge_row_ranges right)) (\<lambda>rs.
       Inr (merge_row_ranges rs))"

section \<open>Selection of row positions\<close>

datatype row_position_selection = Slice int int | Shard int int

definition selection_slice :: "int \<Rightarrow> int \<Rightarrow> row_position_selection result" where
  "selection_slice start stop =
     (if start \<ge> stop
      then Inl (DataInvalid ''row-position slice start must be less than end'')
      else Inr (Slice start stop))"

definition selection_shard :: "int \<Rightarrow> int \<Rightarrow> row_position_selection result" where
  "selection_shard index cnt =
     (if cnt = 0 \<or> index \<ge> cnt
      then Inl (DataInvalid ''row-position shard count must be positive and index less than count'')
      else Inr (Shard index cnt))"

definition u64_mul :: "int \<Rightarrow> int \<Rightarrow> int" where
  "u64_mul a b = wrap_unsigned 64 (a * b)"

fun selection_bounds :: "row_position_selection \<Rightarrow> int \<Rightarrow> (int \<times> int) result" where
  "selection_bounds (Slice start stop) total_rows = Inr (start, min stop total_rows)"
| "selection_bounds (Shard index cnt) total_rows =
     (if cnt = 0 then Inl (Panic ''attempt to divide by zero'')
      else
        let sz = total_rows div cnt; remainder = total_rows mod cnt;
            start = u64_add (u64_mul index sz) (min index remainder)
        in Inr (start, u64_add (u64_add start sz) (if index < remainder then 1 else 0)))"

definition range_count :: "row_range \<Rightarrow> int" where
  "range_count r = u64_add (rr_to r - rr_from r) 1"

fun take_positions :: "int \<Rightarrow> int \<Rightarrow> int \<Rightarrow> row_range list \<Rightarrow> row_range list result" where
  "take_positions start stop position [] = Inr []"
| "take_positions start stop position (r # rs) =
     (let nxt = u64_add position (range_count r);
          begin_pos = max start position;
          finish = min stop nxt
      in and_then (push_if (begin_pos < finish) (i64_add (rr_from r) (begin_pos - position))
                     (i64_add (rr_from r) (finish - position - 1))) (\<lambda>taken.
           and_then (if nxt \<ge> stop then Inr [] else take_positions start stop nxt rs) (\<lambda>rest.
             Inr (taken @ rest))))"

text \<open>The loop over \<^verbatim>\<open>result\<close> and \<^verbatim>\<open>selected\<close>, which is written out again in \<^verbatim>\<open>intersect_ranges\<close>.\<close>

fun intersect_loop :: "row_range list \<Rightarrow> row_range list \<Rightarrow> row_range list result" where
  "intersect_loop (l # left) (r # right) =
     and_then (intersect_inclusive l (rr_from r) (rr_to r)) (\<lambda>x.
       and_then (if rr_to l \<le> rr_to r then intersect_loop left (r # right) else intersect_loop (l # left) right)
         (\<lambda>rest. Inr (case x of None \<Rightarrow> rest | Some rng \<Rightarrow> rng # rest)))"
| "intersect_loop _ _ = Inr []"

definition select_from_ranges ::
    "row_position_selection \<Rightarrow> row_range list \<Rightarrow> row_range list option \<Rightarrow> row_range list result" where
  "select_from_ranges sel ranges selected_ranges =
     (let ranges = merge_row_ranges ranges;
          total_rows = fold (\<lambda>r acc. u64_add acc (range_count r)) ranges 0
      in and_then (selection_bounds sel total_rows) (\<lambda>(start, stop).
           if start \<ge> stop then Inr []
           else
             and_then (take_positions start stop 0 ranges) (\<lambda>result.
               and_then (case selected_ranges of
                     None \<Rightarrow> Inr result
                   | Some selected \<Rightarrow> intersect_loop result (merge_row_ranges selected)) (\<lambda>result.
                 Inr (merge_row_ranges result)))))"

definition entry_row_range :: "manifest_entry \<Rightarrow> row_range result" where
  "entry_row_range e =
     (case row_id_range (entry_file e) of
        Some (from, to) \<Rightarrow>
          if from \<ge> 0 \<and> to \<ge> from then row_range_new from to
          else Inl (DataInvalid ''Row-position selection requires a valid row-id range'')
      | None \<Rightarrow> Inl (DataInvalid ''Row-position selection requires a valid row-id range''))"

definition selection_select ::
    "row_position_selection \<Rightarrow> manifest_entry list \<Rightarrow> row_range list option \<Rightarrow> row_range list result" where
  "selection_select sel entries selected_ranges =
     and_then (collect_res (map entry_row_range entries)) (\<lambda>ranges.
       select_from_ranges sel ranges selected_ranges)"

section \<open>The set a list of ranges denotes\<close>

definition valid_rr :: "row_range \<Rightarrow> bool" where
  "valid_rr r \<longleftrightarrow> rr_from r \<le> rr_to r \<and> in_i64 (rr_from r) \<and> in_i64 (rr_to r)"

definition rows :: "row_range \<Rightarrow> int set" where "rows r = {rr_from r..rr_to r}"

definition rows_of :: "row_range list \<Rightarrow> int set" where "rows_of rs = \<Union> (rows ` set rs)"

fun gapped :: "row_range list \<Rightarrow> bool" where
  "gapped [] \<longleftrightarrow> True"
| "gapped [a] \<longleftrightarrow> rr_from a \<le> rr_to a"
| "gapped (a # b # rs) \<longleftrightarrow> rr_from a \<le> rr_to a \<and> rr_to a + 1 < rr_from b \<and> gapped (b # rs)"

lemma rows_of_simps [simp]:
  "rows_of [] = {}" "rows_of (r # rs) = rows r \<union> rows_of rs"
  "rows_of (rs @ ss) = rows_of rs \<union> rows_of ss"
  by (auto simp: rows_of_def)

text \<open>The range from one row to another, and when the operations that make it succeed.\<close>

definition span :: "int \<Rightarrow> int \<Rightarrow> row_range" where "span from to = \<lparr>rr_from = from, rr_to = to\<rparr>"

lemma span_simps [simp]:
  "rr_from (span a b) = a" "rr_to (span a b) = b" "rows (span a b) = {a..b}"
  by (simp_all add: span_def rows_def)

lemma row_range_new_ok: "from \<le> to \<Longrightarrow> row_range_new from to = Inr (span from to)"
  by (simp add: row_range_new_def span_def)

lemma push_if_ok: "(c \<Longrightarrow> from \<le> to) \<Longrightarrow> push_if c from to = Inr (if c then [span from to] else [])"
  by (simp add: push_if_def row_range_new_ok)

lemma rows_of_set: "set rs = set ss \<Longrightarrow> rows_of rs = rows_of ss"
  by (simp add: rows_of_def)

section \<open>Merging\<close>

lemma gapped_tl: "gapped (a # rs) \<Longrightarrow> gapped rs"
  by (cases rs) auto

lemma gapped_nonempty: "gapped rs \<Longrightarrow> r \<in> set rs \<Longrightarrow> rr_from r \<le> rr_to r"
  by (induction rs rule: gapped.induct) auto

lemma gapped_above: "gapped (a # rs) \<Longrightarrow> r \<in> set rs \<Longrightarrow> rr_to a + 1 < rr_from r"
proof (induction rs arbitrary: a)
  case (Cons b rs)
  have "rr_to a + 1 < rr_from b" "rr_from b \<le> rr_to b"
    using Cons.prems(1) gapped_nonempty [of "a # b # rs" b] by auto
  then show ?case using Cons by fastforce
qed simp

lemma already_merged_gapped: "already_merged rs \<Longrightarrow> \<forall>r\<in>set rs. valid_rr r \<Longrightarrow> gapped rs"
  by (induction rs rule: gapped.induct)
     (auto simp: checked_add_i64_def valid_rr_def split: option.splits if_splits)

lemma merge_loop_correct:
  assumes "valid_rr cur" "\<forall>r\<in>set rs. valid_rr r \<and> rr_from cur \<le> rr_from r"
    "sorted_wrt (\<lambda>a b. rr_from a \<le> rr_from b) rs"
  shows "rows_of (merge_loop cur rs) = rows cur \<union> rows_of rs
    \<and> (\<forall>r\<in>set (merge_loop cur rs). valid_rr r) \<and> gapped (merge_loop cur rs)
    \<and> merge_loop cur rs \<noteq> [] \<and> rr_from (hd (merge_loop cur rs)) = rr_from cur"
  using assms
proof (induction cur rs rule: merge_loop.induct)
  case (2 cur r rs)
  show ?case
  proof (cases "rr_from r \<le> saturating_add_i64 (rr_to cur) 1")
    case True
    let ?m = "cur\<lparr>rr_to := max (rr_to cur) (rr_to r)\<rparr>"
    have "rr_from r \<le> rr_to cur + 1"
      using True "2.prems" by (auto simp: saturating_add_i64_def valid_rr_def int_range_simps)
    then have "rows ?m = rows cur \<union> rows r"
      using "2.prems" by (auto simp: rows_def valid_rr_def max_def)
    moreover have "valid_rr ?m" using "2.prems" by (auto simp: valid_rr_def max_def)
    ultimately show ?thesis using "2.IH"(1) True "2.prems" by auto
  next
    case False
    obtain m ms where m: "merge_loop r rs = m # ms" "rr_from m = rr_from r"
      using "2.IH"(2) False "2.prems" by (cases "merge_loop r rs") auto
    have "rr_to cur + 1 < rr_from r"
      using False "2.prems" by (auto simp: saturating_add_i64_def valid_rr_def int_range_simps)
    moreover have "rr_from cur \<le> rr_to cur" using "2.prems"(1) by (simp add: valid_rr_def)
    ultimately show ?thesis using "2.IH"(2) False "2.prems" m by auto
  qed
qed (auto simp: rows_def valid_rr_def)

lemma merge_row_ranges_correct:
  assumes "\<forall>r\<in>set rs. valid_rr r"
  shows "rows_of (merge_row_ranges rs) = rows_of rs" "gapped (merge_row_ranges rs)"
    "\<forall>r\<in>set (merge_row_ranges rs). valid_rr r"
proof -
  let ?sorted = "sort_by (\<lambda>a b. cmp (rr_from a) (rr_from b)) rs"
  have *: "rows_of (merge_row_ranges rs) = rows_of rs \<and> gapped (merge_row_ranges rs)
    \<and> (\<forall>r\<in>set (merge_row_ranges rs). valid_rr r)"
  proof (cases "length rs \<le> 1 \<or> already_merged rs")
    case True
    moreover have "gapped rs" if "length rs \<le> 1"
      using that assms by (cases rs rule: gapped.cases) (auto simp: valid_rr_def)
    ultimately show ?thesis using assms already_merged_gapped by (auto simp: merge_row_ranges_def)
  next
    case False
    then obtain c cs where c: "?sorted = c # cs"
      by (metis length_0_conv length_sort_by list.exhaust zero_le_one)
    have set: "set rs = set (c # cs)" using c by (metis set_sort_by)
    have "sorted_wrt (\<lambda>a b. cmp (rr_from a) (rr_from b) \<noteq> Greater) (c # cs)"
      using total_cmp.sorted_sort_by [OF total_cmp_key [of rr_from UNIV], of rs] c by simp
    then have "\<forall>r\<in>set cs. rr_from c \<le> rr_from r" "sorted_wrt (\<lambda>a b. rr_from a \<le> rr_from b) cs"
      by (auto simp: not_less)
    then show ?thesis
      using merge_loop_correct [of c cs] assms set rows_of_set [OF set] False c
      by (simp add: merge_row_ranges_def)
  qed
  then show "rows_of (merge_row_ranges rs) = rows_of rs" "gapped (merge_row_ranges rs)"
    "\<forall>r\<in>set (merge_row_ranges rs). valid_rr r" by auto
qed


section \<open>Exclusion\<close>

lemma gapped_append:
  "gapped xs \<Longrightarrow> gapped ys \<Longrightarrow> (\<And>x y. x \<in> set xs \<Longrightarrow> y \<in> set ys \<Longrightarrow> rr_to x + 1 < rr_from y) \<Longrightarrow>
   gapped (xs @ ys)"
proof (induction xs)
  case (Cons a xs)
  then show ?case by (cases xs; cases ys) auto
qed simp

lemma cut_loop_correct:
  assumes "valid_rr seg" "in_i64 cursor" "cursor \<le> rr_to seg"
    "gapped cts" "\<forall>r\<in>set cts. valid_rr r"
  shows "\<exists>rs. cut_loop seg cursor cts = Inr rs \<and> rows_of rs = {cursor..rr_to seg} - rows_of cts \<and> gapped rs
    \<and> (\<forall>r\<in>set rs. valid_rr r \<and> cursor \<le> rr_from r \<and> rr_to r \<le> rr_to seg)"
  using assms
proof (induction seg cursor cts rule: cut_loop.induct)
  case (1 seg cursor)
  then show ?case by (auto simp: valid_rr_def push_if_ok)
next
  case (2 seg cursor ct cts)
  have above: "\<forall>r\<in>set cts. rr_to ct + 1 < rr_from r" and tl: "gapped cts"
    using "2.prems"(4) gapped_above gapped_tl by blast+
  show ?case
  proof (cases "rr_to ct < cursor \<or> rr_from ct > rr_to seg")
    case True
    then have "rows ct \<inter> {cursor..rr_to seg} = {}" by (auto simp: rows_def)
    then have "{cursor..rr_to seg} - rows_of (ct # cts) = {cursor..rr_to seg} - rows_of cts" by auto
    then show ?thesis using "2.IH"(1) [OF True] "2.prems" tl True by simp
  next
    case out: False
    let ?gap = "if rr_from ct > cursor then [span cursor (rr_from ct - 1)] else []"
    have ct: "rr_from ct \<le> rr_to ct" "in_i64 (rr_from ct)" "in_i64 (rr_to ct)"
      using "2.prems"(5) by (auto simp: valid_rr_def)
    have sub: "i64_sub (rr_from ct) 1 = rr_from ct - 1" if "rr_from ct > cursor"
      using that ct "2.prems"(2) by (auto simp: int_range_simps)
    have push: "push_if (rr_from ct > cursor) cursor (i64_sub (rr_from ct) 1) = Inr ?gap"
      using sub by (subst push_if_ok) auto
    have gap: "rows_of ?gap = {cursor..<rr_from ct}" "gapped ?gap" "\<forall>r\<in>set ?gap. valid_rr r \<and> cursor \<le> rr_from r
        \<and> rr_to r \<le> rr_to seg \<and> rr_to r < rr_from ct"
      using "2.prems"(2,3) ct out by (auto simp: valid_rr_def int_range_simps)
    show ?thesis
    proof (cases "rr_to ct \<ge> rr_to seg")
      case True
      have "rows_of cts \<inter> {cursor..rr_to seg} = {}"
        using above True by (fastforce simp: rows_of_def rows_def)
      then have "{cursor..<rr_from ct} = {cursor..rr_to seg} - rows_of (ct # cts)"
        using True out ct by (auto simp: rows_def)
      moreover have "cut_loop seg cursor (ct # cts) = Inr ?gap" using push True out by simp
      ultimately show ?thesis using gap by (intro exI [of _ ?gap]) blast
    next
      case False
      have add: "i64_add (rr_to ct) 1 = rr_to ct + 1" "max cursor (rr_to ct + 1) = rr_to ct + 1"
        using False out ct "2.prems"(1) by (auto simp: valid_rr_def int_range_simps)
      have "in_i64 (rr_to ct + 1)"
        using False ct "2.prems"(1) by (auto simp: valid_rr_def int_range_simps)
      then obtain rest where rest: "cut_loop seg (rr_to ct + 1) cts = Inr rest"
        "rows_of rest = {rr_to ct + 1..rr_to seg} - rows_of cts" "gapped rest"
        "\<forall>r\<in>set rest. valid_rr r \<and> rr_to ct + 1 \<le> rr_from r \<and> rr_to r \<le> rr_to seg"
        using "2.IH"(2) [OF out False, unfolded add] "2.prems"(1,5) tl False by auto
      have "rows_of cts \<inter> {..rr_to ct} = {}"
        using above by (fastforce simp: rows_of_def rows_def)
      then have "rows_of (?gap @ rest) = {cursor..rr_to seg} - rows_of (ct # cts)"
        unfolding rows_of_simps(3) gap(1) rest(2) using ct out False by (auto simp: rows_def)
      moreover have "gapped (?gap @ rest)"
        using rest(3,4) gap(2,3) ct by (intro gapped_append) fastforce+
      moreover have "cut_loop seg cursor (ct # cts) = Inr (?gap @ rest)"
        using push rest(1) out False by (simp add: add)
      moreover have "\<forall>r\<in>set (?gap @ rest). valid_rr r \<and> cursor \<le> rr_from r \<and> rr_to r \<le> rr_to seg"
        using gap(3) rest(4) out by auto
      ultimately show ?thesis by blast
    qed
  qed
qed

lemma exclude_segments:
  assumes "gapped base" "\<forall>r\<in>set base. valid_rr r" "gapped cts" "\<forall>r\<in>set cts. valid_rr r"
  shows "\<exists>parts. collect_res (map (\<lambda>seg. cut_loop seg (rr_from seg) cts) base) = Inr parts
    \<and> rows_of (concat parts) = rows_of base - rows_of cts \<and> gapped (concat parts)
    \<and> (\<forall>r\<in>set (concat parts). valid_rr r \<and> (\<exists>b\<in>set base. rr_from b \<le> rr_from r \<and> rr_to r \<le> rr_to b))"
  using assms(1,2)
proof (induction base)
  case (Cons b base)
  have b: "valid_rr b" "in_i64 (rr_from b)" "rr_from b \<le> rr_to b" and v: "\<forall>r\<in>set base. valid_rr r"
    using Cons.prems(2) by (auto simp: valid_rr_def)
  obtain rs where rs: "cut_loop b (rr_from b) cts = Inr rs" "rows_of rs = rows b - rows_of cts" "gapped rs"
    "\<forall>r\<in>set rs. valid_rr r \<and> rr_from b \<le> rr_from r \<and> rr_to r \<le> rr_to b"
    using cut_loop_correct [OF b assms(3,4)] unfolding rows_def by blast
  obtain parts where parts: "collect_res (map (\<lambda>seg. cut_loop seg (rr_from seg) cts) base) = Inr parts"
    "rows_of (concat parts) = rows_of base - rows_of cts" "gapped (concat parts)"
    "\<forall>r\<in>set (concat parts). valid_rr r \<and> (\<exists>b\<in>set base. rr_from b \<le> rr_from r \<and> rr_to r \<le> rr_to b)"
    using Cons.IH [OF gapped_tl [OF Cons.prems(1)] v] by blast
  have "gapped (rs @ concat parts)"
  proof (rule gapped_append [OF rs(3) parts(3)])
    fix x y assume x: "x \<in> set rs" and y: "y \<in> set (concat parts)"
    obtain c where "c \<in> set base" "rr_from c \<le> rr_from y" using parts(4) y by blast
    moreover have "rr_to x \<le> rr_to b" using rs(4) x by blast
    ultimately show "rr_to x + 1 < rr_from y" using gapped_above [OF Cons.prems(1)] by fastforce
  qed
  moreover have "rows_of (concat (rs # parts)) = rows_of (b # base) - rows_of cts" using rs(2) parts(2) by auto
  moreover have "\<forall>r\<in>set (concat (rs # parts)). valid_rr r
      \<and> (\<exists>x\<in>set (b # base). rr_from x \<le> rr_from r \<and> rr_to r \<le> rr_to x)"
    using rs(4) parts(4) by fastforce
  ultimately show ?case using rs(1) parts(1) by (intro exI [of _ "rs # parts"]) simp
qed simp

lemma exclude_row_ranges_correct:
  assumes "\<forall>r\<in>set base. valid_rr r" "\<forall>r\<in>set subtract. valid_rr r"
  shows "\<exists>rs. exclude_row_ranges base subtract = Inr rs \<and> rows_of rs = rows_of base - rows_of subtract
    \<and> gapped rs \<and> (\<forall>r\<in>set rs. valid_rr r)"
proof -
  note b = merge_row_ranges_correct [OF assms(1)] and c = merge_row_ranges_correct [OF assms(2)]
  obtain parts where "collect_res (map (\<lambda>seg. cut_loop seg (rr_from seg) (merge_row_ranges subtract)) (merge_row_ranges base))
      = Inr parts" "rows_of (concat parts) = rows_of base - rows_of subtract" "gapped (concat parts)"
    "\<forall>r\<in>set (concat parts). valid_rr r"
    using exclude_segments [OF b(2,3) c(2,3)] unfolding b(1) c(1) by blast
  then show ?thesis by (simp add: exclude_row_ranges_def)
qed

section \<open>Intersection\<close>

lemma intersect_inclusive_ok:
  "\<exists>x. intersect_inclusive r a b = Inr x \<and> rows_of (case x of None \<Rightarrow> [] | Some s \<Rightarrow> [s]) = rows r \<inter> {a..b}
     \<and> (\<forall>s. x = Some s \<longrightarrow> s = span (max (rr_from r) a) (min (rr_to r) b) \<and> rr_from s \<le> rr_to s)"
  by (auto simp: intersect_inclusive_def Let_def row_range_new_ok rows_def)

lemma rows_disjoint_above:
  assumes "gapped (b # bs)" "rr_to a \<le> rr_to b"
  shows "rows a \<inter> rows_of bs = {}"
proof -
  have "\<forall>r\<in>set bs. rr_to b + 1 < rr_from r" using gapped_above assms(1) by blast
  then show ?thesis using assms(2) by (fastforce simp: rows_of_def rows_def)
qed

lemma intersect_loop_correct:
  assumes "gapped as" "gapped bs" "\<forall>r\<in>set as \<union> set bs. valid_rr r"
  shows "\<exists>rs. intersect_loop as bs = Inr rs \<and> rows_of rs = rows_of as \<inter> rows_of bs \<and> (\<forall>r\<in>set rs. valid_rr r)"
  using assms
proof (induction as bs rule: intersect_loop.induct)
  case (1 a as b bs)
  obtain x where x: "intersect_inclusive a (rr_from b) (rr_to b) = Inr x"
    "rows_of (case x of None \<Rightarrow> [] | Some s \<Rightarrow> [s]) = rows a \<inter> rows b"
    "\<forall>s. x = Some s \<longrightarrow> s = span (max (rr_from a) (rr_from b)) (min (rr_to a) (rr_to b)) \<and> rr_from s \<le> rr_to s"
    using intersect_inclusive_ok [of a "rr_from b" "rr_to b"] unfolding rows_def [of b] by blast
  have valid: "valid_rr s" if "x = Some s" for s
    using x(3) that "1.prems"(3) by (auto simp: valid_rr_def max_def min_def)
  have tails: "gapped as" "gapped bs" using "1.prems"(1,2) gapped_tl by blast+
  obtain rest where rest: "(if rr_to a \<le> rr_to b then intersect_loop as (b # bs) else intersect_loop (a # as) bs) = Inr rest"
    "\<forall>r\<in>set rest. valid_rr r" "rows_of rest \<union> rows a \<inter> rows b = rows_of (a # as) \<inter> rows_of (b # bs)"
  proof (cases "rr_to a \<le> rr_to b")
    case True
    have "rows a \<inter> rows_of bs = {}" using rows_disjoint_above [OF "1.prems"(2) True] .
    then show ?thesis using that "1.IH"(1) [OF True] "1.prems" tails True by fastforce
  next
    case False
    have "rows b \<inter> rows_of as = {}" using rows_disjoint_above [OF "1.prems"(1), of b] False by simp
    then show ?thesis using that "1.IH"(2) [OF False] "1.prems" tails False by fastforce
  qed
  have "rows_of (case x of None \<Rightarrow> rest | Some r \<Rightarrow> r # rest) = rows_of (a # as) \<inter> rows_of (b # bs)"
    using x(2) unfolding rest(3) [symmetric] by (cases x) auto
  moreover have "\<forall>r\<in>set (case x of None \<Rightarrow> rest | Some r \<Rightarrow> r # rest). valid_rr r"
    using rest(2) valid by (cases x) auto
  moreover have "intersect_loop (a # as) (b # bs) = Inr (case x of None \<Rightarrow> rest | Some r \<Rightarrow> r # rest)"
    using x(1) rest(1) by simp
  ultimately show ?case by blast
qed auto

lemma intersect_loops_agree: "intersect_ranges_loop as bs = intersect_loop as bs"
  by (induction as bs rule: intersect_loop.induct) simp_all

lemma intersect_ranges_correct:
  assumes "\<forall>r\<in>set left. valid_rr r" "\<forall>r\<in>set right. valid_rr r"
  shows "\<exists>rs. intersect_ranges left right = Inr rs \<and> rows_of rs = rows_of left \<inter> rows_of right
    \<and> gapped rs \<and> (\<forall>r\<in>set rs. valid_rr r)"
proof -
  note l = merge_row_ranges_correct [OF assms(1)] and r = merge_row_ranges_correct [OF assms(2)]
  obtain rs where rs: "intersect_loop (merge_row_ranges left) (merge_row_ranges right) = Inr rs"
    "rows_of rs = rows_of left \<inter> rows_of right" "\<forall>r\<in>set rs. valid_rr r"
    using intersect_loop_correct [OF l(2) r(2)] l(1,3) r(1,3) by (metis Un_iff)
  then show ?thesis
    using merge_row_ranges_correct [OF rs(3)] by (simp add: intersect_ranges_def intersect_loops_agree)
qed

section \<open>Positions\<close>

text \<open>The position of a row in a set of row ids is the number of smaller rows.\<close>

definition rank :: "int set \<Rightarrow> int \<Rightarrow> int" where
  "rank R x = int (card {y \<in> R. y < x})"

lemma finite_rows_of [simp]: "finite (rows_of rs)"
  by (auto simp: rows_of_def rows_def)

lemma finite_below [simp]: "finite {y \<in> rows_of rs. P y}"
  by (rule finite_subset [of _ "rows_of rs"]) auto

definition nonneg_rr :: "row_range \<Rightarrow> bool" where
  "nonneg_rr r \<longleftrightarrow> 0 \<le> rr_from r \<and> rr_from r \<le> rr_to r \<and> rr_to r \<le> i64_max"

lemma nonneg_valid: "nonneg_rr r \<Longrightarrow> valid_rr r"
  by (auto simp: nonneg_rr_def valid_rr_def int_range_simps)

lemma range_count_card: "nonneg_rr r \<Longrightarrow> range_count r = int (card (rows r))"
  by (auto simp: range_count_def nonneg_rr_def rows_def int_range_simps)

lemma rank_head:
  assumes "gapped (r # rs)" "\<forall>s\<in>set (r # rs). nonneg_rr s" "x \<in> rows r"
  shows "rank (rows_of (r # rs)) x = x - rr_from r"
proof -
  have "\<forall>s\<in>set rs. rr_to r + 1 < rr_from s"
    using gapped_above [OF assms(1)] by blast
  then have "{y \<in> rows_of (r # rs). y < x} = {rr_from r..<x}"
    using assms(3) by (fastforce simp: rows_of_def rows_def)
  then show ?thesis using assms(3) by (simp add: rank_def rows_def)
qed

lemma rank_tail:
  assumes "gapped (r # rs)" "\<forall>s\<in>set (r # rs). nonneg_rr s" "x \<in> rows_of rs"
  shows "rank (rows_of (r # rs)) x = range_count r + rank (rows_of rs) x"
proof -
  have above: "\<forall>s\<in>set rs. rr_to r + 1 < rr_from s"
    using gapped_above [OF assms(1)] by blast
  have "{y \<in> rows_of (r # rs). y < x} = rows r \<union> {y \<in> rows_of rs. y < x}"
    using above assms(3) by (fastforce simp: rows_of_def rows_def)
  moreover have "rows r \<inter> {y \<in> rows_of rs. y < x} = {}"
    using above by (fastforce simp: rows_of_def rows_def)
  moreover have "finite (rows r)" by (simp add: rows_def)
  ultimately have "card {y \<in> rows_of (r # rs). y < x} = card (rows r) + card {y \<in> rows_of rs. y < x}"
    by (simp add: card_Un_disjoint)
  then show ?thesis using range_count_card [of r] assms(2) by (simp add: rank_def)
qed

lemma rank_nonneg: "0 \<le> rank R x"
  by (simp add: rank_def)

lemma i64_add_inside:
  "nonneg_rr r \<Longrightarrow> 0 \<le> k \<Longrightarrow> k < rr_to r - rr_from r + 1 \<Longrightarrow> i64_add (rr_from r) k = rr_from r + k"
  by (rule i64_add_in) (auto simp: nonneg_rr_def int_range_simps)

definition piece :: "int \<Rightarrow> int \<Rightarrow> int \<Rightarrow> row_range \<Rightarrow> row_range list" where
  "piece start stop p r =
     (let b = max start p; e = min stop (p + (rr_to r - rr_from r + 1)) in
      if b < e then [span (rr_from r + (b - p)) (rr_from r + (e - p - 1))] else [])"

lemma piece_correct:
  assumes "nonneg_rr r"
  shows "rows_of (piece start stop p r) = {x \<in> rows r. start \<le> p + (x - rr_from r) \<and> p + (x - rr_from r) < stop}
    \<and> gapped (piece start stop p r)
    \<and> (\<forall>s\<in>set (piece start stop p r). nonneg_rr s \<and> rr_from r \<le> rr_from s \<and> rr_to s \<le> rr_to r)"
  using assms by (auto simp: piece_def Let_def rows_def nonneg_rr_def)

lemma push_piece:
  assumes "nonneg_rr r" "c = rr_to r - rr_from r + 1"
  shows "push_if (max start p < min stop (p + c)) (i64_add (rr_from r) (max start p - p))
      (i64_add (rr_from r) (min stop (p + c) - p - 1)) = Inr (piece start stop p r)"
proof (cases "max start p < min stop (p + c)")
  case True
  then have "i64_add (rr_from r) (max start p - p) = rr_from r + (max start p - p)"
    "i64_add (rr_from r) (min stop (p + c) - p - 1) = rr_from r + (min stop (p + c) - p - 1)"
    using assms by (auto intro!: i64_add_inside)
  then show ?thesis using True assms(2) by (simp add: push_if_ok piece_def)
next
  case False
  then show ?thesis unfolding push_if_def piece_def Let_def assms(2) [symmetric] by (simp only: if_False)
qed

lemma gapped_nonneg_disjoint:
  assumes "gapped (r # rs)" "\<forall>s\<in>set (r # rs). nonneg_rr s"
  shows "rows r \<inter> rows_of rs = {}"
    and "int (card (rows_of (r # rs))) = range_count r + int (card (rows_of rs))"
proof -
  show dis: "rows r \<inter> rows_of rs = {}"
    using gapped_above [OF assms(1)] by (fastforce simp: rows_of_def rows_def)
  then show "int (card (rows_of (r # rs))) = range_count r + int (card (rows_of rs))"
    using range_count_card [of r] assms(2) by (simp add: card_Un_disjoint rows_def)
qed

lemma take_positions_step:
  assumes "gapped (r # rs)" "\<forall>s\<in>set (r # rs). nonneg_rr s" "0 \<le> p"
    "p + int (card (rows_of (r # rs))) \<le> 2 ^ 63"
  shows "u64_add p (range_count r) = p + range_count r"
    and "take_positions start stop p (r # rs)
      = and_then (if p + range_count r \<ge> stop then Inr [] else take_positions start stop (p + range_count r) rs)
          (\<lambda>rest. Inr (piece start stop p r @ rest))"
    and "0 \<le> p + range_count r" "p + range_count r + int (card (rows_of rs)) \<le> 2 ^ 63"
proof -
  have c: "range_count r = rr_to r - rr_from r + 1" "0 \<le> range_count r"
    using range_count_card [of r] assms(2) by (auto simp: rows_def nonneg_rr_def)
  note card = gapped_nonneg_disjoint(2) [OF assms(1,2)]
  show nxt: "u64_add p (range_count r) = p + range_count r"
    using assms(3,4) c(2) card by (simp add: int_range_simps)
  show "take_positions start stop p (r # rs)
      = and_then (if p + range_count r \<ge> stop then Inr [] else take_positions start stop (p + range_count r) rs)
          (\<lambda>rest. Inr (piece start stop p r @ rest))"
    using push_piece [OF _ c(1)] assms(2) by (simp add: Let_def nxt)
  show "0 \<le> p + range_count r" "p + range_count r + int (card (rows_of rs)) \<le> 2 ^ 63"
    using assms(3,4) c(2) card by linarith+
qed

lemma take_positions_correct:
  assumes "gapped rs" "\<forall>s\<in>set rs. nonneg_rr s" "0 \<le> position"
    "position + int (card (rows_of rs)) \<le> 2 ^ 63"
  shows "\<exists>ts. take_positions start stop position rs = Inr ts
    \<and> rows_of ts
      = {x \<in> rows_of rs. start \<le> position + rank (rows_of rs) x \<and> position + rank (rows_of rs) x < stop}
    \<and> gapped ts
    \<and> (\<forall>s\<in>set ts. nonneg_rr s \<and> (\<exists>r\<in>set rs. rr_from r \<le> rr_from s \<and> rr_to s \<le> rr_to r))"
  using assms
proof (induction rs arbitrary: position)
  case (Cons r rs)
  note step = take_positions_step [OF Cons.prems]
  define c where "c = range_count r"
  define p where "p = position"
  have nn: "\<forall>s\<in>set rs. nonneg_rr s" "nonneg_rr r" using Cons.prems(2) by simp_all
  obtain ts where ts: "(if p + c \<ge> stop then Inr [] else take_positions start stop (p + c) rs) = Inr ts"
    "rows_of ts = {x \<in> rows_of rs. start \<le> p + c + rank (rows_of rs) x \<and> p + c + rank (rows_of rs) x < stop}"
    "gapped ts" "\<forall>s\<in>set ts. nonneg_rr s \<and> (\<exists>r\<in>set rs. rr_from r \<le> rr_from s \<and> rr_to s \<le> rr_to r)"
  proof (cases "p + c \<ge> stop")
    case True
    have "\<not> p + c + rank (rows_of rs) x < stop" for x using True rank_nonneg [of "rows_of rs" x] by linarith
    then show ?thesis using True that [of "[]"] by simp
  next
    case False
    then show ?thesis
      using that Cons.IH [OF gapped_tl [OF Cons.prems(1)] nn(1) step(3,4)] by (auto simp: p_def c_def)
  qed
  note head = piece_correct [OF nn(2), of start stop p]
  have eq: "take_positions start stop position (r # rs) = Inr (piece start stop p r @ ts)"
    unfolding step(2) using ts(1) by (simp only: p_def [symmetric] c_def [symmetric] and_then.simps)
  have "gapped (piece start stop p r @ ts)"
  proof (rule gapped_append)
    fix x y assume x: "x \<in> set (piece start stop p r)" and y: "y \<in> set ts"
    obtain d where "d \<in> set rs" "rr_from d \<le> rr_from y" using ts(4) y by blast
    moreover have "rr_to x \<le> rr_to r" using head x by blast
    ultimately show "rr_to x + 1 < rr_from y" using gapped_above [OF Cons.prems(1)] by fastforce
  qed (use head ts(3) in auto)
  moreover have "rank (rows_of (r # rs)) x = x - rr_from r" if "x \<in> rows r" for x
    using rank_head [OF Cons.prems(1,2) that] .
  moreover have "rank (rows_of (r # rs)) x = c + rank (rows_of rs) x" if "x \<in> rows_of rs" for x
    using rank_tail [OF Cons.prems(1,2) that] c_def by simp
  ultimately show ?case
    unfolding eq using head ts(2,4) by (auto simp: add.assoc p_def)
qed simp

lemma card_bound: "\<forall>s\<in>set rs. nonneg_rr s \<Longrightarrow> int (card (rows_of rs)) \<le> 2 ^ 63"
proof -
  assume "\<forall>s\<in>set rs. nonneg_rr s"
  then have "rows_of rs \<subseteq> {0..i64_max}" by (fastforce simp: rows_of_def rows_def nonneg_rr_def)
  then have "card (rows_of rs) \<le> card {0..i64_max}" by (intro card_mono) auto
  then show ?thesis by (simp add: i64_max_def)
qed

lemma total_rows_card:
  assumes "gapped rs" "\<forall>s\<in>set rs. nonneg_rr s" "0 \<le> acc" "acc + int (card (rows_of rs)) \<le> 2 ^ 63"
  shows "fold (\<lambda>r acc. u64_add acc (range_count r)) rs acc = acc + int (card (rows_of rs))"
  using assms
proof (induction rs arbitrary: acc)
  case (Cons r rs)
  have r: "nonneg_rr r" using Cons.prems by simp
  note step = take_positions_step [OF Cons.prems]
  show ?case
    using Cons.IH [of "acc + range_count r"] Cons.prems gapped_nonneg_disjoint(2) [OF Cons.prems(1,2)]
      step gapped_tl by simp
qed simp


lemma rank_less:
  assumes "x \<in> R" "x < y" "finite R"
  shows "rank R x < rank R y"
proof -
  have "{z \<in> R. z < x} \<subset> {z \<in> R. z < y}" using assms(1,2) by (auto intro: less_trans)
  then show ?thesis using assms(3) by (simp add: rank_def psubset_card_mono)
qed

lemma rank_image:
  assumes "finite R"
  shows "inj_on (rank R) R" "rank R ` R = {0..<int (card R)}"
proof -
  show inj: "inj_on (rank R) R"
    using rank_less [OF _ _ assms] by (intro inj_onI) (metis less_irrefl linorder_neqE)
  have "{z \<in> R. z < x} \<subset> R" if "x \<in> R" for x using that by auto
  then have "rank R x < int (card R)" if "x \<in> R" for x
    using that assms by (simp add: rank_def psubset_card_mono)
  then have "rank R ` R \<subseteq> {0..<int (card R)}" using rank_nonneg by auto
  then show "rank R ` R = {0..<int (card R)}"
    using card_image [OF inj] by (intro card_subset_eq) auto
qed

lemma card_rank_window:
  assumes "finite R" "0 \<le> a" "a \<le> b" "b \<le> int (card R)"
  shows "int (card {x \<in> R. a \<le> rank R x \<and> rank R x < b}) = b - a"
proof -
  let ?X = "{x \<in> R. a \<le> rank R x \<and> rank R x < b}"
  have "rank R ` ?X = {a..<b}"
    using rank_image(2) [OF assms(1)] assms(2-4) by (fastforce simp: image_iff)
  moreover have "card (rank R ` ?X) = card ?X"
    by (rule card_image, rule inj_on_subset [OF rank_image(1) [OF assms(1)]]) auto
  ultimately show ?thesis using assms(3) by simp
qed

definition shard_bound :: "int \<Rightarrow> int \<Rightarrow> int \<Rightarrow> int" where
  "shard_bound n t i = i * (t div n) + min i (t mod n)"

lemma shard_bound_step:
  "shard_bound n t (i + 1) = shard_bound n t i + t div n + (if i < t mod n then 1 else 0)"
  by (simp add: shard_bound_def algebra_simps)

lemma shard_bound_ends: "0 < n \<Longrightarrow> shard_bound n t 0 = 0 \<and> shard_bound n t n = t"
  by (simp add: shard_bound_def)

lemma shard_bound_mono:
  assumes "0 < n" "0 \<le> t" "i \<le> j"
  shows "shard_bound n t i \<le> shard_bound n t j"
proof -
  have "i * (t div n) \<le> j * (t div n)"
    using assms by (intro mult_right_mono) (auto simp: pos_imp_zdiv_nonneg_iff)
  then show ?thesis using assms(3) by (simp add: shard_bound_def)
qed

lemma selection_bounds_shard:
  assumes "0 \<le> i" "i < n" "0 \<le> t" "t \<le> 2 ^ 63"
  shows "selection_bounds (Shard i n) t = Inr (shard_bound n t i, shard_bound n t (i + 1))"
proof -
  have b: "0 \<le> shard_bound n t i" "shard_bound n t i \<le> shard_bound n t (i + 1)" "shard_bound n t (i + 1) \<le> t"
    using shard_bound_mono [of n t 0 i] shard_bound_mono [of n t i "i + 1"] shard_bound_mono [of n t "i + 1" n]
      shard_bound_ends [of n t] assms by auto
  have q: "0 \<le> i * (t div n)" "0 \<le> min i (t mod n)" "0 \<le> t div n"
    using assms by (auto simp: pos_imp_zdiv_nonneg_iff)
  have "i * (t div n) \<le> t" using b q unfolding shard_bound_def by linarith
  then have "u64_mul i (t div n) = i * (t div n)"
    using q assms by (simp add: u64_mul_def wrap_unsigned_def)
  moreover have "u64_add (i * (t div n)) (min i (t mod n)) = shard_bound n t i"
    using b assms by (subst u64_add_in) (auto simp: shard_bound_def int_range_simps)
  moreover have "u64_add (u64_add (shard_bound n t i) (t div n)) (if i < t mod n then 1 else 0)
      = shard_bound n t (i + 1)"
  proof -
    have "u64_add (shard_bound n t i) (t div n) = shard_bound n t i + t div n"
      using b q assms shard_bound_step [of n t i]
      by (intro u64_add_in) (auto simp: int_range_simps split: if_splits)
    then show ?thesis
      using b q assms unfolding shard_bound_step
      by (simp only:, intro u64_add_in) (auto simp: int_range_simps split: if_splits)
  qed
  moreover have "n \<noteq> 0" using assms by simp
  ultimately show ?thesis by simp
qed

lemma shard_cover:
  assumes "0 < n" "0 \<le> t" "0 \<le> k" "k < t"
  shows "\<exists>i. 0 \<le> i \<and> i < n \<and> shard_bound n t i \<le> k \<and> k < shard_bound n t (i + 1)"
proof (rule ccontr)
  assume no: "\<not> ?thesis"
  have "shard_bound n t (int j) \<le> k" if "int j \<le> n" for j
    using that
  proof (induction j)
    case (Suc j)
    then show ?case using no [simplified, rule_format, of "int j"] by (simp add: add.commute not_less)
  qed (use assms shard_bound_ends in auto)
  from this [of "nat n"] show False using assms shard_bound_ends [of n t] by simp
qed


section \<open>Selections\<close>

lemma nonneg_merge:
  assumes "\<forall>r\<in>set rs. nonneg_rr r"
  shows "\<forall>r\<in>set (merge_row_ranges rs). nonneg_rr r"
proof
  fix r assume r: "r \<in> set (merge_row_ranges rs)"
  note m = merge_row_ranges_correct [of rs]
  have v: "valid_rr r" using m(3) r assms nonneg_valid by blast
  then have "rr_from r \<in> rows_of (merge_row_ranges rs)"
    using r by (auto simp: rows_of_def rows_def valid_rr_def)
  then have "rr_from r \<in> rows_of rs" using m(1) assms nonneg_valid by blast
  then have "0 \<le> rr_from r" using assms by (force simp: rows_of_def rows_def nonneg_rr_def)
  then show "nonneg_rr r" using v by (auto simp: nonneg_rr_def valid_rr_def in_i64_def)
qed

text \<open>The rows at the positions from \<open>a\<close> up to but not including \<open>b\<close>.\<close>

definition window :: "int set \<Rightarrow> int \<Rightarrow> int \<Rightarrow> int set" where
  "window R a b = {x \<in> R. a \<le> rank R x \<and> rank R x < b}"

lemma select_from_ranges_correct:
  assumes "\<forall>r\<in>set rs. nonneg_rr r" "\<forall>r\<in>set (case chosen of None \<Rightarrow> [] | Some s \<Rightarrow> s). valid_rr r"
    and b: "selection_bounds sel (int (card (rows_of rs))) = Inr (start, stop)"
  shows "\<exists>ts. select_from_ranges sel rs chosen = Inr ts \<and> gapped ts
    \<and> rows_of ts = window (rows_of rs) start stop \<inter> (case chosen of None \<Rightarrow> UNIV | Some s \<Rightarrow> rows_of s)"
proof -
  let ?m = "merge_row_ranges rs" and ?R = "rows_of rs"
  note m = merge_row_ranges_correct [of rs] nonneg_merge [OF assms(1)]
  have R: "rows_of ?m = ?R" "gapped ?m" using m assms(1) nonneg_valid by blast+
  have total: "fold (\<lambda>r acc. u64_add acc (range_count r)) ?m 0 = int (card ?R)"
    using total_rows_card [of ?m 0] card_bound [OF m(4)] m(4) R by simp
  show ?thesis
  proof (cases "start \<ge> stop")
    case True
    then show ?thesis by (auto simp: select_from_ranges_def total b window_def)
  next
    case False
    obtain t where t: "take_positions start stop 0 ?m = Inr t" "rows_of t = window ?R start stop" "gapped t"
      "\<forall>s\<in>set t. valid_rr s"
      using take_positions_correct [of ?m 0 start stop] card_bound [OF m(4)] m(4) R nonneg_valid
      by (auto simp: window_def)
    obtain res where res: "(case chosen of None \<Rightarrow> Inr t | Some s \<Rightarrow> intersect_loop t (merge_row_ranges s)) = Inr res"
      "rows_of res = window ?R start stop \<inter> (case chosen of None \<Rightarrow> UNIV | Some s \<Rightarrow> rows_of s)"
      "\<forall>s\<in>set res. valid_rr s"
    proof (cases chosen)
      case None
      then show ?thesis using that [of t] t by simp
    next
      case (Some s)
      then have "rows_of (merge_row_ranges s) = rows_of s" "gapped (merge_row_ranges s)"
        "\<forall>r\<in>set (merge_row_ranges s). valid_rr r"
        using merge_row_ranges_correct assms(2) by auto
      moreover have "\<forall>r\<in>set t \<union> set (merge_row_ranges s). valid_rr r" using t(4) calculation(3) by blast
      ultimately show ?thesis
        using that t(2,3) intersect_loop_correct [of t "merge_row_ranges s"] Some by auto
    qed
    have "select_from_ranges sel rs chosen = Inr (merge_row_ranges res)"
      using False t(1) res(1) by (simp add: select_from_ranges_def total b)
    then show ?thesis using res merge_row_ranges_correct [of res] by auto
  qed
qed

lemma row_id_range_nonempty: "row_id_range f = Some (a, b) \<Longrightarrow> a \<le> b"
  by (auto simp: row_id_range_def checked_add_i64_def split: option.splits if_splits)

lemma intersect_all_correct:
  "\<exists>os. collect_res (map (\<lambda>r. intersect_inclusive r a b) xs) = Inr os
     \<and> rows_of (List.map_filter (\<lambda>x. x) os) = rows_of xs \<inter> {a..b}"
proof (induction xs)
  case (Cons r xs)
  then obtain os where os: "collect_res (map (\<lambda>r. intersect_inclusive r a b) xs) = Inr os"
    "rows_of (List.map_filter (\<lambda>x. x) os) = rows_of xs \<inter> {a..b}" by blast
  obtain x where x: "intersect_inclusive r a b = Inr x"
    "rows_of (case x of None \<Rightarrow> [] | Some s \<Rightarrow> [s]) = rows r \<inter> {a..b}"
    using intersect_inclusive_ok by blast
  have "rows_of (List.map_filter (\<lambda>x. x) (x # os)) = rows_of (r # xs) \<inter> {a..b}"
    using x(2) os(2) by (cases x) (auto simp: map_filter_simps)
  then show ?case using x(1) os(1) by (intro exI [of _ "x # os"]) simp
qed (simp add: map_filter_simps)

lemma intersect_with_file_correct:
  assumes "\<forall>r\<in>set xs. valid_rr r" "row_id_range f = Some (a, b)"
  shows "\<exists>rs. intersect_ranges_with_file xs f = Inr rs \<and> rows_of rs = rows_of xs \<inter> {a..b}
    \<and> (any_range_overlaps_file xs f \<longleftrightarrow> rows_of rs \<noteq> {})"
proof -
  obtain os where os: "collect_res (map (\<lambda>r. intersect_inclusive r a b) xs) = Inr os"
    "rows_of (List.map_filter (\<lambda>x. x) os) = rows_of xs \<inter> {a..b}"
    using intersect_all_correct by blast
  have "overlaps_inclusive r a b \<longleftrightarrow> rows r \<inter> {a..b} \<noteq> {}" if "r \<in> set xs" for r
    using that assms(1) row_id_range_nonempty [OF assms(2)]
    by (auto simp: overlaps_inclusive_def rows_def valid_rr_def)
  then have "any_range_overlaps_file xs f \<longleftrightarrow> rows_of xs \<inter> {a..b} \<noteq> {}"
    using assms(2) by (auto simp: any_range_overlaps_file_def list_ex_iff rows_of_def)
  then show ?thesis using os assms(2) by (simp add: intersect_ranges_with_file_def)
qed

text \<open>
  C8. Sharding by row position is a balanced partition: whatever the data files' row-id ranges, the selection
  of each of the shards \<open>0, \<dots>, n - 1\<close> by \<^verbatim>\<open>RowPositionSelection\<close> succeeds, no assertion of \<^verbatim>\<open>RowRange::new\<close>
  failing, with non-empty sorted ranges; the shards are pairwise disjoint, together hold every row id
  exactly once, and their sizes differ by at most one. The \<^verbatim>\<open>u64\<close> and \<^verbatim>\<open>i64\<close> arithmetic in between never
  wraps, even for a range ending at \<^verbatim>\<open>i64::MAX\<close>.
\<close>

theorem shards_partition_rows:
  assumes "\<forall>r\<in>set ranges. 0 \<le> rr_from r \<and> rr_from r \<le> rr_to r \<and> rr_to r \<le> i64_max"
    and "0 < n"
  shows "\<exists>shard. (\<forall>i. 0 \<le> i \<and> i < n \<longrightarrow>
        select_from_ranges (Shard i n) ranges None = Inr (shard i) \<and> gapped (shard i)) \<and>
    (\<Union>i\<in>{0..<n}. rows_of (shard i)) = rows_of ranges \<and>
    (\<forall>i j. 0 \<le> i \<and> i < j \<and> j < n \<longrightarrow> rows_of (shard i) \<inter> rows_of (shard j) = {}) \<and>
    (\<forall>i j. 0 \<le> i \<and> i < n \<and> 0 \<le> j \<and> j < n \<longrightarrow>
       card (rows_of (shard i)) \<le> card (rows_of (shard j)) + 1)"
proof -
  let ?R = "rows_of ranges" let ?b = "shard_bound n (int (card ?R))"
  have nn: "\<forall>r\<in>set ranges. nonneg_rr r" using assms(1) by (simp add: nonneg_rr_def)
  have "\<exists>ts. 0 \<le> i \<and> i < n \<longrightarrow> select_from_ranges (Shard i n) ranges None = Inr ts \<and> gapped ts
      \<and> rows_of ts = window ?R (?b i) (?b (i + 1))" for i
    using select_from_ranges_correct [OF nn, of None "Shard i n" "?b i" "?b (i + 1)"] card_bound [OF nn]
      selection_bounds_shard [of i n "int (card ?R)"]
    by fastforce
  then obtain shard where sel: "\<And>i. 0 \<le> i \<and> i < n \<Longrightarrow> select_from_ranges (Shard i n) ranges None = Inr (shard i)
      \<and> gapped (shard i) \<and> rows_of (shard i) = window ?R (?b i) (?b (i + 1))" by metis
  then have shard: "rows_of (shard i) = {x \<in> ?R. ?b i \<le> rank ?R x \<and> rank ?R x < ?b (i + 1)}"
    if "0 \<le> i" "i < n" for i
    using that by (simp add: window_def)
  have mono: "?b i \<le> ?b j" if "i \<le> j" for i j
    using shard_bound_mono assms(2) that by simp
  have "\<exists>i\<in>{0..<n}. x \<in> rows_of (shard i)" if "x \<in> ?R" for x
  proof -
    have "rank ?R x \<in> {0..<int (card ?R)}" using rank_image(2) [of ?R] that by auto
    then obtain i where "0 \<le> i" "i < n" "?b i \<le> rank ?R x" "rank ?R x < ?b (i + 1)"
      using shard_cover [OF assms(2), of "int (card ?R)" "rank ?R x"] by auto
    then show ?thesis using that shard by auto
  qed
  then have "(\<Union>i\<in>{0..<n}. rows_of (shard i)) = ?R" using shard by fastforce
  moreover have "rows_of (shard i) \<inter> rows_of (shard j) = {}" if "0 \<le> i \<and> i < j \<and> j < n" for i j
    using that shard [of i] shard [of j] mono [of "i + 1" j] by fastforce
  moreover have sizes: "int (card (rows_of (shard i))) = int (card ?R) div n + (if i < int (card ?R) mod n then 1 else 0)"
    if "0 \<le> i" "i < n" for i
    using card_rank_window [of ?R "?b i" "?b (i + 1)"] mono [of 0 i] mono [of i "i + 1"] mono [of "i + 1" n]
      shard_bound_ends [OF assms(2), of "int (card ?R)"] shard_bound_step [of n "int (card ?R)" i] shard [OF that] that
    by simp
  have "card (rows_of (shard i)) \<le> card (rows_of (shard j)) + 1" if ij: "0 \<le> i \<and> i < n \<and> 0 \<le> j \<and> j < n" for i j
  proof -
    have "int (card (rows_of (shard i))) \<le> int (card ?R) div n + 1" "int (card ?R) div n \<le> int (card (rows_of (shard j)))"
      using sizes ij by auto
    then show ?thesis by linarith
  qed
  with calculation sel show ?thesis by (intro exI [of _ shard]) blast
qed

theorem shards_partition_rows_witness:
  "select_from_ranges (Shard 0 2) [span 20 22, span 0 9] None = Inr [span 0 6] \<and>
   select_from_ranges (Shard 1 2) [span 20 22, span 0 9] None = Inr [span 7 9, span 20 22] \<and>
   rows_of [span 0 6] \<inter> rows_of [span 7 9, span 20 22] = {} \<and>
   rows_of [span 0 6] \<union> rows_of [span 7 9, span 20 22] = rows_of [span 20 22, span 0 9]"
proof -
  have eval: "select_from_ranges (Shard 0 2) [span 20 22, span 0 9] None = Inr [span 0 6]"
    "select_from_ranges (Shard 1 2) [span 20 22, span 0 9] None = Inr [span 7 9, span 20 22]"
    by code_simp+
  obtain shard where shard: "\<And>i. 0 \<le> i \<and> i < (2 :: int) \<Longrightarrow>
      select_from_ranges (Shard i 2) [span 20 22, span 0 9] None = Inr (shard i)"
    "(\<Union>i\<in>{0..<2}. rows_of (shard i)) = rows_of [span 20 22, span 0 9]"
    "\<And>i j. 0 \<le> i \<and> i < j \<and> j < 2 \<Longrightarrow> rows_of (shard i) \<inter> rows_of (shard j) = {}"
    using shards_partition_rows [of "[span 20 22, span 0 9]" 2] by (auto simp: i64_max_def)
  have s: "shard 0 = [span 0 6]" "shard 1 = [span 7 9, span 20 22]" using shard(1) [of 0] shard(1) [of 1] eval by simp_all
  have "{0..<2 :: int} = {0, 1}" by auto
  then show ?thesis using eval shard(2) shard(3) [of 0 1] unfolding s by (simp add: s del: span_simps)
qed



end
