(* ===== verification/Var_Len.thy ===== *)
theory Var_Len
  imports Prelude
begin

text \<open>
  \<^verbatim>\<open>crates/paimon/src/btree/var_len.rs\<close>: the LEB128 integers of the B-tree index files.
  A reader over \<^verbatim>\<open>impl Read\<close> is a function from the remaining bytes to the value and the bytes
  left over; a writer over \<^verbatim>\<open>impl Write\<close> is the list of bytes it appends (the returned count is its
  length). Values are \<open>int\<close>; the casts \<^verbatim>\<open>as u32\<close>, \<^verbatim>\<open>as i32\<close> are \<open>wrap_unsigned\<close> and \<open>wrap_signed\<close>. The writers
  are documented for non-negative values and check that by a \<^verbatim>\<open>debug_assert!\<close>, which a release build does not
  run; they are modelled as in a release build, and the round trip is stated for non-negative values.
  The locale \<open>byte_codec\<close> is the contract of such a pair, and it carries the round trip over to
  sequences of values.
\<close>

unbundle bit_operations_syntax

section \<open>The codec contract\<close>

fun decode_many :: "(bytes \<Rightarrow> ('a \<times> bytes) result) \<Rightarrow> nat \<Rightarrow> bytes \<Rightarrow> ('a list \<times> bytes) result" where
  "decode_many dec 0 bs = Inr ([], bs)"
| "decode_many dec (Suc n) bs =
     and_then (dec bs) (\<lambda>(x, bs'). and_then (decode_many dec n bs') (\<lambda>(xs, r). Inr (x # xs, r)))"

locale byte_codec =
  fixes enc :: "'a \<Rightarrow> bytes" and dec :: "bytes \<Rightarrow> ('a \<times> bytes) result" and valid :: "'a \<Rightarrow> bool"
  assumes dec_enc: "valid x \<Longrightarrow> dec (enc x @ rest) = Inr (x, rest)"
begin

lemma dec_enc_all: "valid x \<Longrightarrow> dec (enc x) = Inr (x, [])"
  using dec_enc [of x "[]"] by simp

lemma enc_inject: "valid x \<Longrightarrow> valid y \<Longrightarrow> enc x @ r = enc y @ s \<Longrightarrow> x = y \<and> r = s"
  by (metis dec_enc prod.inject sum.inject(2))

lemma decode_many_enc:
  "list_all valid xs \<Longrightarrow> decode_many dec (length xs) (concat (map enc xs) @ rest) = Inr (xs, rest)"
proof (induction xs)
  case (Cons x xs)
  then have "dec (enc x @ concat (map enc xs) @ rest) = Inr (x, concat (map enc xs) @ rest)"
    by (intro dec_enc) simp
  with Cons show ?case by simp
qed simp

end

section \<open>Encoding\<close>

text \<open>\<^verbatim>\<open>while (v & !0x7F) != 0 { push((v & 0x7F) | 0x80); v >>= 7 } push(v)\<close>\<close>

fun encode_loop :: "nat \<Rightarrow> bytes" where
  "encode_loop v =
     (if v < 128 then [of_nat v] else of_nat (v mod 128 + 128) # encode_loop (v div 128))"

fun encode_long_loop :: "nat \<Rightarrow> bytes" where
  "encode_long_loop v =
     (if v < 128 then [of_nat v] else of_nat (v mod 128 + 128) # encode_long_loop (v div 128))"

declare encode_loop.simps [simp del] encode_long_loop.simps [simp del]

definition encode_var_int :: "int \<Rightarrow> bytes" where
  "encode_var_int value = encode_loop (nat (wrap_unsigned 32 value))"

definition encode_var_long :: "int \<Rightarrow> bytes" where
  "encode_var_long value = encode_long_loop (nat (wrap_unsigned 64 value))"

fun encode_slice_loop :: "bytes \<Rightarrow> nat \<Rightarrow> nat \<Rightarrow> nat \<Rightarrow> (bytes \<times> nat) result" where
  "encode_slice_loop buf offset i v =
     (if length buf \<le> offset + i then Inl (Panic ''index out of bounds'')
      else if v < 128 then Inr (buf[offset + i := of_nat v], i + 1)
      else encode_slice_loop (buf[offset + i := of_nat (v mod 128 + 128)]) offset (i + 1) (v div 128))"

declare encode_slice_loop.simps [simp del]

definition encode_var_int_to_slice :: "bytes \<Rightarrow> nat \<Rightarrow> int \<Rightarrow> (bytes \<times> nat) result" where
  "encode_var_int_to_slice buf offset value =
     encode_slice_loop buf offset 0 (nat (wrap_unsigned 32 value))"

section \<open>Decoding\<close>

text \<open>The range \<^verbatim>\<open>(s..w).step_by(7)\<close>.\<close>

function shifts :: "nat \<Rightarrow> nat \<Rightarrow> nat list" where
  "shifts s w = (if s < w then s # shifts (s + 7) w else [])"
  by pat_completeness auto
termination
  by (relation "measure (\<lambda>(s, w). w - s)") auto

declare shifts.simps [simp del]

text \<open>\<^verbatim>\<open>result | ((b & 0x7F) << shift)\<close> at width \<open>w\<close>: a shift drops the bits above the width.\<close>

definition or_shifted :: "nat \<Rightarrow> int \<Rightarrow> byte \<Rightarrow> nat \<Rightarrow> int" where
  "or_shifted w result b shift = result OR take_bit w (push_bit shift (uint (b AND 0x7F)))"

fun decode_loop :: "nat list \<Rightarrow> int \<Rightarrow> bytes \<Rightarrow> (int \<times> bytes) result" where
  "decode_loop [] result bs = Inl (IoError ''Malformed integer'')"
| "decode_loop (s # ss) result [] = Inl (IoError ''failed to fill whole buffer'')"
| "decode_loop (s # ss) result (b # bs) =
     (let result' = or_shifted 32 result b s in
      if b AND 0x80 = 0 then Inr (wrap_signed 32 result', bs) else decode_loop ss result' bs)"

definition decode_var_int :: "bytes \<Rightarrow> (int \<times> bytes) result" where
  "decode_var_int bs = decode_loop (shifts 0 32) 0 bs"

fun decode_long_loop :: "nat list \<Rightarrow> int \<Rightarrow> bytes \<Rightarrow> (int \<times> bytes) result" where
  "decode_long_loop [] result bs = Inl (IoError ''Malformed long'')"
| "decode_long_loop (s # ss) result [] = Inl (IoError ''failed to fill whole buffer'')"
| "decode_long_loop (s # ss) result (b # bs) =
     (let result' = or_shifted 64 result b s in
      if b AND 0x80 = 0 then Inr (wrap_signed 64 result', bs) else decode_long_loop ss result' bs)"

definition decode_var_long :: "bytes \<Rightarrow> (int \<times> bytes) result" where
  "decode_var_long bs = decode_long_loop (shifts 0 64) 0 bs"

fun decode_slice_loop :: "bytes \<Rightarrow> nat \<Rightarrow> nat list \<Rightarrow> nat \<Rightarrow> int \<Rightarrow> (int \<times> nat) result" where
  "decode_slice_loop bs offset [] i result = Inl (Panic ''Malformed integer'')"
| "decode_slice_loop bs offset (shift # rest) i result =
     (if length bs \<le> offset + i then Inl (Panic ''index out of bounds'')
      else
        let b = bs ! (offset + i); result = or_shifted 32 result b shift; i = i + 1 in
        if b AND 0x80 = 0 then Inr (wrap_signed 32 result, i)
        else decode_slice_loop bs offset rest i result)"

definition decode_var_int_from_slice :: "bytes \<Rightarrow> nat \<Rightarrow> (int \<times> nat) result" where
  "decode_var_int_from_slice bs offset = decode_slice_loop bs offset (shifts 0 32) 0 0"

text \<open>\<^verbatim>\<open>offset.checked_add(i).and_then(|index| bytes.get(index))\<close>; an index that overflows is past every slice.\<close>

definition slice_get :: "bytes \<Rightarrow> nat \<Rightarrow> nat \<Rightarrow> byte option" where
  "slice_get bs offset i =
     (if offset + i < length bs then Some (bs ! (offset + i)) else None)"

fun try_decode_slice_loop :: "bytes \<Rightarrow> nat \<Rightarrow> nat list \<Rightarrow> nat \<Rightarrow> int \<Rightarrow> (int \<times> nat) result" where
  "try_decode_slice_loop bs offset [] i result = Inl (DataInvalid ''Malformed var-int'')"
| "try_decode_slice_loop bs offset (shift # rest) i result =
     and_then (ok_or (DataInvalid ''Var-int runs past the end of the slice'') (slice_get bs offset i)) (\<lambda>b.
       let result = or_shifted 32 result b shift; i = i + 1 in
       if b AND 0x80 = 0 then Inr (wrap_signed 32 result, i)
       else try_decode_slice_loop bs offset rest i result)"

definition try_decode_var_int_from_slice :: "bytes \<Rightarrow> nat \<Rightarrow> (int \<times> nat) result" where
  "try_decode_var_int_from_slice bs offset = try_decode_slice_loop bs offset (shifts 0 32) 0 0"

section \<open>Round trips\<close>

lemma int_or_shift:
  fixes r x :: int
  assumes "0 \<le> r" "r < 2 ^ s"
  shows "r OR push_bit s x = r + x * 2 ^ s"
proof -
  have t: "take_bit s r = r" using assms by (simp add: take_bit_int_eq_self)
  have "\<not> bit r n \<or> \<not> bit (push_bit s x) n" for n
  proof (cases "n < s")
    case False
    have "bit r n = bit (take_bit s r) n" by (simp only: t)
    then show ?thesis using False by (simp add: bit_take_bit_iff)
  qed (simp add: bit_push_bit_iff)
  then have "r AND push_bit s x = 0" by (simp add: bit_eq_iff bit_and_iff)
  then show ?thesis by (simp add: disjunctive_add_eq_or [symmetric] push_bit_eq_mult)
qed

lemma low_bits: "uint (b AND 0x7F :: byte) = uint b mod 128"
proof -
  have "b AND 0x7F = take_bit 7 b" by (simp add: take_bit_eq_mask mask_eq_exp_minus_1)
  then have "uint (b AND 0x7F) = take_bit 7 (uint b)" by (simp only: unsigned_take_bit_eq)
  then show ?thesis by (simp add: take_bit_eq_mod)
qed

lemma high_bit: "(b :: byte) AND 0x80 = 0 \<longleftrightarrow> uint b < 128"
proof -
  have "b AND 0x80 = 0 \<longleftrightarrow> \<not> bit b 7"
    using and_exp_eq_0_iff_not_bit [of b 7] by simp
  also have "\<dots> \<longleftrightarrow> \<not> bit (uint b) 7"
    by (simp add: bit_uint_iff)
  also have "\<dots> \<longleftrightarrow> even (uint b div 128)"
    by (simp add: bit_iff_odd)
  also have "\<dots> \<longleftrightarrow> uint b < 128"
  proof (cases "uint b < 128")
    case False
    then have "uint b div 128 = 1"
      using uint_byte_lt [of b] by (intro int_div_pos_eq [of _ _ _ "uint b - 128"]) linarith+
    then show ?thesis using False by simp
  qed simp
  finally show ?thesis .
qed

lemma or_shifted_add:
  assumes "0 \<le> r" "r < 2 ^ s" "(uint b mod 128) * 2 ^ s < 2 ^ w"
  shows "or_shifted w r b s = r + (uint b mod 128) * 2 ^ s"
proof -
  have "take_bit w (push_bit s (uint b mod 128)) = push_bit s (uint b mod 128)"
    using assms(3) by (simp add: take_bit_int_eq_self push_bit_eq_mult)
  then show ?thesis
    by (simp add: or_shifted_def low_bits int_or_shift assms)
qed

lemma encode_loop_nonempty [simp]: "encode_loop v \<noteq> []"
  by (subst encode_loop.simps) simp

lemma uint_low_byte: "v < 256 \<Longrightarrow> uint (of_nat v :: byte) = int v"
  by (simp add: uint_nat unat_of_nat)

lemma int_split_128:
  "int v * 2 ^ s = int (v mod 128) * 2 ^ s + int (v div 128) * 2 ^ (s + 7)"
proof -
  have "int v = int (v mod 128) + 128 * int (v div 128)"
    by (metis mod_mult_div_eq of_nat_add of_nat_mult of_nat_numeral)
  then show ?thesis by (simp add: power_add algebra_simps)
qed

text \<open>One step of either decoding loop: the facts about the first byte and what is left.\<close>

lemma decode_step:
  assumes "0 \<le> r" "r < 2 ^ s" "int v * 2 ^ s < 2 ^ w" "128 \<le> v"
  shows "or_shifted w r (of_nat (v mod 128 + 128)) s = r + int (v mod 128) * 2 ^ s"
    and "r + int (v mod 128) * 2 ^ s < 2 ^ (s + 7)"
    and "int (v div 128) * 2 ^ (s + 7) < 2 ^ w" and "s + 7 < w"
proof -
  have u: "uint (of_nat (v mod 128 + 128) :: byte) = int (v mod 128 + 128)"
    using mod_less_divisor [of 128 v] by (intro uint_low_byte) linarith
  have low: "int (v mod 128 + 128) mod 128 = int (v mod 128)"
    by (simp add: of_nat_mod)
  have pos: "0 \<le> int (v mod 128) * 2 ^ s" "0 \<le> int (v div 128) * 2 ^ (s + 7)" by simp_all
  show "or_shifted w r (of_nat (v mod 128 + 128)) s = r + int (v mod 128) * 2 ^ s"
    using or_shifted_add [OF assms(1,2), of "of_nat (v mod 128 + 128)" w] assms(3) pos
    unfolding u low int_split_128 [of v s] by linarith
  have "int (v mod 128) + 1 \<le> 128" by (simp add: of_nat_mod)
  then have "(int (v mod 128) + 1) * 2 ^ s \<le> 128 * 2 ^ s" by (rule mult_right_mono) simp
  then have "int (v mod 128) * 2 ^ s + 2 ^ s \<le> 2 ^ (s + 7)"
    by (simp only: power_add distrib_right) simp
  then show "r + int (v mod 128) * 2 ^ s < 2 ^ (s + 7)"
    using assms(2) by linarith
  show less: "int (v div 128) * 2 ^ (s + 7) < 2 ^ w"
    using assms(3) pos unfolding int_split_128 [of v s] by linarith
  have "1 \<le> int (v div 128)" using assms(4) div_le_mono [of 128 v 128] by simp
  then have "1 * 2 ^ (s + 7) \<le> int (v div 128) * 2 ^ (s + 7)" by (rule mult_right_mono) simp
  then have "(2 :: int) ^ (s + 7) < 2 ^ w" using less by linarith
  then show "s + 7 < w" by (simp only: power_strict_increasing_iff)
qed

lemma decode_last:
  assumes "0 \<le> r" "r < 2 ^ s" "int v * 2 ^ s < 2 ^ w" "v < 128"
  shows "or_shifted w r (of_nat v) s = r + int v * 2 ^ s"
proof -
  have "uint (of_nat v :: byte) = int v" using assms(4) by (intro uint_low_byte) simp
  then show ?thesis using or_shifted_add [OF assms(1,2), of "of_nat v" w] assms(3,4) by simp
qed

lemma continuation_bit:
  "v < 128 \<Longrightarrow> (of_nat v :: byte) AND 0x80 = 0"
  "(of_nat (v mod 128 + 128) :: byte) AND 0x80 \<noteq> 0"
proof -
  show "v < 128 \<Longrightarrow> (of_nat v :: byte) AND 0x80 = 0"
    unfolding high_bit by (simp add: uint_low_byte)
  have "v mod 128 + 128 < 256" using mod_less_divisor [of 128 v] by linarith
  then show "(of_nat (v mod 128 + 128) :: byte) AND 0x80 \<noteq> 0"
    unfolding high_bit by (subst uint_low_byte) simp_all
qed

lemma encode_long_loop_eq: "encode_long_loop v = encode_loop v"
  by (induction v rule: encode_long_loop.induct) (simp add: encode_loop.simps encode_long_loop.simps)

text \<open>Both stream readers are one loop at a width, with the message of a number that is too long.\<close>

fun read_groups :: "nat \<Rightarrow> error \<Rightarrow> nat list \<Rightarrow> int \<Rightarrow> bytes \<Rightarrow> (int \<times> bytes) result" where
  "read_groups w e [] result bs = Inl e"
| "read_groups w e (s # ss) result [] = Inl (IoError ''failed to fill whole buffer'')"
| "read_groups w e (s # ss) result (b # bs) =
     (let result' = or_shifted w result b s in
      if b AND 0x80 = 0 then Inr (wrap_signed w result', bs) else read_groups w e ss result' bs)"

lemma decode_loops_read_groups:
  "decode_loop ss r bs = read_groups 32 (IoError ''Malformed integer'') ss r bs"
  "decode_long_loop ss r bs = read_groups 64 (IoError ''Malformed long'') ss r bs"
proof -
  show "decode_loop ss r bs = read_groups 32 (IoError ''Malformed integer'') ss r bs"
    by (induction ss r bs rule: decode_loop.induct) (simp_all add: Let_def)
  show "decode_long_loop ss r bs = read_groups 64 (IoError ''Malformed long'') ss r bs"
    by (induction ss r bs rule: decode_long_loop.induct) (simp_all add: Let_def)
qed

lemma read_groups_encode:
  assumes "s < w" "0 \<le> r" "r < 2 ^ s" "int v * 2 ^ s < 2 ^ w"
  shows "read_groups w e (shifts s w) r (encode_loop v @ rest) = Inr (wrap_signed w (r + int v * 2 ^ s), rest)"
  using assms
proof (induction v arbitrary: r s rule: encode_loop.induct)
  case (1 v)
  note sh = shifts.simps [of s w] and en = encode_loop.simps [of v]
  show ?case
  proof (cases "v < 128")
    case True
    then show ?thesis
      using 1(2) by (simp add: sh en continuation_bit decode_last [OF 1(3-5)])
  next
    case False
    then have "128 \<le> v" by simp
    note st = decode_step [OF 1(3-5) this]
    have "0 \<le> r + int (v mod 128) * 2 ^ s" using 1(3) by simp
    from 1(1) [OF False st(4) this st(2,3)] 1(2) False
    show ?thesis
      by (simp add: sh en continuation_bit st(1) Let_def int_split_128 [of v s] add.assoc del: power_add of_nat_add)
  qed
qed

lemma decode_slice_loop_encode:
  assumes "s < 32" "0 \<le> r" "r < 2 ^ s" "int v * 2 ^ s < 2 ^ 32"
    "drop (offset + i) bs = encode_loop v @ rest"
  shows "decode_slice_loop bs offset (shifts s 32) i r
         = Inr (wrap_signed 32 (r + int v * 2 ^ s), i + length (encode_loop v))"
  using assms
proof (induction v arbitrary: r s i rule: encode_loop.induct)
  case (1 v)
  note sh = shifts.simps [of s 32] and en = encode_loop.simps [of v]
  have len: "offset + i < length bs"
    using 1(6) encode_loop_nonempty [of v] by (metis append_is_Nil_conv drop_all not_less)
  have hd: "bs ! (offset + i) # drop (offset + (i + 1)) bs = encode_loop v @ rest"
    using 1(6) Cons_nth_drop_Suc [OF len] by simp
  show ?case
  proof (cases "v < 128")
    case True
    then have "bs ! (offset + i) = of_nat v" using hd by (simp add: en)
    then show ?thesis
      using 1(2) len True by (simp add: sh en continuation_bit decode_last [OF 1(3-5)])
  next
    case False
    then have "128 \<le> v" by simp
    note st = decode_step [OF 1(3-5) this]
    have b: "bs ! (offset + i) = of_nat (v mod 128 + 128)"
      and d: "drop (offset + (i + 1)) bs = encode_loop (v div 128) @ rest"
      using hd False by (simp_all add: en)
    have "0 \<le> r + int (v mod 128) * 2 ^ s" using 1(3) by simp
    from 1(1) [OF False st(4) this st(2,3) d] 1(2) False len
    show ?thesis
      unfolding sh en
      by (simp add: b continuation_bit st(1) Let_def int_split_128 [of v s] add.assoc del: power_add of_nat_add)
  qed
qed

lemma encode_slice_loop_eq:
  assumes "offset + i + length (encode_loop v) \<le> length buf"
  shows "encode_slice_loop buf offset i v =
    Inr (take (offset + i) buf @ encode_loop v @ drop (offset + i + length (encode_loop v)) buf,
         i + length (encode_loop v))"
  using assms
proof (induction v arbitrary: buf i rule: encode_loop.induct)
  case (1 v)
  note en = encode_loop.simps [of v]
  show ?case
  proof (cases "v < 128")
    case True
    then show ?thesis using 1(2)
      by (subst encode_slice_loop.simps) (simp add: en upd_conv_take_nth_drop)
  next
    case False
    let ?buf = "buf[offset + i := of_nat (v mod 128 + 128)]"
    have "offset + (i + 1) + length (encode_loop (v div 128)) \<le> length ?buf"
      using 1(2) False by (simp add: en)
    from 1(1) [OF False this] 1(2) False show ?thesis
      by (subst encode_slice_loop.simps) (simp add: en take_Suc_conv_app_nth)
  qed
qed

lemma length_encode_loop: "v < 128 ^ Suc n \<Longrightarrow> length (encode_loop v) \<le> Suc n"
proof (induction n arbitrary: v)
  case 0
  then show ?case by (simp add: encode_loop.simps [of v])
next
  case (Suc n)
  have "v div 128 < 128 ^ Suc n" using Suc.prems by (simp add: less_mult_imp_div_less mult.commute)
  with Suc.IH show ?case by (simp add: encode_loop.simps [of v])
qed

text \<open>The values the two widths can carry, as what the unsigned cast makes of them.\<close>

lemma wrap_cast_back:
  "in_i32 x \<Longrightarrow> wrap_signed 32 (wrap_unsigned 32 x) = x"
  "in_i64 x \<Longrightarrow> wrap_signed 64 (wrap_unsigned 64 x) = x"
  by (simp_all add: wrap_signed_def wrap_unsigned_def mod_simps int_range_simps)

lemma wrap_unsigned_range [simp]: "0 \<le> wrap_unsigned w x" "wrap_unsigned w x < 2 ^ w"
  by (simp_all add: wrap_unsigned_def)

interpretation var_int_codec: byte_codec encode_var_int decode_var_int in_i32
proof
  fix x rest
  assume x: "in_i32 x"
  have "read_groups 32 e (shifts 0 32) 0 (encode_var_int x @ rest)
        = Inr (wrap_signed 32 (0 + int (nat (wrap_unsigned 32 x)) * 2 ^ 0), rest)" for e
    unfolding encode_var_int_def
    using wrap_unsigned_range [where w = 32 and x = x] by (intro read_groups_encode) auto
  then show "decode_var_int (encode_var_int x @ rest) = Inr (x, rest)"
    using wrap_unsigned_range [where w = 32 and x = x] x
    by (simp add: decode_var_int_def decode_loops_read_groups wrap_cast_back)
qed

interpretation var_long_codec: byte_codec encode_var_long decode_var_long in_i64
proof
  fix x rest
  assume x: "in_i64 x"
  have "read_groups 64 e (shifts 0 64) 0 (encode_var_long x @ rest)
        = Inr (wrap_signed 64 (0 + int (nat (wrap_unsigned 64 x)) * 2 ^ 0), rest)" for e
    unfolding encode_var_long_def encode_long_loop_eq
    using wrap_unsigned_range [where w = 64 and x = x] by (intro read_groups_encode) auto
  then show "decode_var_long (encode_var_long x @ rest) = Inr (x, rest)"
    using wrap_unsigned_range [where w = 64 and x = x] x
    by (simp add: decode_var_long_def decode_loops_read_groups wrap_cast_back)
qed

lemma decode_var_int_from_slice_encode:
  assumes "in_i32 x" "drop offset bs = encode_var_int x @ rest"
  shows "decode_var_int_from_slice bs offset = Inr (x, length (encode_var_int x))"
proof -
  let ?v = "nat (wrap_unsigned 32 x)"
  have v: "int ?v = wrap_unsigned 32 x" using wrap_unsigned_range [where w = 32 and x = x] by simp
  have "decode_slice_loop bs offset (shifts 0 32) 0 0
        = Inr (wrap_signed 32 (0 + int ?v * 2 ^ 0), 0 + length (encode_loop ?v))"
    using wrap_unsigned_range [where w = 32 and x = x] assms(2)
    by (intro decode_slice_loop_encode [where rest = rest]) (auto simp: encode_var_int_def v)
  then show ?thesis
    using assms(1) by (simp add: v wrap_cast_back encode_var_int_def decode_var_int_from_slice_def)
qed

text \<open>The slice reader for foreign bytes against the panicking one, step by step.\<close>

lemma try_decode_slice_loop_agrees:
  "case decode_slice_loop bs offset ss i r of
     Inr y \<Rightarrow> try_decode_slice_loop bs offset ss i r = Inr y
   | Inl e \<Rightarrow> \<exists>m m'. e = Panic m \<and> try_decode_slice_loop bs offset ss i r = Inl (DataInvalid m')"
  by (induction bs offset ss i r rule: decode_slice_loop.induct)
     (auto simp: Let_def slice_get_def ok_or_def split: sum.splits)

lemma slice_readers_agree:
  "decode_var_int_from_slice bs offset = Inr y \<longleftrightarrow> try_decode_var_int_from_slice bs offset = Inr y"
  using try_decode_slice_loop_agrees [of bs offset "shifts 0 32" 0 0]
  unfolding decode_var_int_from_slice_def try_decode_var_int_from_slice_def by (auto split: sum.splits)

lemma slice_reader_errors:
  "decode_var_int_from_slice bs offset = Inl e \<Longrightarrow> \<exists>m. e = Panic m"
  "try_decode_var_int_from_slice bs offset = Inl e \<Longrightarrow> \<exists>m. e = DataInvalid m"
  using try_decode_slice_loop_agrees [of bs offset "shifts 0 32" 0 0]
  unfolding decode_var_int_from_slice_def try_decode_var_int_from_slice_def by (auto split: sum.splits)

lemma try_decode_var_int_from_slice_encode:
  "in_i32 x \<Longrightarrow> drop offset bs = encode_var_int x @ rest \<Longrightarrow>
   try_decode_var_int_from_slice bs offset = Inr (x, length (encode_var_int x))"
  using decode_var_int_from_slice_encode slice_readers_agree by blast

lemma length_encode_var_int: "1 \<le> length (encode_var_int x)" "length (encode_var_int x) \<le> 5"
proof -
  show "1 \<le> length (encode_var_int x)"
    using encode_loop_nonempty by (simp add: encode_var_int_def Suc_le_eq)
  have "nat (wrap_unsigned 32 x) < 128 ^ Suc 4"
    using wrap_unsigned_range(2) [of 32 x] by (simp add: nat_less_iff wrap_unsigned_range(1))
  then show "length (encode_var_int x) \<le> 5"
    unfolding encode_var_int_def by (drule_tac length_encode_loop) simp
qed

lemma length_encode_var_long:
  "1 \<le> length (encode_var_long x)" "0 \<le> x \<Longrightarrow> x \<le> i64_max \<Longrightarrow> length (encode_var_long x) \<le> 9"
proof -
  show "1 \<le> length (encode_var_long x)"
    using encode_loop_nonempty by (simp add: encode_var_long_def encode_long_loop_eq Suc_le_eq)
  assume "0 \<le> x" "x \<le> i64_max"
  then have "nat (wrap_unsigned 64 x) < 128 ^ Suc 8"
    by (simp add: nat_less_iff wrap_unsigned_def i64_max_def)
  then show "length (encode_var_long x) \<le> 9"
    unfolding encode_var_long_def encode_long_loop_eq by (drule_tac length_encode_loop) simp
qed

text \<open>A number written into a slice, wherever it has room.\<close>

lemma encode_var_int_to_slice_at:
  assumes "length (encode_var_int x) \<le> length buf"
  shows "encode_var_int_to_slice (pre @ buf) (length pre) x
    = Inr (pre @ encode_var_int x @ drop (length (encode_var_int x)) buf, length (encode_var_int x))"
  using encode_slice_loop_eq [of "length pre" 0 "nat (wrap_unsigned 32 x)" "pre @ buf"] assms
  by (simp add: encode_var_int_to_slice_def encode_var_int_def)

text \<open>The writer's five-byte buffer always has room.\<close>

lemma encode_var_int_to_slice_eq:
  assumes "5 \<le> length buf"
  shows "\<exists>buf'. encode_var_int_to_slice buf 0 x = Inr (buf', length (encode_var_int x))
    \<and> take (length (encode_var_int x)) buf' = encode_var_int x \<and> length buf' = length buf"
  using encode_var_int_to_slice_at [of x buf "[]"] assms length_encode_var_int(2) [of x] by simp

text \<open>How much a reader takes: one to five bytes, and the failure of a longer number.\<close>

lemma decode_slice_loop_consumes:
  "decode_slice_loop bs offset ss i r = Inr (x, n) \<Longrightarrow>
   i < n \<and> n \<le> i + length ss \<and> offset + n \<le> length bs"
  by (induction bs offset ss i r rule: decode_slice_loop.induct)
     (fastforce simp: Let_def split: if_splits)+

lemma length_shifts_32: "length (shifts 0 32) = 5"
  by (simp add: shifts.simps)

lemma decode_var_int_from_slice_consumes:
  "decode_var_int_from_slice bs offset = Inr (x, n) \<Longrightarrow> 1 \<le> n \<and> n \<le> 5 \<and> offset + n \<le> length bs"
  using decode_slice_loop_consumes
  by (fastforce simp: decode_var_int_from_slice_def length_shifts_32)

text \<open>
  What the slice readers are to find, without shifts and masks: the bytes up to the first below 128, which
  has to be among the first \<open>m\<close>, and their value as digits to the base 128, the lowest first.
\<close>

definition number_bytes :: "nat \<Rightarrow> bytes \<Rightarrow> bytes option" where
  "number_bytes m bs =
     (let n = length (takeWhile (\<lambda>b. 128 \<le> uint b) bs) in
      if n < m \<and> n < length bs then Some (take (Suc n) bs) else None)"

fun base_128 :: "bytes \<Rightarrow> int" where
  "base_128 [] = 0"
| "base_128 (b # bs) = uint b mod 128 + 128 * base_128 bs"

lemma number_bytes_simps [simp]:
  "number_bytes 0 bs = None" "number_bytes m [] = None"
  "number_bytes (Suc m) (b # bs) = (if uint b < 128 then Some [b] else map_option ((#) b) (number_bytes m bs))"
  by (simp_all add: number_bytes_def Let_def)

lemma or_shifted_wraps:
  assumes "0 \<le> r" "r < 2 ^ s" "s \<le> w"
  shows "or_shifted w r b s = r + (uint b mod 128) mod 2 ^ (w - s) * 2 ^ s"
proof -
  have "take_bit w (push_bit s (uint b mod 128)) = push_bit s ((uint b mod 128) mod 2 ^ (w - s))"
    by (simp only: take_bit_push_bit) (simp add: take_bit_eq_mod)
  then show ?thesis by (simp add: or_shifted_def low_bits int_or_shift assms)
qed

lemma wrap_signed_32_cong: "x mod 2 ^ 32 = y mod 2 ^ 32 \<Longrightarrow> wrap_signed 32 x = wrap_signed 32 y"
  unfolding wrap_signed_def by (metis mod_add_left_eq)

text \<open>One more byte: a byte at a shift below 28 adds its digit, and at 28 its digit up to the width.\<close>

lemma or_shifted_step:
  assumes "0 \<le> r" "r < 2 ^ s" "s \<le> 28"
  shows "0 \<le> or_shifted 32 r b s" "or_shifted 32 r b s < 2 ^ (s + 7)"
    "s \<le> 21 \<Longrightarrow> or_shifted 32 r b s = r + (uint b mod 128) * 2 ^ s"
    "wrap_signed 32 (or_shifted 32 r b s) = wrap_signed 32 (r + (uint b mod 128) * 2 ^ s)"
proof -
  let ?d = "uint b mod 128"
  have eq: "or_shifted 32 r b s = r + ?d mod 2 ^ (32 - s) * 2 ^ s" using or_shifted_wraps assms by simp
  have d: "0 \<le> ?d mod 2 ^ (32 - s)" "?d mod 2 ^ (32 - s) \<le> ?d" "?d \<le> 127"
    by (simp_all add: zmod_le_nonneg_dividend)
  show "0 \<le> or_shifted 32 r b s" unfolding eq using assms(1) d(1) by simp
  have "?d mod 2 ^ (32 - s) * 2 ^ s \<le> 127 * 2 ^ s" using d by (intro mult_right_mono) auto
  moreover have "(2 :: int) ^ (s + 7) = 128 * 2 ^ s" by (simp add: power_add)
  ultimately show "or_shifted 32 r b s < 2 ^ (s + 7)" unfolding eq using assms(2) by linarith
  show "or_shifted 32 r b s = r + ?d * 2 ^ s" if "s \<le> 21"
  proof -
    have "(2 :: int) ^ 11 \<le> 2 ^ (32 - s)" using that by (intro power_increasing) auto
    then have "?d < 2 ^ (32 - s)" using d(3) by simp
    then show ?thesis unfolding eq by simp
  qed
  have "(2 :: int) ^ 32 = 2 ^ (32 - s) * 2 ^ s" using assms(3) by (simp flip: power_add)
  then have "?d mod 2 ^ (32 - s) * 2 ^ s = (?d * 2 ^ s) mod 2 ^ 32" by (simp only: mod_mult_mult2)
  then show "wrap_signed 32 (or_shifted 32 r b s) = wrap_signed 32 (r + ?d * 2 ^ s)"
    unfolding eq by (intro wrap_signed_32_cong) (simp add: mod_add_right_eq)
qed

lemma decode_slice_loop_number:
  assumes "s + 7 * m = 35" "0 \<le> r" "r < 2 ^ s"
  shows "case number_bytes m (drop (offset + i) bs) of
      Some g \<Rightarrow> decode_slice_loop bs offset (shifts s 32) i r
        = Inr (wrap_signed 32 (r + base_128 g * 2 ^ s), i + length g)
    | None \<Rightarrow> \<exists>e. decode_slice_loop bs offset (shifts s 32) i r = Inl e"
  using assms
proof (induction m arbitrary: s r i)
  case 0
  then show ?case by (simp add: shifts.simps)
next
  case (Suc m)
  have s: "s \<le> 28" "shifts s 32 = s # shifts (s + 7) 32" using Suc.prems(1) by (simp_all add: shifts.simps [of s])
  show ?case
  proof (cases "length bs \<le> offset + i")
    case False
    let ?b = "bs ! (offset + i)"
    have d: "drop (offset + i) bs = ?b # drop (offset + (i + 1)) bs"
      using False Cons_nth_drop_Suc [of "offset + i" bs] by simp
    note step = or_shifted_step [OF Suc.prems(2,3) s(1), of ?b]
    show ?thesis
    proof (cases "uint ?b < 128")
      case True
      then show ?thesis using False s(2) step(4) unfolding d by (simp add: high_bit)
    next
      case big: False
      have run: "decode_slice_loop bs offset (shifts s 32) i r
          = decode_slice_loop bs offset (shifts (s + 7) 32) (i + 1) (or_shifted 32 r ?b s)"
        using False big s(2) by (simp add: high_bit)
      have IH: "case number_bytes m (drop (offset + (i + 1)) bs) of
          Some g \<Rightarrow> decode_slice_loop bs offset (shifts (s + 7) 32) (i + 1) (or_shifted 32 r ?b s)
            = Inr (wrap_signed 32 (or_shifted 32 r ?b s + base_128 g * 2 ^ (s + 7)), i + 1 + length g)
        | None \<Rightarrow> \<exists>e. decode_slice_loop bs offset (shifts (s + 7) 32) (i + 1) (or_shifted 32 r ?b s) = Inl e"
        using Suc.IH [of "s + 7" "or_shifted 32 r ?b s" "i + 1"] Suc.prems(1) step(1,2) by simp
      show ?thesis
      proof (cases "number_bytes m (drop (offset + (i + 1)) bs)")
        case None
        then show ?thesis unfolding run d using IH big by simp
      next
        case (Some g)
        then have "m \<noteq> 0" by (cases m) simp_all
        then have "s \<le> 21" using Suc.prems(1) by simp
        then have "or_shifted 32 r ?b s + base_128 g * 2 ^ (s + 7) = r + base_128 (?b # g) * 2 ^ s"
          using step(3) by (simp add: power_add algebra_simps)
        then show ?thesis unfolding run d using IH big Some by simp
      qed
    qed
  qed (simp add: s(2))
qed

section \<open>Properties\<close>

text \<open>C18. Variable-length integers round trip at both widths. Every non-negative \<^verbatim>\<open>i32\<close> is written in one to five
  bytes and every non-negative \<^verbatim>\<open>i64\<close> in one to nine; the stream readers give the value back and leave
  exactly the bytes that follow, the slice readers give the value and the number of bytes it took, wherever in
  the slice it stands, and the slice writer puts the same bytes at its offset and changes no others.\<close>

theorem var_len_round_trip:
  assumes "0 \<le> x" "x \<le> i32_max" "0 \<le> y" "y \<le> i64_max" "5 \<le> length buf"
  shows "decode_var_int (encode_var_int x @ rest) = Inr (x, rest)
    \<and> decode_var_long (encode_var_long y @ rest) = Inr (y, rest)
    \<and> decode_var_int_from_slice (pre @ encode_var_int x @ rest) (length pre)
         = Inr (x, length (encode_var_int x))
    \<and> try_decode_var_int_from_slice (pre @ encode_var_int x @ rest) (length pre)
         = Inr (x, length (encode_var_int x))
    \<and> encode_var_int_to_slice (pre @ buf) (length pre) x
         = Inr (pre @ encode_var_int x @ drop (length (encode_var_int x)) buf, length (encode_var_int x))
    \<and> length (encode_var_int x) \<in> {1..5} \<and> length (encode_var_long y) \<in> {1..9}"
proof -
  have "in_i32 x" "in_i64 y" using assms(1-4) by (simp_all add: int_range_simps)
  moreover have "length (encode_var_int x) \<le> length buf"
    using length_encode_var_int(2) [of x] assms(5) by linarith
  ultimately show ?thesis
    using length_encode_var_int [of x] length_encode_var_long [of y] assms(3,4)
    by (simp add: var_int_codec.dec_enc var_long_codec.dec_enc decode_var_int_from_slice_encode
        try_decode_var_int_from_slice_encode encode_var_int_to_slice_at)
qed

theorem var_len_round_trip_witness:
  "encode_var_int 300 = [0xAC, 2] \<and> decode_var_int [0xAC, 2, 7] = Inr (300, [7])
   \<and> decode_var_int_from_slice [1, 0xAC, 2, 7] 1 = Inr (300, 2)
   \<and> encode_var_int_to_slice [1, 0, 0, 0, 0, 0] 1 300 = Inr ([1, 0xAC, 2, 0, 0, 0], 2)
   \<and> decode_var_long (encode_var_long 9223372036854775807 @ [7]) = Inr (9223372036854775807, [7])"
proof -
  have e: "encode_var_int 300 = [0xAC, 2]" by code_simp
  show ?thesis
    using var_len_round_trip [of 300 9223372036854775807 "[0, 0, 0, 0, 0]" "[7]" "[1]"]
    by (simp add: e int_range_simps)
qed

text \<open>C20. Reading a key written for another column type cannot crash the query. On any bytes at any offset, if one
  of the next five bytes is below 128, both slice readers return the bytes up to the first such as a number to
  the base 128, lowest digit first, wrapped to an \<^verbatim>\<open>i32\<close>, and how many bytes it has; otherwise
  \<^verbatim>\<open>decode_var_int_from_slice\<close> panics and \<^verbatim>\<open>try_decode_var_int_from_slice\<close> returns a \<^verbatim>\<open>DataInvalid\<close> error.\<close>

theorem try_decode_var_int_total:
  "case number_bytes 5 (drop offset bs) of
     Some g \<Rightarrow> decode_var_int_from_slice bs offset = Inr (wrap_signed 32 (base_128 g), length g)
       \<and> try_decode_var_int_from_slice bs offset = Inr (wrap_signed 32 (base_128 g), length g)
   | None \<Rightarrow> (\<exists>m m'. decode_var_int_from_slice bs offset = Inl (Panic m)
       \<and> try_decode_var_int_from_slice bs offset = Inl (DataInvalid m'))"
proof (cases "number_bytes 5 (drop offset bs)")
  case None
  then have "\<exists>e. decode_var_int_from_slice bs offset = Inl e"
    using decode_slice_loop_number [where s = 0 and m = 5 and r = 0 and offset = offset and i = 0 and bs = bs] by (simp add: decode_var_int_from_slice_def)
  then show ?thesis
    using None try_decode_slice_loop_agrees [of bs offset "shifts 0 32" 0 0]
    by (auto simp: decode_var_int_from_slice_def try_decode_var_int_from_slice_def)
next
  case (Some g)
  then have "decode_var_int_from_slice bs offset = Inr (wrap_signed 32 (base_128 g), length g)"
    using decode_slice_loop_number [where s = 0 and m = 5 and r = 0 and offset = offset and i = 0 and bs = bs] by (simp add: decode_var_int_from_slice_def)
  then show ?thesis using Some slice_readers_agree by simp
qed

end
