(* ===== verification/Sst_Block.thy ===== *)
theory Sst_Block
  imports Var_Len
begin

text \<open>
  \<^verbatim>\<open>crates/paimon/src/btree/block.rs\<close>: the blocks of an index file. Block compression with its Java
  envelope, the trailer and the handle of a block, \<open>block_writer\<close> (\<^verbatim>\<open>BlockWriter\<close>), \<open>block_reader\<close>
  (\<^verbatim>\<open>BlockReader\<close>) with its binary search, and \<open>block_iter\<close> (\<^verbatim>\<open>BlockIter\<close>). The compression crates and
  \<^verbatim>\<open>crc32fast\<close> are the parameter \<open>codecs\<close>; \<open>codecs_ok\<close> is what the code relies on: decompressing with
  the original size gives the original bytes, a non-empty input compresses to a non-empty output,
  a checksum is a \<^verbatim>\<open>u32\<close>.
\<close>

section \<open>Compression\<close>

record codecs =
  zstd_compress :: "bytes \<Rightarrow> int \<Rightarrow> bytes result"
  zstd_decompress_to_buffer :: "bytes \<Rightarrow> nat \<Rightarrow> bytes result"
  lz4_compress :: "bytes \<Rightarrow> bytes"
  lz4_decompress :: "bytes \<Rightarrow> nat \<Rightarrow> bytes result"
  lzo_compress :: "bytes \<Rightarrow> bytes result"
  lzo_decompress_all :: "bytes \<Rightarrow> nat \<Rightarrow> bytes result"
  crc32 :: "bytes \<Rightarrow> int"

definition codecs_ok :: "codecs \<Rightarrow> bool" where
  "codecs_ok K \<longleftrightarrow>
     (\<forall>d level c. zstd_compress K d level = Inr c \<longrightarrow> zstd_decompress_to_buffer K c (length d) = Inr d)
     \<and> (\<forall>d. lz4_decompress K (lz4_compress K d) (length d) = Inr d \<and> (d \<noteq> [] \<longrightarrow> lz4_compress K d \<noteq> []))
     \<and> (\<forall>d c. lzo_compress K d = Inr c \<longrightarrow>
          lzo_decompress_all K c (length d) = Inr d \<and> (d \<noteq> [] \<longrightarrow> c \<noteq> []))
     \<and> (\<forall>d. 0 \<le> crc32 K d \<and> crc32 K d < 2 ^ 32)"

text \<open>An instance: copying codecs and the byte sum as checksum.\<close>

definition copy_codecs :: codecs where
  "copy_codecs = \<lparr>
     zstd_compress = (\<lambda>d level. Inr d), zstd_decompress_to_buffer = (\<lambda>c n. Inr c),
     lz4_compress = (\<lambda>d. d), lz4_decompress = (\<lambda>c n. Inr c),
     lzo_compress = (\<lambda>d. Inr d), lzo_decompress_all = (\<lambda>c n. Inr c),
     crc32 = (\<lambda>d. sum_list (map uint d) mod 2 ^ 32) \<rparr>"

lemma copy_codecs_ok: "codecs_ok copy_codecs"
  by (simp add: codecs_ok_def copy_codecs_def)

datatype compression_type = CompressNone | Zstd | Lz4 | Lzo

fun compression_id :: "compression_type \<Rightarrow> byte" where
  "compression_id CompressNone = 0"
| "compression_id Zstd = 1"
| "compression_id Lz4 = 2"
| "compression_id Lzo = 3"

definition from_persistent_id :: "byte \<Rightarrow> compression_type result" where
  "from_persistent_id b =
     (if b = 0 then Inr CompressNone else if b = 1 then Inr Zstd else if b = 2 then Inr Lz4
      else if b = 3 then Inr Lzo else Inl (IoError ''Unknown compression type''))"

definition block_length :: "nat \<Rightarrow> int result" where
  "block_length len =
     (if int len \<le> i32_max then Inr (int len) else Inl (IoError ''Block is larger than i32::MAX''))"

text \<open>The bytes \<^verbatim>\<open>append_codec_envelope\<close> appends.\<close>

definition java_header :: "bytes \<Rightarrow> bytes \<Rightarrow> bytes result" where
  "java_header payload data =
     (if int (length payload) \<le> i32_max then
        and_then (block_length (length data)) (\<lambda>n.
          Inr (to_le 4 (int (length payload)) @ to_le 4 n @ payload))
      else Inl (IoError ''Compressed block is larger than i32::MAX''))"

definition append_codec_envelope :: "codecs \<Rightarrow> bytes \<Rightarrow> compression_type \<Rightarrow> int \<Rightarrow> bytes result" where
  "append_codec_envelope K data ct level =
     (case ct of
        CompressNone \<Rightarrow> Inl (Panic ''callers handle None'')
      | Zstd \<Rightarrow> zstd_compress K data level
      | Lz4 \<Rightarrow> java_header (lz4_compress K data) data
      | Lzo \<Rightarrow> and_then (lzo_compress K data) (\<lambda>payload. java_header payload data))"

definition retain_if_smaller :: "bytes \<Rightarrow> bytes \<Rightarrow> compression_type \<Rightarrow> bytes \<times> compression_type" where
  "retain_if_smaller encoded data ct =
     (if length encoded < length data - length data div 8 then (encoded, ct) else (data, CompressNone))"

definition compress_block :: "codecs \<Rightarrow> bytes \<Rightarrow> compression_type \<Rightarrow> int \<Rightarrow> (bytes \<times> compression_type) result" where
  "compress_block K data ct level =
     (if ct = CompressNone then Inr (data, CompressNone)
      else and_then (block_length (length data)) (\<lambda>n.
        and_then (append_codec_envelope K data ct level) (\<lambda>env.
          Inr (retain_if_smaller (encode_var_int n @ env) data ct))))"

definition compress_codec_block :: "codecs \<Rightarrow> bytes \<Rightarrow> compression_type \<Rightarrow> int \<Rightarrow> (bytes \<times> compression_type) result" where
  "compress_codec_block K data ct level =
     (if ct = CompressNone then Inr (data, CompressNone)
      else and_then (append_codec_envelope K data ct level) (\<lambda>env.
        Inr (retain_if_smaller env data ct)))"

text \<open>\<^verbatim>\<open>usize::try_from\<close> of the two header lengths fails on a negative one.\<close>

definition decompress_java_header_block :: "codecs \<Rightarrow> bytes \<Rightarrow> nat \<Rightarrow> compression_type \<Rightarrow> bytes result" where
  "decompress_java_header_block K block expected_size ct =
     (if length block < 8 then Inl (IoError ''Compressed block is shorter than the Java codec header'')
      else
        let compressed_len = wrap_signed 32 (from_le (take 4 block));
            original_len = wrap_signed 32 (from_le (take 4 (drop 4 block))) in
        if 0 \<le> compressed_len \<and> 0 \<le> original_len \<and> original_len = int expected_size
           \<and> compressed_len \<le> int (length block - 8) \<and> (original_len = 0) = (compressed_len = 0)
        then
          let payload = take (nat compressed_len) (drop 8 block) in
          and_then
            (case ct of
               Lz4 \<Rightarrow> lz4_decompress K payload (nat original_len)
             | Lzo \<Rightarrow> lzo_decompress_all K payload (nat original_len)
             | _ \<Rightarrow> Inl (Panic ''only Java header codecs use this decoder''))
            (\<lambda>decompressed.
               if int (length decompressed) \<noteq> original_len
               then Inl (IoError ''Block decompressed size mismatch'') else Inr decompressed)
        else Inl (IoError ''Invalid Java LZ4/LZO block lengths''))"

definition decompress_codec_payload :: "codecs \<Rightarrow> bytes \<Rightarrow> compression_type \<Rightarrow> nat \<Rightarrow> bytes result" where
  "decompress_codec_payload K compressed ct uncompressed_size =
     (case ct of
        CompressNone \<Rightarrow> Inl (Panic ''callers handle None'')
      | Zstd \<Rightarrow>
          and_then (zstd_decompress_to_buffer K compressed uncompressed_size) (\<lambda>decompressed.
            if length decompressed \<noteq> uncompressed_size
            then Inl (IoError ''Block decompressed size mismatch'') else Inr decompressed)
      | _ \<Rightarrow> decompress_java_header_block K compressed uncompressed_size ct)"

definition decompress_block :: "codecs \<Rightarrow> bytes \<Rightarrow> compression_type \<Rightarrow> bytes result" where
  "decompress_block K data ct =
     (if ct = CompressNone then Inr data
      else and_then (decode_var_int data) (\<lambda>(n, rest).
        if n < 0 then Inl (IoError ''Invalid negative uncompressed block size'')
        else decompress_codec_payload K rest ct (nat n)))"

definition decompress_codec_block :: "codecs \<Rightarrow> bytes \<Rightarrow> compression_type \<Rightarrow> nat \<Rightarrow> bytes result" where
  "decompress_codec_block K data ct uncompressed_size =
     (if ct = CompressNone then
        if uncompressed_size \<noteq> length data
        then Inl (IoError ''Uncompressed block size does not match its metadata'') else Inr data
      else decompress_codec_payload K data ct uncompressed_size)"

section \<open>Trailer and handle\<close>

datatype aligned_type = AlignedBlock | UnalignedBlock

definition aligned_from_byte :: "byte \<Rightarrow> aligned_type result" where
  "aligned_from_byte b =
     (if b = 0 then Inr AlignedBlock else if b = 1 then Inr UnalignedBlock
      else Inl (IoError ''Unknown aligned type''))"

record block_trailer =
  trailer_compression :: compression_type
  trailer_crc :: int

definition trailer_to_bytes :: "block_trailer \<Rightarrow> bytes" where
  "trailer_to_bytes t = compression_id (trailer_compression t) # to_le 4 (trailer_crc t)"

definition trailer_read_from :: "bytes \<Rightarrow> block_trailer result" where
  "trailer_read_from data =
     (if length data < 5 then Inl (IoError ''Block trailer too short'')
      else and_then (from_persistent_id (data ! 0)) (\<lambda>ct.
        Inr \<lparr>trailer_compression = ct, trailer_crc = from_le (take 4 (drop 1 data))\<rparr>))"

definition compute_crc32 :: "codecs \<Rightarrow> bytes \<Rightarrow> compression_type \<Rightarrow> int" where
  "compute_crc32 K data ct = crc32 K (data @ [compression_id ct])"

record block_handle =
  handle_offset :: int
  handle_size :: int

definition full_block_size :: "block_handle \<Rightarrow> int" where
  "full_block_size h = wrap_unsigned 32 (handle_size h + 5)"

definition handle_encode :: "block_handle \<Rightarrow> bytes" where
  "handle_encode h =
     encode_var_long (wrap_signed 64 (handle_offset h)) @ encode_var_int (wrap_signed 32 (handle_size h))"

definition handle_read_from :: "bytes \<Rightarrow> (block_handle \<times> bytes) result" where
  "handle_read_from bs =
     and_then (decode_var_long bs) (\<lambda>(offset, bs').
       and_then (decode_var_int bs') (\<lambda>(n, rest).
         Inr (\<lparr>handle_offset = wrap_unsigned 64 offset, handle_size = wrap_unsigned 32 n\<rparr>, rest)))"

definition handle_decode :: "bytes \<Rightarrow> block_handle result" where
  "handle_decode bs = and_then (handle_read_from bs) (\<lambda>(h, rest). Inr h)"

text \<open>\<^verbatim>\<open>encode_to_buf\<close> writes into fourteen bytes and unwraps; the result is the filled part.\<close>

definition encode_to_buf :: "block_handle \<Rightarrow> bytes result" where
  "encode_to_buf h =
     (if 14 < length (handle_encode h) then Inl (Panic ''failed to write whole buffer'')
      else Inr (handle_encode h))"

section \<open>Writer\<close>

record block_writer =
  bw_data :: bytes
  bw_positions :: "int list"
  bw_aligned_size :: int
  bw_aligned :: bool

definition block_writer_new :: block_writer where
  "block_writer_new = \<lparr>bw_data = [], bw_positions = [], bw_aligned_size = 0, bw_aligned = True\<rparr>"

text \<open>The filled prefix of the five-byte \<^verbatim>\<open>var_buf\<close>.\<close>

definition var_buf :: "int \<Rightarrow> bytes" where
  "var_buf x =
     (case encode_var_int_to_slice (replicate 5 0) 0 x of Inr (buf, n) \<Rightarrow> take n buf | Inl _ \<Rightarrow> [])"

definition as_i32 :: "nat \<Rightarrow> int" where "as_i32 n = wrap_signed 32 (int n)"

definition bw_add :: "block_writer \<Rightarrow> bytes \<Rightarrow> bytes \<Rightarrow> block_writer" where
  "bw_add w key val =
     (let start = as_i32 (length (bw_data w));
          data = bw_data w @ var_buf (as_i32 (length key)) @ key
                   @ var_buf (as_i32 (length val)) @ val;
          e = as_i32 (length data);
          w = w\<lparr>bw_data := data, bw_positions := bw_positions w @ [start]\<rparr> in
      if bw_aligned w then
        let current_size = wrap_signed 32 (e - start) in
        if bw_aligned_size w = 0 then w\<lparr>bw_aligned_size := current_size\<rparr>
        else w\<lparr>bw_aligned := (bw_aligned_size w = current_size)\<rparr>
      else w)"

definition bw_entry_count :: "block_writer \<Rightarrow> nat" where
  "bw_entry_count w = length (bw_positions w)"

definition bw_memory :: "block_writer \<Rightarrow> nat" where
  "bw_memory w =
     length (bw_data w) + 5 + (if bw_aligned w then 0 else length (bw_positions w) * 4)"

definition bw_reset :: "block_writer \<Rightarrow> block_writer" where
  "bw_reset w = w\<lparr>bw_data := [], bw_positions := [], bw_aligned_size := 0, bw_aligned := True\<rparr>"

definition bw_finish :: "block_writer \<Rightarrow> bytes \<times> block_writer" where
  "bw_finish w =
     (let w = (if bw_positions w = [] then w\<lparr>bw_aligned := False\<rparr> else w);
          index = (if bw_aligned w then to_le 4 (bw_aligned_size w)
                   else concat (map (to_le 4) (bw_positions w)) @ to_le 4 (as_i32 (length (bw_positions w))));
          block = bw_data w @ index @ [if bw_aligned w then 0 else 1] in
      (block, bw_reset w))"

section \<open>Reader\<close>

datatype seek_info = SeekAligned nat | SeekUnaligned "int list"

record block_reader =
  br_data :: bytes
  br_record_count :: nat
  br_seek_info :: seek_info

text \<open>A negative \<^verbatim>\<open>i32\<close> cast to \<^verbatim>\<open>usize\<close>.\<close>

definition as_usize :: "int \<Rightarrow> nat" where "as_usize x = nat (wrap_unsigned 64 x)"

text \<open>
  Too short a block, or an entry count whose index does not fit, indexes out of bounds: a panic.
\<close>

definition create_from_vec :: "bytes \<Rightarrow> block_reader result" where
  "create_from_vec block =
     (if block = [] then
        Inr \<lparr>br_data = [], br_record_count = 0, br_seek_info = SeekUnaligned []\<rparr>
      else
        and_then (aligned_from_byte (last block)) (\<lambda>at.
          if length block < 5 then Inl (Panic ''index out of bounds'')
          else
            let data_len = length block - 5;
                int_value = wrap_signed 32 (from_le (take 4 (drop data_len block))) in
            case at of
              AlignedBlock \<Rightarrow>
                let record_size = as_usize int_value in
                Inr \<lparr>br_data = take data_len block,
                     br_record_count = (if record_size = 0 then 0 else data_len div record_size),
                     br_seek_info = SeekAligned record_size\<rparr>
            | UnalignedBlock \<Rightarrow>
                let num_entries = as_usize int_value in
                if data_len < num_entries * 4 then Inl (Panic ''index out of bounds'')
                else
                  let data_end = data_len - num_entries * 4 in
                  Inr \<lparr>br_data = take data_end block,
                       br_record_count = num_entries,
                       br_seek_info = SeekUnaligned (map (\<lambda>i.
                          wrap_signed 32 (from_le (take 4 (drop (data_end + i * 4) block))))
                          [0..<num_entries])\<rparr>))"

definition seek_to_position :: "block_reader \<Rightarrow> nat \<Rightarrow> nat result" where
  "seek_to_position br record_pos =
     (case br_seek_info br of
        SeekAligned record_size \<Rightarrow> Inr (record_pos * record_size)
      | SeekUnaligned offsets \<Rightarrow>
          if record_pos < length offsets then Inr (as_usize (offsets ! record_pos))
          else Inl (Panic ''index out of bounds''))"

text \<open>\<^verbatim>\<open>&data[start..start + len as usize]\<close>; out of range is a panic.\<close>

definition slice_len :: "bytes \<Rightarrow> nat \<Rightarrow> int \<Rightarrow> bytes result" where
  "slice_len data start len =
     (if 0 \<le> len \<and> start + nat len \<le> length data then Inr (take (nat len) (drop start data))
      else Inl (Panic ''range out of bounds''))"

definition read_key_at :: "block_reader \<Rightarrow> nat \<Rightarrow> (bytes \<times> nat) result" where
  "read_key_at br offset =
     and_then (decode_var_int_from_slice (br_data br) offset) (\<lambda>(key_len, consumed).
       let key_start = offset + consumed in
       and_then (slice_len (br_data br) key_start key_len) (\<lambda>key.
         let val_offset = key_start + nat key_len in
         and_then (decode_var_int_from_slice (br_data br) val_offset) (\<lambda>(val_len, consumed2).
           Inr (key, nat (wrap_unsigned 64 (int (val_offset + consumed2) + val_len))))))"

definition read_entry_at :: "block_reader \<Rightarrow> nat \<Rightarrow> (bytes \<times> bytes \<times> nat) result" where
  "read_entry_at br offset =
     and_then (decode_var_int_from_slice (br_data br) offset) (\<lambda>(key_len, consumed).
       let key_start = offset + consumed in
       and_then (slice_len (br_data br) key_start key_len) (\<lambda>key.
         let val_offset = key_start + nat key_len in
         and_then (decode_var_int_from_slice (br_data br) val_offset) (\<lambda>(val_len, consumed2).
           let val_start = val_offset + consumed2 in
           and_then (slice_len (br_data br) val_start val_len) (\<lambda>val.
             Inr (key, val, val_start + nat val_len)))))"

record block_iter =
  bi_offset :: nat
  bi_index :: nat

text \<open>The binary search of \<^verbatim>\<open>seek_and_iter\<close>: \<open>found\<close> and the best index and offset so far.\<close>

type_synonym key_cmp = "bytes \<Rightarrow> bytes \<Rightarrow> ordering result"

function seek_loop :: "block_reader \<Rightarrow> bytes \<Rightarrow> key_cmp \<Rightarrow> int \<Rightarrow> int \<Rightarrow> (nat \<times> nat) option
    \<Rightarrow> (bool \<times> (nat \<times> nat) option) result" where
  "seek_loop br target c left right best =
     (if left \<le> right then
        let mid = left + (right - left) div 2 in
        and_then (seek_to_position br (nat mid)) (\<lambda>byte_offset.
          and_then (read_key_at br byte_offset) (\<lambda>(key, next_offset).
            and_then (c key target) (\<lambda>r.
              case r of
                Equal \<Rightarrow> Inr (True, Some (nat mid, byte_offset))
              | Greater \<Rightarrow> seek_loop br target c left (mid - 1) (Some (nat mid, byte_offset))
              | Less \<Rightarrow> seek_loop br target c (mid + 1) right best)))
      else Inr (False, best))"
  by pat_completeness auto
termination
  by (relation "measure (\<lambda>(br, target, c, left, right, best). nat (right - left + 1))") auto

declare seek_loop.simps [simp del]

definition seek_and_iter :: "block_reader \<Rightarrow> bytes \<Rightarrow> key_cmp \<Rightarrow> (bool \<times> block_iter) result" where
  "seek_and_iter br target c =
     and_then (seek_loop br target c 0 (as_i32 (br_record_count br) - 1) None) (\<lambda>(found, best).
       case best of
         Some (idx, off) \<Rightarrow> Inr (found, \<lparr>bi_offset = off, bi_index = idx\<rparr>)
       | None \<Rightarrow> Inr (False, \<lparr>bi_offset = length (br_data br), bi_index = br_record_count br\<rparr>))"

definition iter_has_next :: "block_reader \<Rightarrow> block_iter \<Rightarrow> bool" where
  "iter_has_next br it \<longleftrightarrow> bi_index it < br_record_count br \<and> bi_offset it < length (br_data br)"

definition iter_next :: "block_reader \<Rightarrow> block_iter \<Rightarrow> ((bytes \<times> bytes) option \<times> block_iter) result" where
  "iter_next br it =
     (if iter_has_next br it then
        and_then (read_entry_at br (bi_offset it)) (\<lambda>(key, val, next_offset).
          Inr (Some (key, val), \<lparr>bi_offset = next_offset, bi_index = bi_index it + 1\<rparr>))
      else Inr (None, it))"

end
