(* ===== verification/Sst_Block_Laws.thy ===== *)
theory Sst_Block_Laws
  imports Sst_Block
begin

text \<open>
  The laws of the block layer: compression, trailers and handles round trip, a finished block reads
  back as the entries that were added (\<open>reads\<close>), and the binary search finds the lower bound.
\<close>

section \<open>Compression\<close>

lemma from_le_4 [simp]: "0 \<le> x \<Longrightarrow> x \<le> i32_max \<Longrightarrow> wrap_signed 32 (from_le (to_le 4 x)) = x"
  by (simp add: from_to_le int_range_simps)

lemma java_header_round_trip:
  assumes "java_header payload data = Inr env" "data \<noteq> []" "payload \<noteq> []"
    "ct = Lz4 \<Longrightarrow> lz4_decompress K payload (length data) = Inr data"
    "ct = Lzo \<Longrightarrow> lzo_decompress_all K payload (length data) = Inr data" "ct = Lz4 \<or> ct = Lzo"
  shows "decompress_java_header_block K env (length data) ct = Inr data"
  using assms
  by (auto simp: java_header_def block_length_def decompress_java_header_block_def Let_def
      split: if_splits)

lemma envelope_round_trip:
  assumes "codecs_ok K" "append_codec_envelope K data ct level = Inr env" "data \<noteq> []" "ct \<noteq> CompressNone"
  shows "decompress_codec_payload K env ct (length data) = Inr data"
  using assms java_header_round_trip [of _ data env ct K]
  by (cases ct) (auto simp: append_codec_envelope_def decompress_codec_payload_def codecs_ok_def result_simps)

lemma retain_nonempty: "retain_if_smaller encoded data ct = (c, ct') \<Longrightarrow> ct' \<noteq> CompressNone \<Longrightarrow> data \<noteq> []"
  by (auto simp: retain_if_smaller_def split: if_splits)

lemma compress_block_round_trip:
  assumes "codecs_ok K" "compress_block K data ct level = Inr (c, ct')"
  shows "decompress_block K c ct' = Inr data"
proof (cases "ct' = CompressNone")
  case True
  then show ?thesis
    using assms(2) by (auto simp: compress_block_def decompress_block_def retain_if_smaller_def
        result_simps split: if_splits)
next
  case False
  then obtain n env where n: "block_length (length data) = Inr n"
    and env: "append_codec_envelope K data ct level = Inr env" and ct: "ct \<noteq> CompressNone"
    and r: "retain_if_smaller (encode_var_int n @ env) data ct = (c, ct')"
    using assms(2) by (auto simp: compress_block_def result_simps split: if_splits)
  have "ct' = ct" "c = encode_var_int n @ env"
    using r False by (auto simp: retain_if_smaller_def split: if_splits)
  moreover have "n = int (length data)" "in_i32 n"
    using n by (auto simp: block_length_def int_range_simps split: if_splits)
  ultimately show ?thesis
    using False envelope_round_trip [OF assms(1) env retain_nonempty [OF r False] ct]
    by (simp add: decompress_block_def var_int_codec.dec_enc)
qed

lemma compress_codec_block_round_trip:
  assumes "codecs_ok K" "compress_codec_block K data ct level = Inr (c, ct')"
  shows "decompress_codec_block K c ct' (length data) = Inr data"
proof (cases "ct' = CompressNone")
  case True
  then show ?thesis
    using assms(2) by (auto simp: compress_codec_block_def decompress_codec_block_def
        retain_if_smaller_def result_simps split: if_splits)
next
  case False
  then obtain env where env: "append_codec_envelope K data ct level = Inr env" and ct: "ct \<noteq> CompressNone"
    and r: "retain_if_smaller env data ct = (c, ct')"
    using assms(2) by (auto simp: compress_codec_block_def result_simps split: if_splits)
  have "ct' = ct" "c = env" using r False by (auto simp: retain_if_smaller_def split: if_splits)
  then show ?thesis
    using False envelope_round_trip [OF assms(1) env retain_nonempty [OF r False] ct]
    by (simp add: decompress_codec_block_def)
qed

lemma compressed_length: "compress_block K data ct level = Inr (c, ct') \<Longrightarrow> length c \<le> length data"
  by (auto simp: compress_block_def retain_if_smaller_def result_simps split: if_splits)

lemma compressed_codec_length: "compress_codec_block K data ct level = Inr (d, dt) \<Longrightarrow> length d \<le> length data"
  by (auto simp: compress_codec_block_def retain_if_smaller_def result_simps split: if_splits)

section \<open>Trailer and handle\<close>

lemma from_compression_id [simp]: "from_persistent_id (compression_id ct) = Inr ct"
  by (cases ct) (simp_all add: from_persistent_id_def)

lemma trailer_round_trip:
  assumes "0 \<le> trailer_crc t" "trailer_crc t < 2 ^ 32"
  shows "trailer_read_from (trailer_to_bytes t) = Inr t" "length (trailer_to_bytes t) = 5"
  using assms by (simp_all add: trailer_read_from_def trailer_to_bytes_def from_to_le)

definition handle_ok :: "block_handle \<Rightarrow> bool" where
  "handle_ok h \<longleftrightarrow> in_u64 (handle_offset h) \<and> 0 \<le> handle_size h \<and> handle_size h < 2 ^ 32"

lemma wrap_cast_unsigned:
  "in_u64 x \<Longrightarrow> wrap_unsigned 64 (wrap_signed 64 x) = x"
  "0 \<le> x \<Longrightarrow> x < 2 ^ 32 \<Longrightarrow> wrap_unsigned 32 (wrap_signed 32 x) = x"
  by (simp_all add: wrap_signed_def wrap_unsigned_def mod_simps int_range_simps)

interpretation handle_codec: byte_codec handle_encode handle_read_from handle_ok
proof
  fix h rest
  assume "handle_ok h"
  then show "handle_read_from (handle_encode h @ rest) = Inr (h, rest)"
    by (simp add: handle_read_from_def handle_encode_def var_long_codec.dec_enc var_int_codec.dec_enc
        wrap_signed_64_in wrap_signed_32_in handle_ok_def wrap_cast_unsigned)
qed

lemma handle_decode_encode: "handle_ok h \<Longrightarrow> handle_decode (handle_encode h) = Inr h"
  by (simp add: handle_decode_def handle_codec.dec_enc_all)

text \<open>Below \<^verbatim>\<open>i64::MAX\<close> the encoded handle fits its fourteen bytes.\<close>

lemma encode_to_buf_ok:
  assumes "0 \<le> handle_offset h" "handle_offset h \<le> i64_max"
  shows "encode_to_buf h = Inr (handle_encode h)"
proof -
  have "wrap_signed 64 (handle_offset h) = handle_offset h"
    using assms by (intro wrap_signed_64) (simp add: int_range_simps)
  then have "length (handle_encode h) \<le> 9 + 5"
    unfolding handle_encode_def length_append
    using length_encode_var_long(2) [OF assms] length_encode_var_int(2) by (intro add_mono) simp_all
  then show ?thesis by (simp add: encode_to_buf_def)
qed

section \<open>Writing a block\<close>

lemma var_buf_eq [simp]: "var_buf x = encode_var_int x"
  using encode_var_int_to_slice_eq [of "replicate 5 0" x] by (auto simp: var_buf_def)

definition entry_bytes :: "bytes \<times> bytes \<Rightarrow> bytes" where
  "entry_bytes e = encode_var_int (as_i32 (length (fst e))) @ fst e
     @ encode_var_int (as_i32 (length (snd e))) @ snd e"

definition entries_bytes :: "(bytes \<times> bytes) list \<Rightarrow> bytes" where
  "entries_bytes es = concat (map entry_bytes es)"

definition offset_of :: "(bytes \<times> bytes) list \<Rightarrow> nat \<Rightarrow> nat" where
  "offset_of es i = length (entries_bytes (take i es))"

lemma entries_bytes_simps [simp]:
  "entries_bytes [] = []"
  "entries_bytes (e # es) = entry_bytes e @ entries_bytes es"
  "entries_bytes (es @ fs) = entries_bytes es @ entries_bytes fs"
  by (simp_all add: entries_bytes_def)

lemma entry_bytes_long: "2 \<le> length (entry_bytes e)"
  using length_encode_var_int(1) [of "as_i32 (length (fst e))"]
    length_encode_var_int(1) [of "as_i32 (length (snd e))"]
  by (simp add: entry_bytes_def)

lemma as_i32_small [simp]: "int n \<le> i32_max \<Longrightarrow> as_i32 n = int n"
  by (simp add: as_i32_def int_range_simps)

definition same_sizes :: "(bytes \<times> bytes) list \<Rightarrow> int \<Rightarrow> bool" where
  "same_sizes es n \<longleftrightarrow> (\<forall>e \<in> set es. int (length (entry_bytes e)) = n)"

definition block_inv :: "block_writer \<Rightarrow> (bytes \<times> bytes) list \<Rightarrow> bool" where
  "block_inv w es \<longleftrightarrow> bw_data w = entries_bytes es
     \<and> bw_positions w = map (\<lambda>i. as_i32 (offset_of es i)) [0..<length es]
     \<and> (int (length (entries_bytes es)) \<le> i32_max \<longrightarrow> bw_aligned w \<longrightarrow>
          same_sizes es (bw_aligned_size w) \<and> (bw_aligned_size w = 0 \<longleftrightarrow> es = []))"

lemma block_inv_new: "block_inv block_writer_new []"
  by (simp add: block_inv_def block_writer_new_def same_sizes_def)

lemma block_inv_reset: "block_inv (bw_reset w) []"
  by (simp add: block_inv_def bw_reset_def same_sizes_def)

lemma offset_of_append: "i \<le> length es \<Longrightarrow> offset_of (es @ fs) i = offset_of es i"
  by (simp add: offset_of_def)

lemma bw_add_fields:
  assumes "bw_data w = entries_bytes es"
  shows "bw_data (bw_add w key val) = entries_bytes (es @ [(key, val)])"
    and "bw_positions (bw_add w key val) = bw_positions w @ [as_i32 (length (entries_bytes es))]"
    and "bw_aligned (bw_add w key val) \<Longrightarrow> bw_aligned w"
    and "bw_aligned (bw_add w key val) \<Longrightarrow>
      int (length (entries_bytes (es @ [(key, val)]))) \<le> i32_max \<Longrightarrow>
      bw_aligned_size (bw_add w key val) = int (length (entry_bytes (key, val)))
      \<and> (bw_aligned_size w = 0 \<or> bw_aligned_size w = bw_aligned_size (bw_add w key val))"
proof -
  let ?e = "entry_bytes (key, val)" and ?n = "length (entries_bytes es)"
  have data: "bw_data w @ var_buf (as_i32 (length key)) @ key @ var_buf (as_i32 (length val)) @ val
      = entries_bytes es @ ?e" by (simp add: assms entry_bytes_def)
  note add = bw_add_def [of w key val, unfolded data Let_def]
  show "bw_data (bw_add w key val) = entries_bytes (es @ [(key, val)])"
    and "bw_positions (bw_add w key val) = bw_positions w @ [as_i32 (length (entries_bytes es))]"
    by (simp_all add: add assms)
  show "bw_aligned (bw_add w key val) \<Longrightarrow> bw_aligned w"
    by (simp add: add split: if_splits)
  assume al: "bw_aligned (bw_add w key val)"
    and "int (length (entries_bytes (es @ [(key, val)]))) \<le> i32_max"
  then have "wrap_signed 32 (as_i32 (?n + length ?e) - as_i32 ?n) = int (length ?e)"
    by (simp add: int_range_simps)
  then show "bw_aligned_size (bw_add w key val) = int (length ?e)
      \<and> (bw_aligned_size w = 0 \<or> bw_aligned_size w = bw_aligned_size (bw_add w key val))"
    using al by (simp add: add assms split: if_splits)
qed

lemma block_inv_add:
  assumes "block_inv w es"
  shows "block_inv (bw_add w key val) (es @ [(key, val)])"
proof -
  let ?w = "bw_add w key val" and ?es = "es @ [(key, val)]"
  have data: "bw_data w = entries_bytes es" using assms by (simp add: block_inv_def)
  note f = bw_add_fields [OF data, of key val]
  have "bw_positions ?w = map (\<lambda>i. as_i32 (offset_of ?es i)) [0..<length ?es]"
    using assms f(2) by (simp add: block_inv_def offset_of_append) (simp add: offset_of_def)
  moreover have "same_sizes ?es (bw_aligned_size ?w) \<and> (bw_aligned_size ?w = 0 \<longleftrightarrow> ?es = [])"
    if len: "int (length (entries_bytes ?es)) \<le> i32_max" and al: "bw_aligned ?w"
  proof -
    have "same_sizes es (bw_aligned_size w) \<and> (bw_aligned_size w = 0 \<longleftrightarrow> es = [])"
      using assms len f(3) [OF al] by (simp add: block_inv_def)
    moreover have "int (length (entry_bytes (key, val))) \<noteq> 0"
      using entry_bytes_long [of "(key, val)"] by linarith
    ultimately show ?thesis
      using f(4) [OF al len] by (auto simp: same_sizes_def)
  qed
  ultimately show ?thesis using f(1) by (simp add: block_inv_def)
qed

lemma bw_entry_count_inv: "block_inv w es \<Longrightarrow> bw_entry_count w = length es"
  by (simp add: block_inv_def bw_entry_count_def)

section \<open>Reading a block\<close>

text \<open>\<open>reads br es\<close>: the reader holds exactly these entries, and can seek to each.\<close>

definition reads :: "block_reader \<Rightarrow> (bytes \<times> bytes) list \<Rightarrow> bool" where
  "reads br es \<longleftrightarrow> br_data br = entries_bytes es \<and> br_record_count br = length es
     \<and> int (length (entries_bytes es)) \<le> i32_max
     \<and> (\<forall>i < length es. seek_to_position br i = Inr (offset_of es i))"

lemma as_usize_small [simp]: "0 \<le> x \<Longrightarrow> x \<le> i32_max \<Longrightarrow> as_usize x = nat x"
  by (simp add: as_usize_def wrap_unsigned_def int_range_simps)

lemma length_entries_aligned:
  "same_sizes es (int n) \<Longrightarrow> length (entries_bytes es) = length es * n"
  by (induction es) (simp_all add: same_sizes_def)

lemma count_le_bytes: "length es \<le> length (entries_bytes es)"
proof (induction es)
  case (Cons e es)
  then show ?case using entry_bytes_long [of e] by simp
qed simp

lemma length_concat_le: "length (concat (map (to_le 4) xs)) = length xs * 4"
  by (induction xs) simp_all

lemma nth_concat_le:
  "i < length xs \<Longrightarrow> take 4 (drop (i * 4) (concat (map (to_le 4) xs) @ ys)) = to_le 4 (xs ! i)"
proof (induction xs arbitrary: i)
  case (Cons x xs)
  then show ?case by (cases i) simp_all
qed simp

lemma offset_of_le: "offset_of es i \<le> length (entries_bytes es)"
proof -
  have "entries_bytes es = entries_bytes (take i es) @ entries_bytes (drop i es)"
    by (metis append_take_drop_id entries_bytes_simps(3))
  then show ?thesis by (simp add: offset_of_def)
qed

lemma finished_block_reads:
  assumes inv: "block_inv w es" and len: "int (length (entries_bytes es)) \<le> i32_max"
  shows "\<exists>br. create_from_vec (fst (bw_finish w)) = Inr br \<and> reads br es"
proof (cases "bw_aligned w \<and> es \<noteq> []")
  case True
  then have pos: "bw_positions w \<noteq> []" using inv by (simp add: block_inv_def)
  define n where "n = length (entry_bytes (hd es))"
  have "same_sizes es (bw_aligned_size w)" using True inv len by (simp add: block_inv_def)
  moreover have "int n = bw_aligned_size w"
    using calculation True by (simp add: same_sizes_def n_def)
  moreover have "n \<noteq> 0" using entry_bytes_long [of "hd es"] unfolding n_def by linarith
  ultimately have n: "bw_aligned_size w = int n" "n \<noteq> 0" and same: "same_sizes es (int n)" by simp_all
  have total: "length (entries_bytes es) = length es * n" by (rule length_entries_aligned [OF same])
  then have "n \<le> length (entries_bytes es)" using True by (cases es) auto
  then have small: "int n \<le> i32_max" using len by linarith
  let ?br = "\<lparr>br_data = entries_bytes es, br_record_count = length es, br_seek_info = SeekAligned n\<rparr>"
  have "fst (bw_finish w) = entries_bytes es @ to_le 4 (int n) @ [0]"
    using True pos inv n by (simp add: bw_finish_def Let_def block_inv_def)
  then have "create_from_vec (fst (bw_finish w)) = Inr ?br"
    using small n(2) total by (simp add: create_from_vec_def aligned_from_byte_def)
  moreover have "offset_of es i = i * n" if "i < length es" for i
  proof -
    have "same_sizes (take i es) (int n)" using same by (auto simp: same_sizes_def dest: in_set_takeD)
    from length_entries_aligned [OF this] that show ?thesis by (simp add: offset_of_def)
  qed
  then have "reads ?br es" using len by (simp add: reads_def seek_to_position_def)
  ultimately show ?thesis by blast
next
  case False
  define pos where "pos = map (\<lambda>i. as_i32 (offset_of es i)) [0..<length es]"
  let ?br = "\<lparr>br_data = entries_bytes es, br_record_count = length es,
    br_seek_info = SeekUnaligned (map (\<lambda>i. int (offset_of es i)) [0..<length es])\<rparr>"
  have cnt: "int (length es) \<le> i32_max" using len count_le_bytes [of es] by linarith
  have off: "int (offset_of es i) \<le> i32_max" for i using len offset_of_le [of es i] by linarith
  define tail where "tail = concat (map (to_le 4) pos) @ to_le 4 (int (length es)) @ [1]"
  have lp: "length pos = length es" by (simp add: pos_def)
  have lt: "length tail = length es * 4 + 5" by (simp add: tail_def length_concat_le lp)
  have "bw_positions w = pos" using inv by (simp add: block_inv_def pos_def)
  then have fin: "fst (bw_finish w) = entries_bytes es @ tail"
    using False inv cnt by (auto simp: bw_finish_def Let_def block_inv_def tail_def lp)
  define B where "B = entries_bytes es @ tail"
  have at: "take 4 (drop (length (entries_bytes es) + i * 4) B) = to_le 4 (int (offset_of es i))"
    if "i < length es" for i
  proof -
    have "drop (length (entries_bytes es) + i * 4) B = drop (i * 4) tail" by (simp add: B_def)
    also have "take 4 \<dots> = to_le 4 (pos ! i)"
      unfolding tail_def using that lp by (intro nth_concat_le) simp
    finally show ?thesis using that off by (simp add: pos_def)
  qed
  have B: "length B - 5 = length (entries_bytes es) + length es * 4" "\<not> length B < 5" "B \<noteq> []" "last B = 1"
    "take (length (entries_bytes es)) B = entries_bytes es"
    using lt by (auto simp: B_def tail_def)
  have cntb: "take 4 (drop (length (entries_bytes es) + length es * 4) B) = to_le 4 (int (length es))"
    by (simp add: B_def tail_def length_concat_le lp)
  have "create_from_vec B = Inr ?br"
    unfolding create_from_vec_def Let_def B cntb
    using cnt off at B by (simp add: aligned_from_byte_def cong: map_cong)
  moreover have "reads ?br es" using len off by (simp add: reads_def seek_to_position_def)
  ultimately show ?thesis unfolding fin B_def [symmetric] by blast
qed

text \<open>An entry read at the offset where it stands.\<close>

lemma drop_lengths: "drop n data = xs @ ys \<Longrightarrow> length data - n = length xs + length ys"
  by (metis length_append length_drop)

lemma slice_len_prefix:
  "drop start data = xs @ ys \<Longrightarrow> start \<le> length data \<Longrightarrow> slice_len data start (int (length xs)) = Inr xs"
  using drop_lengths [of start data xs ys] by (simp add: slice_len_def)

lemma drop_step: "drop n data = xs @ ys \<Longrightarrow> drop (n + length xs) data = ys"
  by (metis add.commute append_eq_conv_conj drop_drop)

lemma drop_length_le: "drop n data = xs @ ys \<Longrightarrow> xs \<noteq> [] \<Longrightarrow> n + length xs \<le> length data"
  using drop_lengths [of n data xs ys] by (cases xs) auto

lemma read_entry_here:
  assumes d: "drop off (br_data br) = entry_bytes (k, v) @ rest" and len: "int (length (br_data br)) \<le> i32_max"
  shows "read_entry_at br off = Inr (k, v, off + length (entry_bytes (k, v)))"
    and "\<exists>n. read_key_at br off = Inr (k, n)"
proof -
  let ?data = "br_data br" and ?kn = "length (encode_var_int (int (length k)))"
    and ?vn = "length (encode_var_int (int (length v)))"
  have bound: "off + length (entry_bytes (k, v)) \<le> length ?data"
    using drop_length_le [OF d] entry_bytes_long [of "(k, v)"] by (cases "entry_bytes (k, v)") auto
  then have small: "int (length k) \<le> i32_max" "int (length v) \<le> i32_max"
    using len by (auto simp: entry_bytes_def)
  then have eb: "entry_bytes (k, v) = encode_var_int (int (length k)) @ k @ encode_var_int (int (length v)) @ v"
    by (simp add: entry_bytes_def)
  have i32: "in_i32 (int (length k))" "in_i32 (int (length v))"
    using small by (auto simp: int_range_simps)
  have d0: "drop off ?data = encode_var_int (int (length k)) @ k @ encode_var_int (int (length v)) @ v @ rest"
    using d by (simp add: eb)
  note d1 = drop_step [OF d0]
  note d2 = drop_step [OF d1]
  note d3 = drop_step [OF d2]
  have b: "off + ?kn \<le> length ?data" "off + ?kn + length k + ?vn \<le> length ?data"
    using bound by (simp_all add: eb)
  note key = decode_var_int_from_slice_encode [OF i32(1) d0] slice_len_prefix [OF d1 b(1)]
    decode_var_int_from_slice_encode [OF i32(2) d2]
  show "\<exists>n. read_key_at br off = Inr (k, n)"
    by (simp add: read_key_at_def key Let_def)
  show "read_entry_at br off = Inr (k, v, off + length (entry_bytes (k, v)))"
    by (simp add: read_entry_at_def key slice_len_prefix [OF d3 b(2)] Let_def) (simp add: eb)
qed

lemma offset_of_Suc:
  "i < length es \<Longrightarrow> offset_of es (Suc i) = offset_of es i + length (entry_bytes (es ! i))"
  by (simp add: offset_of_def take_Suc_conv_app_nth)

lemma drop_offset_of:
  assumes "i < length es"
  shows "drop (offset_of es i) (entries_bytes es) = entry_bytes (es ! i) @ entries_bytes (drop (Suc i) es)"
proof -
  have "entries_bytes es = entries_bytes (take i es) @ entry_bytes (es ! i) @ entries_bytes (drop (Suc i) es)"
    by (metis assms entries_bytes_simps(2,3) id_take_nth_drop)
  then show ?thesis by (simp add: offset_of_def)
qed

lemma offset_of_ends [simp]:
  "offset_of es 0 = 0" "offset_of es (length es) = length (entries_bytes es)"
  by (simp_all add: offset_of_def)

lemma offset_of_less: "i < length es \<Longrightarrow> offset_of es i < length (entries_bytes es)"
  using offset_of_le [of es "Suc i"] offset_of_Suc [of i es] entry_bytes_long [of "es ! i"] by linarith

lemma reads_entry:
  assumes "reads br es" "i < length es"
  shows "read_entry_at br (offset_of es i) = Inr (fst (es ! i), snd (es ! i), offset_of es (Suc i))"
    and "\<exists>n. read_key_at br (offset_of es i) = Inr (fst (es ! i), n)"
proof -
  have "drop (offset_of es i) (br_data br)
      = entry_bytes (fst (es ! i), snd (es ! i)) @ entries_bytes (drop (Suc i) es)"
    using drop_offset_of [OF assms(2)] assms(1) by (simp add: reads_def)
  moreover have "int (length (br_data br)) \<le> i32_max" using assms(1) by (simp add: reads_def)
  ultimately show "read_entry_at br (offset_of es i) = Inr (fst (es ! i), snd (es ! i), offset_of es (Suc i))"
    and "\<exists>n. read_key_at br (offset_of es i) = Inr (fst (es ! i), n)"
    using read_entry_here [of "offset_of es i" br "fst (es ! i)" "snd (es ! i)"]
    by (simp_all add: offset_of_Suc [OF assms(2)])
qed

lemma iter_next_reads:
  assumes "reads br es" "i \<le> length es"
  shows "iter_next br \<lparr>bi_offset = offset_of es i, bi_index = i\<rparr>
    = (if i < length es
       then Inr (Some (es ! i), \<lparr>bi_offset = offset_of es (Suc i), bi_index = Suc i\<rparr>)
       else Inr (None, \<lparr>bi_offset = offset_of es i, bi_index = i\<rparr>))"
proof (cases "i < length es")
  case True
  then show ?thesis
    using assms(1) reads_entry(1) [OF assms(1) True] offset_of_less [OF True]
    by (simp add: iter_next_def iter_has_next_def reads_def)
next
  case False
  then show ?thesis using assms by (simp add: iter_next_def iter_has_next_def reads_def)
qed

section \<open>Binary search\<close>

text \<open>\<open>lower_bound g n lb\<close>: the comparison results of \<open>n\<close> sorted keys with a target, all \<open>Less\<close> before
  \<open>lb\<close> and all \<open>Greater\<close> after it.\<close>

definition lower_bound :: "(nat \<Rightarrow> ordering) \<Rightarrow> nat \<Rightarrow> nat \<Rightarrow> bool" where
  "lower_bound g n lb \<longleftrightarrow> lb \<le> n \<and> (\<forall>i < lb. g i = Less) \<and> (lb < n \<longrightarrow> g lb \<noteq> Less)
     \<and> (\<forall>i. lb < i \<and> i < n \<longrightarrow> g i = Greater)"

lemma lower_bound_cases:
  assumes "lower_bound g n lb" "m < n"
  shows "m < lb \<and> g m = Less \<or> m = lb \<and> g m \<noteq> Less \<or> lb < m \<and> g m = Greater"
  using assms by (cases m lb rule: linorder_cases) (auto simp: lower_bound_def)

lemma seek_loop_lower_bound:
  assumes br: "reads br es" and c: "\<And>i. i < length es \<Longrightarrow> c (fst (es ! i)) target = Inr (g i)"
    and lb: "lower_bound g (length es) lb"
    and "0 \<le> left" "left \<le> int lb" "int lb \<le> right + 1" "right < int (length es)"
    and "best = (if right + 1 < int (length es)
                 then Some (nat (right + 1), offset_of es (nat (right + 1))) else None)"
    and "right + 1 < int (length es) \<Longrightarrow> g (nat (right + 1)) = Greater"
  shows "seek_loop br target c left right best =
    Inr (lb < length es \<and> g lb = Equal, if lb < length es then Some (lb, offset_of es lb) else None)"
  using assms(4-)
proof (induction "nat (right - left + 1)" arbitrary: left right best rule: less_induct)
  case less
  show ?case
  proof (cases "left \<le> right")
    case False
    then have r: "right + 1 = int lb" using less.prems by linarith
    show ?thesis
      using False less.prems(5,6) lb unfolding r by (auto simp: seek_loop.simps [of br] lower_bound_def)
  next
    case True
    define m where "m = nat (left + (right - left) div 2)"
    have mid: "left + (right - left) div 2 = int m" using True less.prems(1) by (simp add: m_def)
    have lm: "left \<le> int m" "int m \<le> right" using True unfolding mid [symmetric] by linarith+
    then have m: "m < length es" using less.prems(4) by linarith
    obtain n where key: "read_key_at br (offset_of es m) = Inr (fst (es ! m), n)"
      using reads_entry(2) [OF br m] by blast
    have seek: "seek_to_position br m = Inr (offset_of es m)" using br m by (simp add: reads_def)
    note step = seek_loop.simps [of br target c left right best, unfolded mid Let_def, simplified True if_True
        nat_int seek key c [OF m] and_then.simps prod.case]
    show ?thesis
    proof (cases "g m")
      case Less
      then have "m < lb" using lower_bound_cases [OF lb m] by auto
      then have "seek_loop br target c (int m + 1) right best =
          Inr (lb < length es \<and> g lb = Equal, if lb < length es then Some (lb, offset_of es lb) else None)"
        using less.prems lm True by (intro less.hyps) auto
      then show ?thesis by (simp add: step Less)
    next
      case Equal
      then have "m = lb" using lower_bound_cases [OF lb m] by auto
      with m Equal show ?thesis by (simp add: step)
    next
      case Greater
      then have "lb \<le> m" using lower_bound_cases [OF lb m] by auto
      then have "seek_loop br target c left (int m - 1) (Some (m, offset_of es m)) =
          Inr (lb < length es \<and> g lb = Equal, if lb < length es then Some (lb, offset_of es lb) else None)"
        using less.prems lm True m Greater by (intro less.hyps) auto
      then show ?thesis by (simp add: step Greater)
    qed
  qed
qed

lemma seek_and_iter_lower_bound:
  assumes br: "reads br es" and c: "\<And>i. i < length es \<Longrightarrow> c (fst (es ! i)) target = Inr (g i)"
    and lb: "lower_bound g (length es) lb"
  shows "seek_and_iter br target c =
    Inr (lb < length es \<and> g lb = Equal, \<lparr>bi_offset = offset_of es lb, bi_index = lb\<rparr>)"
proof -
  have n: "br_record_count br = length es" "int (length es) \<le> i32_max"
    "length (br_data br) = length (entries_bytes es)"
    using br count_le_bytes [of es] by (auto simp: reads_def)
  have le: "lb \<le> length es" using lb by (simp add: lower_bound_def)
  have "seek_loop br target c 0 (as_i32 (length es) - 1) None =
    Inr (lb < length es \<and> g lb = Equal, if lb < length es then Some (lb, offset_of es lb) else None)"
    using n(2) le by (intro seek_loop_lower_bound [OF br _ lb] c) auto
  then show ?thesis using le by (auto simp: seek_and_iter_def n)
qed

text \<open>Sorted keys have a lower bound, and it is where a linear scan would stop.\<close>

definition sorted_keys :: "(bytes \<Rightarrow> bytes \<Rightarrow> ordering) \<Rightarrow> (bytes \<times> 'v) list \<Rightarrow> bool" where
  "sorted_keys ord es \<longleftrightarrow> sorted_wrt (\<lambda>a b. ord (fst a) (fst b) = Less) es"

definition below :: "(bytes \<Rightarrow> bytes \<Rightarrow> ordering) \<Rightarrow> (bytes \<times> 'v) list \<Rightarrow> bytes \<Rightarrow> nat" where
  "below ord es t = length (takeWhile (\<lambda>e. ord (fst e) t = Less) es)"

lemma below_le: "below ord es t \<le> length es"
  by (simp add: below_def length_takeWhile_le)

lemma sorted_lower_bound:
  assumes "total_cmp ord A" "fst ` set es \<subseteq> A" "t \<in> A" "sorted_keys ord es"
  shows "lower_bound (\<lambda>i. ord (fst (es ! i)) t) (length es) (below ord es t)"
proof -
  let ?P = "\<lambda>e. ord (fst e) t = Less"
  have "ord (fst (es ! i)) t = Less" if "i < below ord es t" for i
    using nth_mem [of i "takeWhile ?P es"] set_takeWhileD that takeWhile_nth [of i ?P es]
    by (fastforce simp: below_def)
  moreover have stop: "ord (fst (es ! below ord es t)) t \<noteq> Less" if "below ord es t < length es"
    using nth_length_takeWhile [of ?P es] that by (simp add: below_def)
  moreover have "ord (fst (es ! i)) t = Greater" if i: "below ord es t < i" "i < length es" for i
  proof -
    have lt: "ord (fst (es ! below ord es t)) (fst (es ! i)) = Less"
      using assms(4) i sorted_wrt_nth_less [of "\<lambda>a b. ord (fst a) (fst b) = Less" es "below ord es t" i]
      by (simp add: sorted_keys_def)
    have in_A: "fst (es ! below ord es t) \<in> A" "fst (es ! i) \<in> A" using assms(2) i by force+
    have "ord t (fst (es ! below ord es t)) \<noteq> Greater"
      using total_cmp.cmp_flip [OF assms(1) in_A(1) assms(3)] stop i by auto
    then have "ord t (fst (es ! i)) = Less"
      using total_cmp.le_less_trans [OF assms(1) assms(3) in_A] lt by blast
    then show ?thesis using total_cmp.cmp_flip [OF assms(1) assms(3) in_A(2)] by simp
  qed
  ultimately show ?thesis by (simp add: lower_bound_def below_le)
qed

lemma seek_sorted:
  assumes "reads br es" "total_cmp ord A" "fst ` set es \<subseteq> A" "t \<in> A" "sorted_keys ord es"
    "\<And>k. k \<in> A \<Longrightarrow> c k t = Inr (ord k t)"
  shows "seek_and_iter br t c =
    Inr (below ord es t < length es \<and> ord (fst (es ! below ord es t)) t = Equal,
         \<lparr>bi_offset = offset_of es (below ord es t), bi_index = below ord es t\<rparr>)"
proof (rule seek_and_iter_lower_bound [OF assms(1) _ sorted_lower_bound [OF assms(2-5)]])
  fix i assume "i < length es"
  then have "fst (es ! i) \<in> A" using assms(3) by force
  then show "c (fst (es ! i)) t = Inr (ord (fst (es ! i)) t)" by (rule assms(6))
qed

lemma found_iff:
  assumes "total_cmp ord A" "fst ` set es \<subseteq> A" "t \<in> A" "sorted_keys ord es"
  shows "(below ord es t < length es \<and> ord (fst (es ! below ord es t)) t = Equal)
    \<longleftrightarrow> (\<exists>e \<in> set es. ord (fst e) t = Equal)"
proof
  assume "\<exists>e \<in> set es. ord (fst e) t = Equal"
  then obtain i where i: "i < length es" "ord (fst (es ! i)) t = Equal" by (auto simp: in_set_conv_nth)
  then show "below ord es t < length es \<and> ord (fst (es ! below ord es t)) t = Equal"
    using lower_bound_cases [OF sorted_lower_bound [OF assms] i(1)] by auto
qed (use nth_mem in blast)

section \<open>Properties\<close>

definition write_entries :: "(bytes \<times> bytes) list \<Rightarrow> block_writer" where
  "write_entries es = fold (\<lambda>(k, v) w. bw_add w k v) es block_writer_new"

lemma write_entries_inv: "block_inv (write_entries es) es"
proof (induction es rule: rev_induct)
  case (snoc e es)
  then show ?case by (cases e) (simp add: write_entries_def block_inv_add)
qed (simp add: write_entries_def block_inv_new)

text \<open>C15. Block compression is lossless. Whatever \<^verbatim>\<open>compress_block\<close> returns for a block and a codec (the
  compressed form, or the block itself when compression saves less than an eighth), \<^verbatim>\<open>decompress_block\<close>
  with the returned compression type gives the block back; the same holds of the codec blocks without
  the size prefix. Neither form is longer than the block.\<close>

theorem compression_round_trip:
  assumes "codecs_ok K"
    and "compress_block K data ct level = Inr (c, ct')"
    and "compress_codec_block K data ct level = Inr (d, dt)"
  shows "decompress_block K c ct' = Inr data \<and> decompress_codec_block K d dt (length data) = Inr data
    \<and> length c \<le> length data \<and> length d \<le> length data"
  using compress_block_round_trip [OF assms(1,2)] compress_codec_block_round_trip [OF assms(1,3)]
    compressed_length [OF assms(2)] compressed_codec_length [OF assms(3)] by simp

text \<open>Codecs that shorten a block of equal bytes to a tag and the byte, and tag every other block.\<close>

definition run_compress :: "bytes \<Rightarrow> bytes" where
  "run_compress d = (case d of
       [] \<Rightarrow> [1]
     | b # _ \<Rightarrow> if list_all (\<lambda>x. x = b) d then [0, b] else 1 # d)"

definition run_decompress :: "bytes \<Rightarrow> nat \<Rightarrow> bytes result" where
  "run_decompress c n = (case c of
       [] \<Rightarrow> Inl (IoError ''empty input'')
     | tag # d \<Rightarrow>
         if tag = 1 then Inr d
         else case d of [] \<Rightarrow> Inl (IoError ''truncated input'') | b # _ \<Rightarrow> Inr (replicate n b))"

definition run_codecs :: codecs where
  "run_codecs = \<lparr>
     zstd_compress = (\<lambda>d level. Inr (run_compress d)), zstd_decompress_to_buffer = run_decompress,
     lz4_compress = run_compress, lz4_decompress = run_decompress,
     lzo_compress = (\<lambda>d. Inr (run_compress d)), lzo_decompress_all = run_decompress,
     crc32 = (\<lambda>d. sum_list (map uint d) mod 2 ^ 32) \<rparr>"

lemma run_round_trip: "run_decompress (run_compress d) (length d) = Inr d" "run_compress d \<noteq> []"
proof -
  have "list_all (\<lambda>x. x = b) d \<Longrightarrow> replicate (length d) b = d" for b
    by (induction d) auto
  then show "run_decompress (run_compress d) (length d) = Inr d"
    by (cases d) (auto simp: run_compress_def run_decompress_def)
qed (simp add: run_compress_def split: list.splits)

lemma run_codecs_ok: "codecs_ok run_codecs"
  by (simp add: codecs_ok_def run_codecs_def run_round_trip)

theorem compression_round_trip_witness:
  "compress_block run_codecs (replicate 32 7) Lz4 1 = Inr ([32, 2, 0, 0, 0, 32, 0, 0, 0, 0, 7], Lz4)
   \<and> decompress_block run_codecs [32, 2, 0, 0, 0, 32, 0, 0, 0, 0, 7] Lz4 = Inr (replicate 32 7)
   \<and> compress_codec_block run_codecs (replicate 32 7) Lz4 1 = Inr ([2, 0, 0, 0, 32, 0, 0, 0, 0, 7], Lz4)
   \<and> decompress_codec_block run_codecs [2, 0, 0, 0, 32, 0, 0, 0, 0, 7] Lz4 32 = Inr (replicate 32 7)"
proof -
  have "compress_block run_codecs (replicate 32 7) Lz4 1 = Inr ([32, 2, 0, 0, 0, 32, 0, 0, 0, 0, 7], Lz4)"
    "compress_codec_block run_codecs (replicate 32 7) Lz4 1 = Inr ([2, 0, 0, 0, 32, 0, 0, 0, 0, 7], Lz4)"
    by code_simp+
  with compression_round_trip [OF run_codecs_ok this] show ?thesis by simp
qed

text \<open>C12. A finished block reads back as what was put into it. For any entries of less than 2 GiB, aligned or
  not, the bytes of \<^verbatim>\<open>BlockWriter::finish\<close> open as a reader that counts the entries, seeks to each of them,
  reads its key and value there with the offset of the next one, and ends after the last.\<close>

theorem block_round_trip:
  assumes "int (length (entries_bytes es)) \<le> i32_max"
  shows "\<exists>br. create_from_vec (fst (bw_finish (write_entries es))) = Inr br
    \<and> br_record_count br = length es
    \<and> (\<forall>i < length es. seek_to_position br i = Inr (offset_of es i)
         \<and> read_entry_at br (offset_of es i) = Inr (fst (es ! i), snd (es ! i), offset_of es (Suc i)))
    \<and> iter_next br \<lparr>bi_offset = offset_of es (length es), bi_index = length es\<rparr>
        = Inr (None, \<lparr>bi_offset = offset_of es (length es), bi_index = length es\<rparr>)"
proof -
  obtain br where br: "create_from_vec (fst (bw_finish (write_entries es))) = Inr br" "reads br es"
    using finished_block_reads [OF write_entries_inv assms] by blast
  then show ?thesis
    using reads_entry(1) [OF br(2)] iter_next_reads [OF br(2), of "length es"] by (simp add: reads_def)
qed

definition sample_entries :: "(bytes \<times> bytes) list" where
  "sample_entries = [([1], [2]), ([3], [4, 5])]"

lemma sample_entries_small: "int (length (entries_bytes sample_entries)) \<le> i32_max"
  by (simp add: sample_entries_def entry_bytes_def encode_var_int_def encode_loop.simps
      wrap_unsigned_def int_range_simps as_i32_def wrap_signed_def)

theorem block_round_trip_witness:
  "\<exists>br. create_from_vec (fst (bw_finish (write_entries sample_entries))) = Inr br
    \<and> br_record_count br = 2 \<and> read_entry_at br 0 = Inr ([1], [2], offset_of sample_entries 1)"
  using block_round_trip [OF sample_entries_small] by (auto simp: sample_entries_def)

text \<open>C13. The binary search of \<^verbatim>\<open>seek_and_iter\<close> is a linear scan. Over a block with strictly increasing keys
  and any fallible comparator that orders them and the target totally, it stops at the first entry not
  below the target, and it reports a match exactly when the block has a key equal to the target.\<close>

theorem block_seek_is_linear_scan:
  assumes "create_from_vec (fst (bw_finish (write_entries es))) = Inr br"
    and "int (length (entries_bytes es)) \<le> i32_max"
    and "total_cmp ord A" "fst ` set es \<subseteq> A" "t \<in> A" "sorted_keys ord es"
    and "\<And>k. k \<in> A \<Longrightarrow> c k t = Inr (ord k t)"
  shows "seek_and_iter br t c =
    Inr (\<exists>e \<in> set es. ord (fst e) t = Equal,
         \<lparr>bi_offset = offset_of es (length (takeWhile (\<lambda>e. ord (fst e) t = Less) es)),
          bi_index = length (takeWhile (\<lambda>e. ord (fst e) t = Less) es)\<rparr>)"
proof -
  have "reads br es"
    using finished_block_reads [OF write_entries_inv assms(2)] assms(1) by auto
  note seek_sorted [OF this assms(3-6), of c]
  then show ?thesis
    using found_iff [OF assms(3-6)] assms(7) unfolding below_def [symmetric] by simp
qed

theorem block_seek_is_linear_scan_witness:
  "\<exists>br. create_from_vec (fst (bw_finish (write_entries sample_entries))) = Inr br
    \<and> seek_and_iter br [3] (\<lambda>a b. Inr (cmp a b))
        = Inr (True, \<lparr>bi_offset = offset_of sample_entries 1, bi_index = 1\<rparr>)"
proof -
  obtain br where br: "create_from_vec (fst (bw_finish (write_entries sample_entries))) = Inr br"
    using finished_block_reads [OF write_entries_inv sample_entries_small] by blast
  have "sorted_keys cmp sample_entries"
    by (simp add: sorted_keys_def sample_entries_def)
  from block_seek_is_linear_scan [OF br sample_entries_small linorder_cmp.total_cmp_axioms _ _ this,
      of "[3]" "\<lambda>a b. Inr (cmp a b)"]
  show ?thesis using br by (simp add: sample_entries_def)
qed

end
