(* ===== verification/Bloom_Filter.thy ===== *)
theory Bloom_Filter
  imports Data_Model Var_Len
begin

text \<open>
  \<^verbatim>\<open>crates/paimon/src/btree/bloom_filter.rs\<close> and the hash of \<^verbatim>\<open>spec/murmur_hash.rs\<close>. The two floating
  point formulas (the optimal number of bits for a false positive probability, and the number of hash
  functions) go through \<^verbatim>\<open>f64::ln\<close>, whose result is platform dependent, and are the parameter
  \<open>bloom_floats\<close>; nothing is assumed of them. A filter is a \<open>bloom_filter\<close>; \<^verbatim>\<open>BitSet\<close> distinguishes owned
  from shared bytes only. Failure to allocate the bit set is not modelled.
\<close>

section \<open>Murmur hash\<close>

definition rotate_left :: "nat \<Rightarrow> 32 word \<Rightarrow> 32 word" where
  "rotate_left n w = word_rotl n w"

definition mix_k1 :: "32 word \<Rightarrow> 32 word" where
  "mix_k1 k1 = rotate_left 15 (k1 * 0xcc9e2d51) * 0x1b873593"

definition mix_h1 :: "32 word \<Rightarrow> 32 word \<Rightarrow> 32 word" where
  "mix_h1 h1 k1 = rotate_left 13 (h1 XOR k1) * 5 + 0xe6546b64"

definition fmix :: "32 word \<Rightarrow> 32 word" where
  "fmix h0 =
     (let h = h0 XOR drop_bit 16 h0;
          h = h * 0x85ebca6b;
          h = h XOR drop_bit 13 h;
          h = h * 0xc2b2ae35
      in h XOR drop_bit 16 h)"

text \<open>Whole words are mixed little-endian; each trailing byte is sign extended and mixed on its own.\<close>

fun hash_chunks :: "32 word \<Rightarrow> bytes \<Rightarrow> 32 word" where
  "hash_chunks h1 (a # b # c # d # bs) =
     hash_chunks (mix_h1 h1 (mix_k1 (word_of_int (from_le [a, b, c, d])))) bs"
| "hash_chunks h1 [] = h1"
| "hash_chunks h1 (b # bs) = hash_chunks (mix_h1 h1 (mix_k1 (word_of_int (sint b)))) bs"

definition hash_bytes :: "bytes \<Rightarrow> int" where
  "hash_bytes data = sint (fmix (hash_chunks 42 data XOR word_of_nat (length data)))"

section \<open>Filter\<close>

record bloom_floats =
  optimal_bits :: "int \<Rightarrow> 64 word \<Rightarrow> int"
  hash_count :: "int \<Rightarrow> int \<Rightarrow> int"

record bloom_filter =
  bf_expected_entries :: int
  bf_bits :: bytes
  bf_num_hash_functions :: int

definition bf_position :: "nat \<Rightarrow> int \<Rightarrow> int \<Rightarrow> nat" where
  "bf_position len hash iteration =
     (let hash2 = wrap_unsigned 32 hash div 2 ^ 16;
          combined = wrap_signed 32 (hash + wrap_signed 32 (iteration * hash2));
          combined = (if combined < 0 then - 1 - combined else combined)
      in nat (combined mod int (len * 8)))"

definition bf_is_set :: "bytes \<Rightarrow> nat \<Rightarrow> bool" where
  "bf_is_set bits position \<longleftrightarrow> bits ! (position div 8) AND push_bit (position mod 8) 1 \<noteq> 0"

definition bf_set :: "bytes \<Rightarrow> nat \<Rightarrow> bytes" where
  "bf_set bits position =
     bits[position div 8 := bits ! (position div 8) OR push_bit (position mod 8) 1]"

definition bf_add_hash :: "bloom_filter \<Rightarrow> int \<Rightarrow> bloom_filter" where
  "bf_add_hash f hash =
     f\<lparr>bf_bits := fold (\<lambda>iteration bits. bf_set bits (bf_position (length bits) hash iteration))
                    [1..bf_num_hash_functions f] (bf_bits f)\<rparr>"

definition bf_test_hash :: "bloom_filter \<Rightarrow> int \<Rightarrow> bool" where
  "bf_test_hash f hash \<longleftrightarrow>
     list_all (\<lambda>iteration. bf_is_set (bf_bits f) (bf_position (length (bf_bits f)) hash iteration))
       [1..bf_num_hash_functions f]"

definition num_hash_functions :: "bloom_floats \<Rightarrow> int \<Rightarrow> nat \<Rightarrow> int result" where
  "num_hash_functions F expected_entries byte_size =
     (if u64_max < int byte_size * 8 then Inl (IoError ''Bloom filter bit size overflows'')
      else Inr (hash_count F (int byte_size * 8) expected_entries))"

text \<open>\<^verbatim>\<open>!fpp.is_finite() || fpp <= 0.0 || fpp >= 1.0\<close> on the bits of the number; 1.0 is 0x3FF0000000000000.\<close>

definition valid_fpp :: "64 word \<Rightarrow> bool" where
  "valid_fpp fpp \<longleftrightarrow> f_mag fpp < 0x7FF0000000000000 \<and> 0 < f_key fpp \<and> f_key fpp < 0x3FF0000000000000"

definition bf_from_hashes :: "bloom_floats \<Rightarrow> int list \<Rightarrow> 64 word \<Rightarrow> bloom_filter option result" where
  "bf_from_hashes F hashes fpp =
     (if hashes = [] then Inr None
      else if \<not> valid_fpp fpp then Inl (IoError ''Bloom filter fpp must be finite and in (0, 1)'')
      else
        let expected_entries = int (length hashes);
            byte_size = nat ((optimal_bits F expected_entries fpp + 7) div 8) in
        if byte_size = 0 then Inl (IoError ''Bloom filter size must be positive'')
        else and_then (num_hash_functions F expected_entries byte_size) (\<lambda>n.
          Inr (Some (fold (\<lambda>hash f. bf_add_hash f hash) hashes
            \<lparr>bf_expected_entries = expected_entries, bf_bits = replicate byte_size 0,
             bf_num_hash_functions = n\<rparr>))))"

definition bf_from_bytes :: "bloom_floats \<Rightarrow> int \<Rightarrow> bytes \<Rightarrow> bloom_filter result" where
  "bf_from_bytes F expected_entries bits =
     (if expected_entries = 0 then Inl (IoError ''Bloom filter expected entry count must be positive'')
      else if bits = [] then Inl (IoError ''Bloom filter bitset must not be empty'')
      else and_then (num_hash_functions F expected_entries (length bits)) (\<lambda>n.
        Inr \<lparr>bf_expected_entries = expected_entries, bf_bits = bits, bf_num_hash_functions = n\<rparr>))"

section \<open>No false negatives\<close>

lemma length_bf_set [simp]: "length (bf_set bits p) = length bits"
  by (simp add: bf_set_def)

lemma byte_bit_set: "q < 8 \<Longrightarrow> (b OR push_bit q 1 :: byte) AND push_bit q 1 \<noteq> 0"
  by (auto simp: bit_eq_iff bit_simps intro!: exI [of _ q])

lemma byte_bit_kept: "(b :: byte) AND m \<noteq> 0 \<Longrightarrow> (b OR x) AND m \<noteq> 0"
  by (auto simp: bit_eq_iff bit_simps)

lemma bf_set_sets: "p div 8 < length bits \<Longrightarrow> bf_is_set (bf_set bits p) p"
  by (simp add: bf_is_set_def bf_set_def byte_bit_set)

lemma bf_set_keeps: "bf_is_set bits q \<Longrightarrow> bf_is_set (bf_set bits p) q"
  by (cases "p div 8 = q div 8"; cases "p div 8 < length bits")
     (auto simp: bf_is_set_def bf_set_def byte_bit_kept list_update_beyond)

lemma bf_position_less: "0 < len \<Longrightarrow> bf_position len hash i div 8 < len"
proof -
  assume "0 < len"
  then have "bf_position len hash i < len * 8"
    by (simp add: bf_position_def Let_def nat_less_iff)
  then show ?thesis by (simp add: less_mult_imp_div_less)
qed

definition bf_add_bits :: "int \<Rightarrow> int list \<Rightarrow> bytes \<Rightarrow> bytes" where
  "bf_add_bits hash its bits = fold (\<lambda>i bits. bf_set bits (bf_position (length bits) hash i)) its bits"

lemma bf_add_bits_simps [simp]:
  "bf_add_bits hash [] bits = bits"
  "bf_add_bits hash (i # its) bits = bf_add_bits hash its (bf_set bits (bf_position (length bits) hash i))"
  by (simp_all add: bf_add_bits_def)

lemma length_bf_add_bits [simp]: "length (bf_add_bits hash its bits) = length bits"
  by (induction its arbitrary: bits) simp_all

lemma bf_add_bits_keeps: "bf_is_set bits q \<Longrightarrow> bf_is_set (bf_add_bits hash its bits) q"
  by (induction its arbitrary: bits) (simp_all add: bf_set_keeps)

lemma bf_add_bits_sets:
  "0 < length bits \<Longrightarrow> i \<in> set its \<Longrightarrow>
   bf_is_set (bf_add_bits hash its bits) (bf_position (length bits) hash i)"
proof (induction its arbitrary: bits)
  case (Cons j its)
  show ?case
  proof (cases "i = j")
    case True
    then show ?thesis
      using Cons.prems by (simp add: bf_add_bits_keeps bf_set_sets bf_position_less)
  next
    case False
    then show ?thesis
      using Cons.prems Cons.IH [of "bf_set bits (bf_position (length bits) hash j)"] by simp
  qed
qed simp

lemma bf_add_hash_bits: "bf_add_hash f hash = f\<lparr>bf_bits := bf_add_bits hash [1..bf_num_hash_functions f] (bf_bits f)\<rparr>"
  by (simp add: bf_add_hash_def bf_add_bits_def)

lemma add_hash_laws:
  "length (bf_bits (bf_add_hash f h)) = length (bf_bits f)"
  "bf_num_hash_functions (bf_add_hash f h) = bf_num_hash_functions f"
  "bf_expected_entries (bf_add_hash f h) = bf_expected_entries f"
  "0 < length (bf_bits f) \<Longrightarrow> bf_test_hash (bf_add_hash f h) h"
  "bf_test_hash f g \<Longrightarrow> bf_test_hash (bf_add_hash f h) g"
  by (auto simp: bf_add_hash_bits bf_test_hash_def list_all_iff bf_add_bits_sets bf_add_bits_keeps)

lemma add_hashes_laws:
  assumes "0 < length (bf_bits f)"
  shows "length (bf_bits (fold (\<lambda>h f. bf_add_hash f h) hs f)) = length (bf_bits f)
    \<and> bf_num_hash_functions (fold (\<lambda>h f. bf_add_hash f h) hs f) = bf_num_hash_functions f
    \<and> bf_expected_entries (fold (\<lambda>h f. bf_add_hash f h) hs f) = bf_expected_entries f
    \<and> (\<forall>g. g \<in> set hs \<or> bf_test_hash f g \<longrightarrow> bf_test_hash (fold (\<lambda>h f. bf_add_hash f h) hs f) g)"
  using assms
proof (induction hs arbitrary: f)
  case (Cons h hs)
  then have "0 < length (bf_bits (bf_add_hash f h))" by (simp add: add_hash_laws)
  from Cons.IH [OF this] show ?case
    using Cons.prems add_hash_laws(1-4) [of f h] add_hash_laws(5) [of f _ h] by auto
qed simp

lemma from_hashes_from_bytes:
  assumes "bf_from_hashes F hashes fpp = Inr (Some f)"
  shows "bf_from_bytes F (bf_expected_entries f) (bf_bits f) = Inr f"
    and "h \<in> set hashes \<Longrightarrow> bf_test_hash f h"
    and "bf_expected_entries f = int (length hashes)" "hashes \<noteq> []" "bf_bits f \<noteq> []"
proof -
  let ?size = "nat ((optimal_bits F (int (length hashes)) fpp + 7) div 8)"
  obtain n where n: "num_hash_functions F (int (length hashes)) ?size = Inr n"
    and pos: "?size \<noteq> 0" and ne: "hashes \<noteq> []"
    and f: "f = fold (\<lambda>h f. bf_add_hash f h) hashes
      \<lparr>bf_expected_entries = int (length hashes), bf_bits = replicate ?size 0, bf_num_hash_functions = n\<rparr>"
    using assms by (auto simp: bf_from_hashes_def Let_def result_simps split: if_splits)
  have laws: "length (bf_bits f) = ?size \<and> bf_num_hash_functions f = n
      \<and> bf_expected_entries f = int (length hashes) \<and> (\<forall>g. g \<in> set hashes \<longrightarrow> bf_test_hash f g)"
    unfolding f using add_hashes_laws [of "\<lparr>bf_expected_entries = int (length hashes),
      bf_bits = replicate ?size 0, bf_num_hash_functions = n\<rparr>" hashes] pos by auto
  then show "h \<in> set hashes \<Longrightarrow> bf_test_hash f h" "bf_expected_entries f = int (length hashes)"
    "hashes \<noteq> []" "bf_bits f \<noteq> []" using ne pos by auto
  show "bf_from_bytes F (bf_expected_entries f) (bf_bits f) = Inr f"
    using laws n ne pos by (cases f) (auto simp: bf_from_bytes_def)
qed

section \<open>Properties\<close>

text \<open>C14. The Bloom filter has no false negatives, whatever the two floating point formulas give: a filter
  built by \<^verbatim>\<open>from_hashes\<close>, stored as its bytes and entry count and opened again by \<^verbatim>\<open>from_bytes\<close>, is the same
  filter and reports every key whose hash was put in.\<close>

theorem bloom_no_false_negatives:
  assumes "bf_from_hashes F (map hash_bytes keys) fpp = Inr (Some f)" "key \<in> set keys"
  shows "bf_from_bytes F (bf_expected_entries f) (bf_bits f) = Inr f \<and> bf_test_hash f (hash_bytes key)"
  using from_hashes_from_bytes [OF assms(1)] assms(2) by auto

theorem bloom_no_false_negatives_witness:
  "\<exists>f. bf_from_hashes \<lparr>optimal_bits = (\<lambda>n p. 6), hash_count = (\<lambda>b n. 4)\<rparr> (map hash_bytes [[1], [2, 3]])
       0x3FA999999999999A = Inr (Some f) \<and> bf_test_hash f (hash_bytes [2, 3])"
proof -
  obtain f where f: "bf_from_hashes \<lparr>optimal_bits = (\<lambda>n p. 6), hash_count = (\<lambda>b n. 4)\<rparr>
      (map hash_bytes [[1], [2, 3]]) 0x3FA999999999999A = Inr (Some f)"
    by (simp add: bf_from_hashes_def valid_fpp_def f_mag_def f_key_def f_neg_def num_hash_functions_def
        u64_max_def)
  show ?thesis using bloom_no_false_negatives [OF f, of "[2, 3]"] f by simp
qed

end
