(* ===== verification/Btree_Footer.thy ===== *)
theory Btree_Footer
  imports Sst_Block_Laws
begin

text \<open>
  \<^verbatim>\<open>crates/paimon/src/btree/footer.rs\<close>: the 52 bytes at the end of an index file. A handle that is all
  zeroes stands for an absent Bloom filter or null bitmap.
\<close>

abbreviation (input) BTREE_MAGIC_NUMBER :: int where "BTREE_MAGIC_NUMBER \<equiv> 0x50425449"
abbreviation (input) BTREE_FOOTER_ENCODED_LENGTH :: nat where "BTREE_FOOTER_ENCODED_LENGTH \<equiv> 52"

record bloom_filter_handle =
  bfh_offset :: int
  bfh_size :: int
  bfh_expected_entries :: int

record btree_footer =
  footer_version :: int
  footer_bloom_filter_handle :: "bloom_filter_handle option"
  footer_index_block_handle :: block_handle
  footer_null_bitmap_handle :: "block_handle option"

definition footer_new :: "bloom_filter_handle option \<Rightarrow> block_handle \<Rightarrow> block_handle option \<Rightarrow> btree_footer" where
  "footer_new bloom index nulls =
     \<lparr>footer_version = 1, footer_bloom_filter_handle = bloom, footer_index_block_handle = index,
      footer_null_bitmap_handle = nulls\<rparr>"

definition write_footer :: "btree_footer \<Rightarrow> bytes" where
  "write_footer f =
     (case footer_bloom_filter_handle f of
        Some bf \<Rightarrow> to_le 8 (bfh_offset bf) @ to_le 4 (bfh_size bf) @ to_le 8 (bfh_expected_entries bf)
      | None \<Rightarrow> replicate 20 0)
     @ to_le 8 (handle_offset (footer_index_block_handle f))
     @ to_le 4 (handle_size (footer_index_block_handle f))
     @ (case footer_null_bitmap_handle f of
          Some nb \<Rightarrow> to_le 8 (handle_offset nb) @ to_le 4 (handle_size nb)
        | None \<Rightarrow> replicate 12 0)
     @ to_le 4 (footer_version f) @ to_le 4 BTREE_MAGIC_NUMBER"

text \<open>The little-endian unsigned field of \<open>n\<close> bytes at \<open>pos\<close>.\<close>

definition footer_field :: "bytes \<Rightarrow> nat \<Rightarrow> nat \<Rightarrow> int" where
  "footer_field data pos n = from_le (take n (drop pos data))"

definition read_footer :: "bytes \<Rightarrow> btree_footer result" where
  "read_footer data =
     (if length data < BTREE_FOOTER_ENCODED_LENGTH then Inl (IoError ''Footer data too short'')
      else
        let version = footer_field data 44 4; magic = footer_field data 48 4 in
        if magic \<noteq> BTREE_MAGIC_NUMBER then Inl (IoError ''Bad magic number'')
        else if version \<noteq> 1 \<and> version \<noteq> 2 then Inl (IoError ''Unsupported BTree index version'')
        else
          let bf_offset = footer_field data 0 8; bf_size = footer_field data 8 4; bf_expected = footer_field data 12 8;
              nb_offset = footer_field data 32 8; nb_size = footer_field data 40 4 in
          Inr \<lparr>footer_version = version,
               footer_bloom_filter_handle =
                 (if bf_offset = 0 \<and> bf_size = 0 \<and> bf_expected = 0 then None
                  else Some \<lparr>bfh_offset = bf_offset, bfh_size = bf_size, bfh_expected_entries = bf_expected\<rparr>),
               footer_index_block_handle =
                 \<lparr>handle_offset = footer_field data 20 8, handle_size = footer_field data 28 4\<rparr>,
               footer_null_bitmap_handle =
                 (if nb_offset = 0 \<and> nb_size = 0 then None
                  else Some \<lparr>handle_offset = nb_offset, handle_size = nb_size\<rparr>)\<rparr>)"

section \<open>Round trip\<close>

definition bloom_handle_ok :: "bloom_filter_handle \<Rightarrow> bool" where
  "bloom_handle_ok h \<longleftrightarrow> in_u64 (bfh_offset h) \<and> 0 \<le> bfh_size h \<and> bfh_size h < 2 ^ 32
     \<and> in_u64 (bfh_expected_entries h)
     \<and> \<not> (bfh_offset h = 0 \<and> bfh_size h = 0 \<and> bfh_expected_entries h = 0)"

text \<open>The footers the format can hold: fields within their widths, no present handle of all zeroes.\<close>

definition footer_ok :: "btree_footer \<Rightarrow> bool" where
  "footer_ok f \<longleftrightarrow> footer_version f \<in> {1, 2} \<and> handle_ok (footer_index_block_handle f)
     \<and> (case footer_bloom_filter_handle f of None \<Rightarrow> True | Some h \<Rightarrow> bloom_handle_ok h)
     \<and> (case footer_null_bitmap_handle f of None \<Rightarrow> True
        | Some h \<Rightarrow> handle_ok h \<and> \<not> (handle_offset h = 0 \<and> handle_size h = 0))"

lemma length_write_footer: "length (write_footer f) = 52"
  by (simp add: write_footer_def split: option.splits)

lemma from_le_zero: "from_le (replicate n 0) = 0"
  by (induction n) simp_all

lemma footer_fields:
  assumes "length bl = 20" "length nb = 12" "data = bl @ to_le 8 off @ to_le 4 sz @ nb @ to_le 4 v @ to_le 4 m"
  shows "footer_field data 0 8 = footer_field bl 0 8" "footer_field data 8 4 = footer_field bl 8 4"
    "footer_field data 12 8 = footer_field bl 12 8" "footer_field data 20 8 = off mod 256 ^ 8"
    "footer_field data 28 4 = sz mod 256 ^ 4" "footer_field data 32 8 = footer_field nb 0 8"
    "footer_field data 40 4 = footer_field nb 8 4" "footer_field data 44 4 = v mod 256 ^ 4"
    "footer_field data 48 4 = m mod 256 ^ 4"
  unfolding assms(3) using assms(1,2) by (simp_all add: footer_field_def from_to_le)

lemma footer_bloom_field:
  "length (to_le 8 a @ to_le 4 b @ to_le 8 c) = 20"
  "footer_field (to_le 8 a @ to_le 4 b @ to_le 8 c) 0 8 = a mod 256 ^ 8"
  "footer_field (to_le 8 a @ to_le 4 b @ to_le 8 c) 8 4 = b mod 256 ^ 4"
  "footer_field (to_le 8 a @ to_le 4 b @ to_le 8 c) 12 8 = c mod 256 ^ 8"
  by (simp_all add: footer_field_def from_to_le)

lemma footer_null_field:
  "length (to_le 8 a @ to_le 4 b) = 12"
  "footer_field (to_le 8 a @ to_le 4 b) 0 8 = a mod 256 ^ 8"
  "footer_field (to_le 8 a @ to_le 4 b) 8 4 = b mod 256 ^ 4"
  by (simp_all add: footer_field_def from_to_le)

lemma footer_field_zeroes: "footer_field (replicate m 0) pos n = 0"
  by (simp add: footer_field_def from_le_zero)

lemma footer_round_trip:
  assumes "footer_ok f"
  shows "read_footer (write_footer f) = Inr f"
proof -
  define bl where "bl = (case footer_bloom_filter_handle f of
        Some bf \<Rightarrow> to_le 8 (bfh_offset bf) @ to_le 4 (bfh_size bf) @ to_le 8 (bfh_expected_entries bf)
      | None \<Rightarrow> replicate 20 0)"
  define nb where "nb = (case footer_null_bitmap_handle f of
        Some nb \<Rightarrow> to_le 8 (handle_offset nb) @ to_le 4 (handle_size nb) | None \<Rightarrow> replicate 12 0)"
  have len: "length bl = 20" "length nb = 12" by (simp_all add: bl_def nb_def split: option.splits)
  have w: "write_footer f = bl @ to_le 8 (handle_offset (footer_index_block_handle f))
      @ to_le 4 (handle_size (footer_index_block_handle f)) @ nb
      @ to_le 4 (footer_version f) @ to_le 4 BTREE_MAGIC_NUMBER"
    by (simp add: write_footer_def bl_def nb_def)
  have v: "footer_version f mod 256 ^ 4 = footer_version f" "footer_version f = 1 \<or> footer_version f = 2"
    using assms by (auto simp: footer_ok_def)
  have idx: "handle_offset (footer_index_block_handle f) mod 256 ^ 8 = handle_offset (footer_index_block_handle f)"
    "handle_size (footer_index_block_handle f) mod 256 ^ 4 = handle_size (footer_index_block_handle f)"
    using assms by (auto simp: footer_ok_def handle_ok_def int_range_simps)
  have bloom: "(if footer_field bl 0 8 = 0 \<and> footer_field bl 8 4 = 0 \<and> footer_field bl 12 8 = 0 then None
      else Some \<lparr>bfh_offset = footer_field bl 0 8, bfh_size = footer_field bl 8 4,
                 bfh_expected_entries = footer_field bl 12 8\<rparr>) = footer_bloom_filter_handle f"
    using assms
    by (auto simp: bl_def footer_bloom_field footer_field_zeroes footer_ok_def bloom_handle_ok_def
        int_range_simps split: option.splits)
  have nulls: "(if footer_field nb 0 8 = 0 \<and> footer_field nb 8 4 = 0 then None
      else Some \<lparr>handle_offset = footer_field nb 0 8, handle_size = footer_field nb 8 4\<rparr>)
      = footer_null_bitmap_handle f"
    using assms
    by (auto simp: nb_def footer_null_field footer_field_zeroes footer_ok_def handle_ok_def
        int_range_simps split: option.splits)
  have m: "(BTREE_MAGIC_NUMBER :: int) mod 256 ^ 4 = BTREE_MAGIC_NUMBER" by simp
  show ?thesis
    unfolding read_footer_def length_write_footer footer_fields [OF len w] v(1) idx m Let_def bloom nulls
    using v(2) by auto
qed

text \<open>C16. The footer of an index file round trips, and nothing else is taken for one. \<^verbatim>\<open>write_footer\<close> writes 52
  bytes from which \<^verbatim>\<open>read_footer\<close> recovers version, handles and absent handles exactly; bytes that are too
  short, carry another magic number or an unknown version are refused.\<close>

theorem footer_correct:
  "(footer_ok f \<longrightarrow> length (write_footer f) = 52 \<and> read_footer (write_footer f) = Inr f)
   \<and> (\<forall>data g. read_footer data = Inr g \<longrightarrow>
        52 \<le> length data \<and> footer_field data 48 4 = 0x50425449 \<and> footer_version g \<in> {1, 2})"
  using footer_round_trip [of f] length_write_footer [of f]
  by (auto simp: read_footer_def Let_def split: if_splits)

theorem footer_correct_witness:
  "read_footer (write_footer (footer_new None \<lparr>handle_offset = 100, handle_size = 20\<rparr> None))
     = Inr (footer_new None \<lparr>handle_offset = 100, handle_size = 20\<rparr> None)"
  using footer_correct [of "footer_new None \<lparr>handle_offset = 100, handle_size = 20\<rparr> None"]
  by (simp add: footer_ok_def footer_new_def handle_ok_def int_range_simps)

end
