(* ===== verification/Roaring.thy ===== *)
theory Roaring
  imports Var_Len
begin

text \<open>
  The \<^verbatim>\<open>roaring\<close> crate, which is not part of the sources, as a parameter of the model: the record
  \<open>roaring\<close> has one field per method of \<^verbatim>\<open>RoaringTreemap\<close> (a set of \<^verbatim>\<open>u64\<close>) and \<^verbatim>\<open>RoaringBitmap\<close> (a set
  of \<^verbatim>\<open>u32\<close>) that the index code calls, and \<open>roaring_ok\<close> states the documented behaviour the code
  relies on: the methods are the set operations, and the serialized treemap is the portable 64-bit
  format, a little-endian count of partitions and, in ascending order of the high 32 bits, each high
  key with its serialized bitmap. \<open>list_roaring\<close> is an instance on association lists.
\<close>

record ('t, 'b) roaring =
  treemap_new :: 't
  treemap_insert :: "int \<Rightarrow> 't \<Rightarrow> 't"
  treemap_insert_range :: "int \<Rightarrow> int \<Rightarrow> 't \<Rightarrow> 't"
  treemap_optimize :: "'t \<Rightarrow> 't"
  treemap_or :: "'t \<Rightarrow> 't \<Rightarrow> 't"
  treemap_sub :: "'t \<Rightarrow> 't \<Rightarrow> 't"
  treemap_serialized_size :: "'t \<Rightarrow> nat"
  treemap_serialize_into :: "'t \<Rightarrow> bytes"
  treemap_deserialize_from :: "bytes \<Rightarrow> 't result"
  treemap_from_bitmaps :: "(int \<times> 'b) list \<Rightarrow> 't"
  treemap_contains :: "'t \<Rightarrow> int \<Rightarrow> bool"
  bitmap_deserialize_from :: "bytes \<Rightarrow> ('b \<times> bytes) result"
  bitmap_is_empty :: "'b \<Rightarrow> bool"
  bitmap_contains :: "'b \<Rightarrow> int \<Rightarrow> bool"

definition rows_in :: "('t, 'b) roaring \<Rightarrow> 't \<Rightarrow> int set" where
  "rows_in R t = {r. treemap_contains R t r}"

definition partition_rows :: "('t, 'b) roaring \<Rightarrow> (int \<times> 'b) list \<Rightarrow> int set" where
  "partition_rows R ps = {h * 2 ^ 32 + low | h b low. (h, b) \<in> set ps \<and> bitmap_contains R b low}"

text \<open>Treemaps that were only ever inserted into.\<close>

inductive built :: "('t, 'b) roaring \<Rightarrow> 't \<Rightarrow> bool" for R where
  built_new: "built R (treemap_new R)"
| built_insert: "built R t \<Longrightarrow> in_u64 r \<Longrightarrow> built R (treemap_insert R r t)"
| built_range: "built R t \<Longrightarrow> in_u64 a \<Longrightarrow> in_u64 b \<Longrightarrow> built R (treemap_insert_range R a b t)"
| built_optimize: "built R t \<Longrightarrow> built R (treemap_optimize R t)"

text \<open>The portable format: the partitions with their serialized and their decoded bitmaps.\<close>

definition portable :: "('t, 'b) roaring \<Rightarrow> 't \<Rightarrow> (int \<times> bytes \<times> 'b) list \<Rightarrow> bool" where
  "portable R t ps \<longleftrightarrow>
     treemap_serialize_into R t
       = to_le 8 (int (length ps)) @ concat (map (\<lambda>(h, bs, b). to_le 4 h @ bs) ps)
     \<and> sorted_wrt (<) (map fst ps)
     \<and> (\<forall>(h, bs, b) \<in> set ps. 0 \<le> h \<and> h < 2 ^ 32 \<and> \<not> bitmap_is_empty R b
          \<and> (\<forall>rest. bitmap_deserialize_from R (bs @ rest) = Inr (b, rest)))
     \<and> rows_in R t = partition_rows R (map (\<lambda>(h, bs, b). (h, b)) ps)"

definition roaring_ok :: "('t, 'b) roaring \<Rightarrow> bool" where
  "roaring_ok R \<longleftrightarrow>
     rows_in R (treemap_new R) = {}
     \<and> (\<forall>r t. in_u64 r \<longrightarrow> rows_in R (treemap_insert R r t) = insert r (rows_in R t))
     \<and> (\<forall>a b t. in_u64 a \<longrightarrow> in_u64 b \<longrightarrow> rows_in R (treemap_insert_range R a b t) = rows_in R t \<union> {a..b})
     \<and> (\<forall>t. rows_in R (treemap_optimize R t) = rows_in R t)
     \<and> (\<forall>s t. rows_in R (treemap_or R s t) = rows_in R s \<union> rows_in R t)
     \<and> (\<forall>s t. rows_in R (treemap_sub R s t) = rows_in R s - rows_in R t)
     \<and> (\<forall>ps. sorted_wrt (<) (map fst ps) \<longrightarrow>
          rows_in R (treemap_from_bitmaps R ps) = partition_rows R ps)
     \<and> (\<forall>b low. bitmap_contains R b low \<longrightarrow> 0 \<le> low \<and> low < 2 ^ 32)
     \<and> (\<forall>b. bitmap_is_empty R b \<longleftrightarrow> (\<forall>low. \<not> bitmap_contains R b low))
     \<and> (\<forall>t. built R t \<longrightarrow> (\<exists>ps. portable R t ps))
     \<and> (\<forall>t. built R t \<longrightarrow> (\<exists>t'. treemap_deserialize_from R (treemap_serialize_into R t) = Inr t'
                                  \<and> rows_in R t' = rows_in R t))"

lemma roaring_okD:
  assumes "roaring_ok R"
  shows "rows_in R (treemap_new R) = {}"
    and "in_u64 r \<Longrightarrow> rows_in R (treemap_insert R r t) = insert r (rows_in R t)"
    and "in_u64 a \<Longrightarrow> in_u64 b \<Longrightarrow> rows_in R (treemap_insert_range R a b t) = rows_in R t \<union> {a..b}"
    and "rows_in R (treemap_optimize R t) = rows_in R t"
    and "rows_in R (treemap_or R s t) = rows_in R s \<union> rows_in R t"
    and "rows_in R (treemap_sub R s t) = rows_in R s - rows_in R t"
    and "sorted_wrt (<) (map fst ps) \<Longrightarrow> rows_in R (treemap_from_bitmaps R ps) = partition_rows R ps"
    and "bitmap_contains R x low \<Longrightarrow> 0 \<le> low \<and> low < 2 ^ 32"
    and "bitmap_is_empty R x \<longleftrightarrow> (\<forall>low. \<not> bitmap_contains R x low)"
    and "built R t \<Longrightarrow> \<exists>ps. portable R t ps"
    and "built R t \<Longrightarrow> \<exists>t'. treemap_deserialize_from R (treemap_serialize_into R t) = Inr t'
           \<and> rows_in R t' = rows_in R t"
  using assms unfolding roaring_ok_def by (simp_all only:)

text \<open>Strictly increasing 32-bit keys: the partition count fits its eight bytes.\<close>

lemma sorted_keys_length:
  assumes "sorted_wrt (<) (hs :: int list)" "\<forall>h \<in> set hs. 0 \<le> h \<and> h < n"
  shows "int (length hs) \<le> max 0 n"
proof -
  have "distinct hs" using assms(1) by (simp add: strict_sorted_iff)
  then have "length hs = card (set hs)" by (simp add: distinct_card)
  also have "\<dots> \<le> card {0..<n}" using assms(2) by (intro card_mono) auto
  finally show ?thesis by simp
qed

section \<open>An instance\<close>

text \<open>A treemap as the ascending list of its partitions, a bitmap as a list of low halves, each written
  as a one byte and its four bytes, with a zero byte at the end.\<close>

fun put_low :: "int \<Rightarrow> int \<Rightarrow> (int \<times> int list) list \<Rightarrow> (int \<times> int list) list" where
  "put_low h l [] = [(h, [l])]"
| "put_low h l ((k, ls) # t) =
     (if h < k then (h, [l]) # (k, ls) # t
      else if h = k then (k, l # ls) # t
      else (k, ls) # put_low h l t)"

definition list_insert :: "int \<Rightarrow> (int \<times> int list) list \<Rightarrow> (int \<times> int list) list" where
  "list_insert r t = put_low (r div 2 ^ 32) (r mod 2 ^ 32) t"

definition list_contains :: "(int \<times> int list) list \<Rightarrow> int \<Rightarrow> bool" where
  "list_contains t r \<longleftrightarrow> list_ex (\<lambda>(h, ls). h = r div 2 ^ 32 \<and> r mod 2 ^ 32 \<in> set ls) t"

definition lows_bytes :: "int list \<Rightarrow> bytes" where
  "lows_bytes ls = concat (map (\<lambda>l. 1 # to_le 4 l) ls) @ [0]"

fun read_lows :: "bytes \<Rightarrow> (int list \<times> bytes) result" where
  "read_lows (tag # a # b # c # d # bs) =
     (if tag = 0 then Inr ([], a # b # c # d # bs)
      else and_then (read_lows bs) (\<lambda>(ls, rest). Inr (from_le [a, b, c, d] # ls, rest)))"
| "read_lows (tag # bs) = (if tag = 0 then Inr ([], bs) else Inl (IoError ''eof''))"
| "read_lows [] = Inl (IoError ''eof'')"

definition list_serialize :: "(int \<times> int list) list \<Rightarrow> bytes" where
  "list_serialize t =
     to_le 8 (int (length t)) @ concat (map (\<lambda>(h, ls). to_le 4 h @ lows_bytes ls) t)"

definition read_part :: "bytes \<Rightarrow> ((int \<times> int list) \<times> bytes) result" where
  "read_part bs = and_then (read_lows (drop 4 bs)) (\<lambda>(ls, rest). Inr ((from_le (take 4 bs), ls), rest))"

definition list_deserialize :: "bytes \<Rightarrow> (int \<times> int list) list result" where
  "list_deserialize bs =
     and_then (decode_many read_part (nat (from_le (take 8 bs))) (drop 8 bs)) (\<lambda>(t, rest). Inr t)"

definition list_roaring :: "((int \<times> int list) list, int list) roaring" where
  "list_roaring = \<lparr>
     treemap_new = [],
     treemap_insert = list_insert,
     treemap_insert_range = (\<lambda>a b t. fold list_insert [a..b] t),
     treemap_optimize = (\<lambda>t. t),
     treemap_or = (\<lambda>s t. s @ t),
     treemap_sub = (\<lambda>s t. map (\<lambda>(h, ls).
        (h, filter (\<lambda>l. \<not> list_contains t (h * 2 ^ 32 + l)) ls)) s),
     treemap_serialized_size = (\<lambda>t. length (list_serialize t)),
     treemap_serialize_into = list_serialize,
     treemap_deserialize_from = list_deserialize,
     treemap_from_bitmaps = (\<lambda>ps. ps),
     treemap_contains = list_contains,
     bitmap_deserialize_from = read_lows,
     bitmap_is_empty = (\<lambda>b. filter (\<lambda>l. 0 \<le> l \<and> l < 2 ^ 32) b = []),
     bitmap_contains = (\<lambda>b l. 0 \<le> l \<and> l < 2 ^ 32 \<and> l \<in> set b) \<rparr>"

text \<open>The shape every treemap built by insertion has.\<close>

definition list_wf :: "(int \<times> int list) list \<Rightarrow> bool" where
  "list_wf t \<longleftrightarrow> sorted_wrt (<) (map fst t)
     \<and> (\<forall>(h, ls) \<in> set t. 0 \<le> h \<and> h < 2 ^ 32 \<and> ls \<noteq> [] \<and> (\<forall>l \<in> set ls. 0 \<le> l \<and> l < 2 ^ 32))"

lemma set_put_low: "fst ` set (put_low h l t) = insert h (fst ` set t)"
proof (induction h l t rule: put_low.induct)
  case (2 h l k ls t)
  then show ?case by (cases "h < k"; cases "h = k") auto
qed simp

lemma put_low_wf:
  assumes "list_wf t" "0 \<le> h" "h < 2 ^ 32" "0 \<le> l" "l < 2 ^ 32"
  shows "list_wf (put_low h l t)"
  using assms
proof (induction h l t rule: put_low.induct)
  case (2 h l k ls t)
  have t: "list_wf t" and k: "\<forall>x \<in> fst ` set t. k < x"
    using "2.prems"(1) by (auto simp: list_wf_def)
  show ?case
  proof (cases "k < h")
    case True
    then have "list_wf (put_low h l t)" using 2 t by simp
    moreover have "\<forall>x \<in> fst ` set (put_low h l t). k < x" using k True by (simp add: set_put_low)
    ultimately show ?thesis using "2.prems"(1) True by (auto simp: list_wf_def)
  next
    case False
    then show ?thesis using "2.prems" k by (cases "h = k") (auto simp: list_wf_def)
  qed
qed (simp add: list_wf_def)

lemma list_contains_put:
  "list_contains (put_low h l t) r \<longleftrightarrow> (h = r div 2 ^ 32 \<and> l = r mod 2 ^ 32) \<or> list_contains t r"
  by (induction h l t rule: put_low.induct) (auto simp: list_contains_def)

lemma list_contains_insert: "list_contains (list_insert a t) r \<longleftrightarrow> r = a \<or> list_contains t r"
  unfolding list_insert_def list_contains_put by (metis div_mult_mod_eq)

lemma list_contains_fold: "list_contains (fold list_insert xs t) r \<longleftrightarrow> r \<in> set xs \<or> list_contains t r"
  by (induction xs arbitrary: t) (auto simp: list_contains_insert)

lemma list_insert_wf: "list_wf t \<Longrightarrow> in_u64 r \<Longrightarrow> list_wf (list_insert r t)"
  unfolding list_insert_def
  by (rule put_low_wf) (auto simp: int_range_simps)

lemma list_fold_wf: "list_wf t \<Longrightarrow> \<forall>r \<in> set xs. in_u64 r \<Longrightarrow> list_wf (fold list_insert xs t)"
  by (induction xs arbitrary: t) (auto simp: list_insert_wf)

lemma built_list_wf: "built list_roaring t \<Longrightarrow> list_wf t"
proof (induction rule: built.induct)
  case (built_range t a b)
  then show ?case
    by (auto simp: list_roaring_def int_range_simps intro!: list_fold_wf)
qed (auto simp: list_roaring_def list_insert_wf, simp add: list_wf_def)

lemma read_lows_bytes:
  "\<forall>l \<in> set ls. 0 \<le> l \<and> l < 2 ^ 32 \<Longrightarrow> read_lows (lows_bytes ls @ rest) = Inr (ls, rest)"
proof (induction ls)
  case Nil
  then show ?case by (cases rest rule: read_lows.cases) (auto simp: lows_bytes_def)
next
  case (Cons l ls)
  obtain a b c d where q: "to_le 4 l = [a, b, c, d]"
    using length_to_le [of 4 l] by (auto simp: numeral_eq_Suc length_Suc_conv)
  have "from_le [a, b, c, d] = l"
    using from_to_le [of 4 l] Cons.prems unfolding q by simp
  with Cons q show ?case by (simp add: lows_bytes_def)
qed

lemma read_part_bytes:
  assumes "0 \<le> h" "h < 2 ^ 32" "\<forall>l \<in> set ls. 0 \<le> l \<and> l < 2 ^ 32"
  shows "read_part (to_le 4 h @ lows_bytes ls @ rest) = Inr ((h, ls), rest)"
  using assms read_lows_bytes [OF assms(3), of rest] from_to_le [of 4 h]
  by (simp add: read_part_def)

lemma list_round_trip:
  assumes "list_wf t"
  shows "list_deserialize (list_serialize t) = Inr t"
proof -
  have "int (length (map fst t)) \<le> max 0 (2 ^ 32)"
    using assms by (intro sorted_keys_length) (auto simp: list_wf_def)
  then have "nat (from_le (to_le 8 (int (length t)))) = length t"
    by (simp add: from_to_le)
  moreover have "decode_many read_part (length t) (concat (map (\<lambda>(h, ls). to_le 4 h @ lows_bytes ls) t))
      = Inr (t, [])"
    using assms
  proof (induction t)
    case (Cons p t)
    have "list_wf t" using Cons.prems by (auto simp: list_wf_def)
    with Cons show ?case
      by (cases p) (auto simp: list_wf_def read_part_bytes)
  qed simp
  ultimately show ?thesis by (simp add: list_deserialize_def list_serialize_def)
qed

lemma list_partition_rows:
  "partition_rows list_roaring ps = {r. list_contains ps r}"
proof (intro set_eqI iffI)
  fix r assume "r \<in> partition_rows list_roaring ps"
  then obtain h b low where p: "(h, b) \<in> set ps" "0 \<le> low" "low < 2 ^ 32" "low \<in> set b"
    and r: "r = h * 2 ^ 32 + low"
    by (auto simp: partition_rows_def list_roaring_def)
  have "r div 2 ^ 32 = h" "r mod 2 ^ 32 = low" unfolding r using p by simp_all
  with p show "r \<in> {r. list_contains ps r}"
    by (auto simp: list_contains_def list_ex_iff intro!: bexI [of _ "(h, b)"])
next
  fix r assume "r \<in> {r. list_contains ps r}"
  then obtain h b where p: "(h, b) \<in> set ps" "h = r div 2 ^ 32" "r mod 2 ^ 32 \<in> set b"
    by (auto simp: list_contains_def list_ex_iff)
  have "r = h * 2 ^ 32 + r mod 2 ^ 32" unfolding p(2) by (rule div_mult_mod_eq [symmetric])
  moreover have "bitmap_contains list_roaring b (r mod 2 ^ 32)"
    using p(3) by (simp add: list_roaring_def)
  ultimately show "r \<in> partition_rows list_roaring ps"
    unfolding partition_rows_def using p(1) by blast
qed

lemma list_portable:
  assumes "list_wf t"
  shows "portable list_roaring t (map (\<lambda>(h, ls). (h, lows_bytes ls, ls)) t)"
proof -
  have m: "map (\<lambda>(h, bs, b). (h, b)) (map (\<lambda>(h, ls). (h, lows_bytes ls, ls)) t) = t"
    by (induction t) auto
  have k: "map fst (map (\<lambda>(h, ls). (h, lows_bytes ls, ls)) t) = map fst t"
    by (induction t) auto
  have c: "concat (map (\<lambda>(h, bs, b). to_le 4 h @ bs) (map (\<lambda>(h, ls). (h, lows_bytes ls, ls)) t))
      = concat (map (\<lambda>(h, ls). to_le 4 h @ lows_bytes ls) t)"
    by (induction t) auto
  have "rows_in list_roaring t = {r. list_contains t r}"
    by (simp add: rows_in_def list_roaring_def)
  moreover have "filter (\<lambda>l. 0 \<le> l \<and> l < 4294967296) ls = ls" if "(h, ls) \<in> set t" for h ls
    using assms that by (intro filter_True) (auto simp: list_wf_def)
  ultimately show ?thesis
    using assms unfolding portable_def m k c list_partition_rows
    by (auto simp: list_roaring_def list_serialize_def list_wf_def read_lows_bytes)
qed

lemma list_roaring_ok: "roaring_ok list_roaring"
proof -
  have c: "treemap_contains list_roaring = list_contains" by (simp add: list_roaring_def)
  have rows: "rows_in list_roaring t = {r. list_contains t r}" for t
    by (simp add: rows_in_def c)
  have sub: "list_contains (treemap_sub list_roaring s t) r \<longleftrightarrow> list_contains s r \<and> \<not> list_contains t r"
    for s t r
  proof -
    have "r div 2 ^ 32 * 2 ^ 32 + r mod 2 ^ 32 = r" by (rule div_mult_mod_eq)
    then have "list_contains (treemap_sub list_roaring s t) r \<longleftrightarrow>
        (\<exists>p \<in> set s. fst p = r div 2 ^ 32 \<and> r mod 2 ^ 32 \<in> set (snd p) \<and> \<not> list_contains t r)"
      by (auto simp: list_roaring_def list_contains_def [of "map _ _"] list_ex_iff split_beta)
    then show ?thesis by (auto simp: list_contains_def [of s] list_ex_iff split_beta)
  qed
  show ?thesis
    unfolding roaring_ok_def rows list_partition_rows
  proof (intro conjI allI impI)
    fix t assume "built list_roaring t"
    then have wf: "list_wf t" by (rule built_list_wf)
    show "\<exists>ps. portable list_roaring t ps" using list_portable [OF wf] by blast
    show "\<exists>t'. treemap_deserialize_from list_roaring (treemap_serialize_into list_roaring t) = Inr t'
           \<and> {r. list_contains t' r} = {r. list_contains t r}"
      using list_round_trip [OF wf] by (simp add: list_roaring_def)
  next
    fix s t
    show "{r. list_contains (treemap_sub list_roaring s t) r}
        = {r. list_contains s r} - {r. list_contains t r}"
      by (auto simp: sub)
  qed (auto simp: list_roaring_def list_contains_insert list_contains_fold,
       auto simp: list_contains_def filter_empty_conv)
qed

end
