(* ===== verification/Posting_List.thy ===== *)
theory Posting_List
  imports Roaring
begin

text \<open>
  \<^verbatim>\<open>crates/paimon/src/btree/posting_list.rs\<close>: the row ids stored under a key. Version 1 is a count and
  the ids; version 2 picks a single id, a delta list or a Roaring treemap, whichever is smaller.
  \<open>add_to\<close> and \<open>serialize_rows\<close> (\<^verbatim>\<open>serialize\<close>) are the two entry points; the \<^verbatim>\<open>RoaringTreemap\<close> is the
  parameter \<open>R\<close>. A failing \<open>add_to\<close> gives up its target, as every caller does.
\<close>

section \<open>Reading\<close>

text \<open>\<^verbatim>\<open>1u64 << (bits - shift).min(7)\<close> bounds the payload of the last byte.\<close>

fun read_loop :: "nat \<Rightarrow> nat list \<Rightarrow> int \<Rightarrow> bytes \<Rightarrow> (int \<times> bytes) result" where
  "read_loop bits [] value bs = Inl (IoError ''Malformed BTree posting integer'')"
| "read_loop bits (shift # ss) value [] = Inl (IoError ''failed to fill whole buffer'')"
| "read_loop bits (shift # ss) value (b # bs) =
     (if 2 ^ min (bits - shift) 7 \<le> uint (b AND 0x7F)
      then Inl (IoError ''BTree posting integer overflow'')
      else
        let value' = or_shifted 64 value b shift in
        if b AND 0x80 = 0 then Inr (value', bs) else read_loop bits ss value' bs)"

definition read_non_negative :: "nat \<Rightarrow> bytes \<Rightarrow> (int \<times> bytes) result" where
  "read_non_negative bits bs = read_loop bits (shifts 0 bits) 0 bs"

text \<open>\<^verbatim>\<open>for _ in 0..count { target.insert(read_non_negative(&mut input, 63)?) }\<close>\<close>

fun insert_rows :: "('t, 'b) roaring \<Rightarrow> nat \<Rightarrow> bytes \<Rightarrow> 't \<Rightarrow> ('t \<times> bytes) result" where
  "insert_rows R 0 bs target = Inr (target, bs)"
| "insert_rows R (Suc n) bs target =
     and_then (read_non_negative 63 bs) (\<lambda>(row, bs'). insert_rows R n bs' (treemap_insert R row target))"

fun delta_rows :: "('t, 'b) roaring \<Rightarrow> nat \<Rightarrow> int \<Rightarrow> bytes \<Rightarrow> 't \<Rightarrow> ('t \<times> bytes) result" where
  "delta_rows R 0 row bs target = Inr (target, bs)"
| "delta_rows R (Suc n) row bs target =
     and_then (read_non_negative 63 bs) (\<lambda>(delta, bs').
       if delta = 0 then Inl (IoError ''BTree row ID delta must be positive'')
       else case checked_add_u64 row delta of
           None \<Rightarrow> Inl (IoError ''BTree delta row ID overflow'')
         | Some row' \<Rightarrow>
             if row' \<le> i64_max then delta_rows R n row' bs' (treemap_insert R row' target)
             else Inl (IoError ''BTree delta row ID overflow''))"

definition read_exact :: "nat \<Rightarrow> bytes \<Rightarrow> (bytes \<times> bytes) result" where
  "read_exact n bs =
     (if length bs < n then Inl (IoError ''failed to fill whole buffer'')
      else Inr (take n bs, drop n bs))"

fun read_partitions :: "('t, 'b) roaring \<Rightarrow> nat \<Rightarrow> int option \<Rightarrow> bytes \<Rightarrow> ((int \<times> 'b) list \<times> bytes) result" where
  "read_partitions R 0 previous bs = Inr ([], bs)"
| "read_partitions R (Suc n) previous bs =
     and_then (read_exact 4 bs) (\<lambda>(word, bs').
       let high = from_le word in
       if i32_max < high \<or> (case previous of None \<Rightarrow> False | Some prior \<Rightarrow> high \<le> prior)
       then Inl (IoError ''Invalid BTree Roaring high keys'')
       else and_then (bitmap_deserialize_from R bs') (\<lambda>(bitmap, bs'').
         if bitmap_is_empty R bitmap then Inl (IoError ''Empty BTree Roaring partition'')
         else and_then (read_partitions R n (Some high) bs'')
           (\<lambda>(bitmaps, rest). Inr ((high, bitmap) # bitmaps, rest))))"

definition add_roaring :: "('t, 'b) roaring \<Rightarrow> bytes \<Rightarrow> 't \<Rightarrow> ('t \<times> bytes) result" where
  "add_roaring R bs target =
     and_then (read_exact 8 bs) (\<lambda>(word, bs').
       let cnt = from_le word in
       if cnt = 0 then Inl (IoError ''Empty BTree Roaring posting'')
       else and_then (read_partitions R (nat cnt) None bs') (\<lambda>(bitmaps, rest).
         Inr (treemap_or R target (treemap_from_bitmaps R bitmaps), rest)))"

definition add_delta :: "('t, 'b) roaring \<Rightarrow> bytes \<Rightarrow> 't \<Rightarrow> ('t \<times> bytes) result" where
  "add_delta R bs target =
     and_then (read_non_negative 31 bs) (\<lambda>(cnt, bs').
       if cnt < 2 then Inl (IoError ''Invalid BTree delta posting count'')
       else and_then (read_non_negative 63 bs') (\<lambda>(row, bs'').
         delta_rows R (nat cnt - 1) row bs'' (treemap_insert R row target)))"

definition add_to :: "('t, 'b) roaring \<Rightarrow> bytes \<Rightarrow> int \<Rightarrow> 't \<Rightarrow> 't result" where
  "add_to R data version target =
     and_then
       (if version = 1 then
          and_then (read_non_negative 31 data) (\<lambda>(cnt, bs). insert_rows R (nat cnt) bs target)
        else
          and_then (read_exact 1 data) (\<lambda>(tag, bs).
            if tag = [0] then
              and_then (read_non_negative 63 bs) (\<lambda>(row, rest). Inr (treemap_insert R row target, rest))
            else if tag = [1] then add_delta R bs target
            else if tag = [2] then add_roaring R bs target
            else Inl (IoError ''Unknown BTree posting encoding'')))
       (\<lambda>(target', rest).
          if rest \<noteq> [] then Inl (IoError ''Trailing bytes in BTree posting'') else Inr target')"

section \<open>Writing\<close>

text \<open>\<^verbatim>\<open>64 - value.leading_zeros()\<close>\<close>

fun bit_len :: "nat \<Rightarrow> nat" where
  "bit_len n = (if n = 0 then 0 else Suc (bit_len (n div 2)))"

declare bit_len.simps [simp del]

definition var_len :: "int \<Rightarrow> nat" where
  "var_len value = (max (bit_len (nat value)) 1 + 6) div 7"

definition container_lower_bound :: "nat \<Rightarrow> nat \<Rightarrow> nat" where
  "container_lower_bound cnt runs = 4 + min (min (2 * cnt) 8192) (2 + 4 * runs)"

record estimate =
  delta_size :: nat
  roaring_min :: nat
  count_in_container :: nat
  est_runs :: nat

text \<open>The loop over \<^verbatim>\<open>rows.windows(2)\<close> that sizes both encodings.\<close>

fun estimate_loop :: "int list \<Rightarrow> estimate \<Rightarrow> estimate result" where
  "estimate_loop (previous # row # rows) st =
     (if row \<le> previous then Inl (IoError ''BTree V2 row IDs must be strictly increasing'')
      else
        let st = st\<lparr>delta_size := delta_size st + var_len (row - previous)\<rparr> in
        estimate_loop (row # rows)
          (if row div 2 ^ 16 \<noteq> previous div 2 ^ 16 then
             st\<lparr>roaring_min := roaring_min st + container_lower_bound (count_in_container st) (est_runs st)
                  + (if row div 2 ^ 32 \<noteq> previous div 2 ^ 32 then 8 else 0),
                count_in_container := 1, est_runs := 1\<rparr>
           else
             st\<lparr>count_in_container := count_in_container st + 1,
                est_runs := (if row \<noteq> previous + 1 then est_runs st + 1 else est_runs st)\<rparr>))"
| "estimate_loop rows st = Inr st"

text \<open>The loop that inserts the runs of consecutive ids as ranges.\<close>

fun insert_runs :: "('t, 'b) roaring \<Rightarrow> int \<Rightarrow> int \<Rightarrow> int list \<Rightarrow> 't \<Rightarrow> 't" where
  "insert_runs R start e [] bitmap = treemap_insert_range R start e bitmap"
| "insert_runs R start e (row # rows) bitmap =
     (if row \<noteq> e + 1 then insert_runs R row row rows (treemap_insert_range R start e bitmap)
      else insert_runs R start row rows bitmap)"

fun encode_deltas :: "int list \<Rightarrow> bytes" where
  "encode_deltas (a # b # rows) = encode_var_long (b - a) @ encode_deltas (b # rows)"
| "encode_deltas rows = []"

definition serialize_rows :: "('t, 'b) roaring \<Rightarrow> int list \<Rightarrow> int \<Rightarrow> bytes result" where
  "serialize_rows R rows version =
     (if i32_max < int (length rows) then Inl (IoError ''Too many BTree row IDs'')
      else if rows = [] \<or> list_ex (\<lambda>r. r < 0) rows
      then Inl (IoError ''BTree posting requires non-negative row IDs'')
      else if version = 1 then
        Inr (encode_var_int (int (length rows)) @ concat (map encode_var_long rows))
      else if length rows = 1 then Inr (0 # encode_var_long (hd rows))
      else and_then
        (estimate_loop rows
           \<lparr>delta_size = 1 + var_len (int (length rows)) + var_len (hd rows),
            roaring_min = 1 + 8 + 4 + 4, count_in_container = 1, est_runs = 1\<rparr>)
        (\<lambda>st.
           let smallest = roaring_min st + container_lower_bound (count_in_container st) (est_runs st);
               deltas = 1 # encode_var_int (int (length rows)) @ encode_var_long (hd rows)
                          @ encode_deltas rows in
           if smallest < delta_size st then
             let bitmap = treemap_optimize R
                   (insert_runs R (hd rows) (hd rows) (tl rows) (treemap_new R)) in
             if 1 + treemap_serialized_size R bitmap < delta_size st
             then Inr (2 # treemap_serialize_into R bitmap)
             else Inr deltas
           else Inr deltas))"

section \<open>Round trip\<close>

lemma read_loop_encode:
  assumes "s < bits" "bits \<le> 63" "0 \<le> r" "r < 2 ^ s" "int v * 2 ^ s < 2 ^ bits"
  shows "read_loop bits (shifts s bits) r (encode_loop v @ rest) = Inr (r + int v * 2 ^ s, rest)"
  using assms
proof (induction v arbitrary: r s rule: encode_loop.induct)
  case (1 v)
  note sh = shifts.simps [of s bits] and en = encode_loop.simps [of v]
  have "(2 :: int) ^ bits \<le> 2 ^ 64" using 1(3) by (intro power_increasing) auto
  then have w: "int v * 2 ^ s < 2 ^ 64" using 1(6) by linarith
  have "int v < 2 ^ (bits - s)"
  proof -
    have "(2 :: int) ^ bits = 2 ^ (bits - s) * 2 ^ s" using 1(2) by (simp add: power_add [symmetric])
    then show ?thesis using 1(6) by simp
  qed
  then have small: "int (v mod 128) < 2 ^ min (bits - s) 7"
    using mod_less_eq_dividend [of v 128] mod_less_divisor [of 128 v]
    by (cases "bits - s \<le> 7") (auto simp: min_def)
  show ?case
  proof (cases "v < 128")
    case True
    then have "uint ((of_nat v :: byte) AND 0x7F) = int (v mod 128)"
      by (simp add: low_bits uint_low_byte)
    with True small show ?thesis
      using 1(2) by (simp add: sh en continuation_bit decode_last [OF 1(4,5) w])
  next
    case False
    then have v: "128 \<le> v" by simp
    note st = decode_step [OF 1(4,5,6) v] and st1 = decode_step(1) [OF 1(4,5) w v]
    have "v mod 128 + 128 < 256" using mod_less_divisor [of 128 v] by linarith
    then have "uint ((of_nat (v mod 128 + 128) :: byte) AND 0x7F) = int (v mod 128)"
      by (subst low_bits, subst uint_low_byte) (simp_all add: of_nat_mod)
    moreover have "0 \<le> r + int (v mod 128) * 2 ^ s" using 1(4) by simp
    note 1(1) [OF False st(4) 1(3) this st(2,3)]
    ultimately show ?thesis
      using 1(2) False small
      by (simp add: sh en continuation_bit st1 Let_def int_split_128 [of v s] add.assoc
          del: power_add of_nat_add)
  qed
qed

lemma read_non_negative_encode:
  assumes "0 < bits" "bits \<le> 63" "int v < 2 ^ bits"
  shows "read_non_negative bits (encode_loop v @ rest) = Inr (int v, rest)"
  using read_loop_encode [of 0 bits 0 v rest] assms by (simp add: read_non_negative_def)

definition row_id :: "int \<Rightarrow> bool" where "row_id r \<longleftrightarrow> 0 \<le> r \<and> r \<le> i64_max"

definition posting_count :: "int \<Rightarrow> bool" where "posting_count n \<longleftrightarrow> 0 \<le> n \<and> n \<le> i32_max"

interpretation row_codec: byte_codec encode_var_long "read_non_negative 63" row_id
proof
  fix x rest
  assume x: "row_id x"
  then have "nat (wrap_unsigned 64 x) = nat x"
    by (simp add: wrap_unsigned_def row_id_def int_range_simps)
  then show "read_non_negative 63 (encode_var_long x @ rest) = Inr (x, rest)"
    using read_non_negative_encode [of 63 "nat x" rest] x
    by (simp add: encode_var_long_def encode_long_loop_eq row_id_def int_range_simps)
qed

interpretation count_codec: byte_codec encode_var_int "read_non_negative 31" posting_count
proof
  fix x rest
  assume x: "posting_count x"
  then have "nat (wrap_unsigned 32 x) = nat x"
    by (simp add: wrap_unsigned_def posting_count_def int_range_simps)
  then show "read_non_negative 31 (encode_var_int x @ rest) = Inr (x, rest)"
    using read_non_negative_encode [of 31 "nat x" rest] x
    by (simp add: encode_var_int_def posting_count_def int_range_simps)
qed

lemma row_id_u64: "row_id r \<Longrightarrow> in_u64 r"
  by (simp add: row_id_def int_range_simps)

lemma insert_rows_encode:
  assumes "roaring_ok R" "list_all row_id rows"
  shows "\<exists>t'. insert_rows R (length rows) (concat (map encode_var_long rows) @ rest) t = Inr (t', rest)
    \<and> rows_in R t' = rows_in R t \<union> set rows"
  using assms(2)
proof (induction rows arbitrary: t)
  case (Cons r rows)
  then show ?case
    using Cons.IH [of "treemap_insert R r t"] roaring_okD(2) [OF assms(1) row_id_u64, of r]
    by (auto simp: row_codec.dec_enc)
qed simp

lemma delta_rows_encode:
  assumes "roaring_ok R" "list_all row_id (a # rows)" "sorted_wrt (<) (a # rows)"
  shows "\<exists>t'. delta_rows R (length rows) a (encode_deltas (a # rows) @ rest) t = Inr (t', rest)
    \<and> rows_in R t' = rows_in R t \<union> set rows"
  using assms(2,3)
proof (induction rows arbitrary: a t)
  case (Cons b rows)
  have "row_id (b - a)" "b - a \<noteq> 0" "checked_add_u64 a (b - a) = Some b" "b \<le> i64_max"
    using Cons.prems by (auto simp: row_id_def checked_add_u64_def int_range_simps)
  then show ?case
    using Cons.IH [of b "treemap_insert R b t"] roaring_okD(2) [OF assms(1) row_id_u64, of b] Cons.prems
    by (auto simp: row_codec.dec_enc)
qed simp

lemma estimate_loop_sorted:
  "(\<exists>st'. estimate_loop rows st = Inr st') \<longleftrightarrow> sorted_wrt (<) rows"
proof (induction rows st rule: estimate_loop.induct)
  case (1 previous row rows st)
  show ?case
  proof (cases "row \<le> previous")
    case False
    then have "sorted_wrt (<) (previous # row # rows) \<longleftrightarrow> sorted_wrt (<) (row # rows)" by force
    then show ?thesis using False 1 [OF False refl] by (simp only: estimate_loop.simps Let_def if_False)
  qed simp
qed simp_all

lemma insert_runs_rows:
  assumes "roaring_ok R" "in_u64 s" "in_u64 e" "s \<le> e" "list_all in_u64 rows" "built R t"
  shows "rows_in R (insert_runs R s e rows t) = rows_in R t \<union> {s..e} \<union> set rows
    \<and> built R (insert_runs R s e rows t)"
  using assms(2-)
proof (induction rows arbitrary: s e t)
  case Nil
  then show ?case using roaring_okD(3) [OF assms(1)] built_range by fastforce
next
  case (Cons r rows)
  show ?case
  proof (cases "r = e + 1")
    case True
    then have "{s..r} = insert r {s..e}" using Cons.prems by auto
    with True show ?thesis using Cons.IH [of s r t] Cons.prems by auto
  next
    case False
    then show ?thesis
      using Cons.IH [of r r "treemap_insert_range R s e t"] Cons.prems
        roaring_okD(3) [OF assms(1), of s e t] built_range [of R t s e] by auto
  qed
qed

text \<open>A treemap of row ids, written and read back partition by partition.\<close>

lemma read_partitions_portable:
  assumes "\<forall>(h, bs, b) \<in> set ps. 0 \<le> h \<and> h \<le> i32_max \<and> \<not> bitmap_is_empty R b
      \<and> (\<forall>rest. bitmap_deserialize_from R (bs @ rest) = Inr (b, rest))"
    "sorted_wrt (<) (map fst ps)" "\<forall>p. previous = Some p \<longrightarrow> (\<forall>h \<in> fst ` set ps. p < h)"
  shows "read_partitions R (length ps) previous (concat (map (\<lambda>(h, bs, b). to_le 4 h @ bs) ps) @ rest)
    = Inr (map (\<lambda>(h, bs, b). (h, b)) ps, rest)"
  using assms
proof (induction ps arbitrary: previous)
  case (Cons p ps)
  obtain h bs b where p: "p = (h, bs, b)" by (cases p) auto
  have h: "0 \<le> h" "h \<le> i32_max" using Cons.prems(1) p by auto
  then have "from_le (to_le 4 h) = h" by (simp add: from_to_le int_range_simps)
  moreover have "\<not> (case previous of None \<Rightarrow> False | Some prior \<Rightarrow> h \<le> prior)"
    using Cons.prems(3) p by (auto split: option.splits)
  moreover have "read_partitions R (length ps) (Some h)
      (concat (map (\<lambda>(h, bs, b). to_le 4 h @ bs) ps) @ rest) = Inr (map (\<lambda>(h, bs, b). (h, b)) ps, rest)"
    using Cons.prems p by (intro Cons.IH) auto
  ultimately show ?case
    using Cons.prems(1) h p by (simp add: read_exact_def)
qed simp

lemma add_roaring_serialized:
  assumes R: "roaring_ok R" and b: "built R m" and rows: "\<forall>r \<in> rows_in R m. row_id r" "rows_in R m \<noteq> {}"
  shows "\<exists>t'. add_roaring R (treemap_serialize_into R m) t = Inr (t', [])
    \<and> rows_in R t' = rows_in R t \<union> rows_in R m"
proof -
  obtain ps where "portable R m ps" using roaring_okD(10) [OF R b] by blast
  then have ser: "treemap_serialize_into R m
      = to_le 8 (int (length ps)) @ concat (map (\<lambda>(h, bs, b). to_le 4 h @ bs) ps)"
    and sorted: "sorted_wrt (<) (map fst ps)"
    and parts: "\<And>h bs b. (h, bs, b) \<in> set ps \<Longrightarrow> 0 \<le> h \<and> h < 2 ^ 32 \<and> \<not> bitmap_is_empty R b
          \<and> (\<forall>rest. bitmap_deserialize_from R (bs @ rest) = Inr (b, rest))"
    and m: "rows_in R m = partition_rows R (map (\<lambda>(h, bs, b). (h, b)) ps)"
    unfolding portable_def by blast+
  have small: "h \<le> i32_max" if p: "(h, bs, b) \<in> set ps" for h bs b
  proof -
    obtain low where low: "bitmap_contains R b low"
      using parts [OF p] roaring_okD(9) [OF R] by blast
    have "(h, b) \<in> set (map (\<lambda>(h, bs, b). (h, b)) ps)" using p by force
    then have "h * 2 ^ 32 + low \<in> rows_in R m"
      unfolding m partition_rows_def using low by blast
    then have "h * 2 ^ 32 + low \<le> i64_max" using rows(1) by (simp add: row_id_def)
    then show ?thesis using roaring_okD(8) [OF R low] by (simp add: int_range_simps)
  qed
  have "ps \<noteq> []" using rows(2) m by (auto simp: partition_rows_def)
  moreover have "int (length (map fst ps)) \<le> max 0 (2 ^ 32)"
    using sorted parts by (intro sorted_keys_length) auto
  then have "from_le (to_le 8 (int (length ps))) = int (length ps)" by (simp add: from_to_le)
  moreover have "read_partitions R (length ps) None (concat (map (\<lambda>(h, bs, b). to_le 4 h @ bs) ps) @ [])
      = Inr (map (\<lambda>(h, bs, b). (h, b)) ps, [])"
    using parts small sorted by (intro read_partitions_portable) auto
  moreover have "map fst (map (\<lambda>(h, bs, b). (h, b)) ps) = map fst ps" by (induction ps) auto
  then have "rows_in R (treemap_from_bitmaps R (map (\<lambda>(h, bs, b). (h, b)) ps)) = rows_in R m"
    unfolding m using sorted by (intro roaring_okD(7) [OF R]) (simp only:)
  ultimately show ?thesis
    using roaring_okD(5) [OF R] by (simp add: add_roaring_def ser read_exact_def)
qed

definition posting_input :: "int list \<Rightarrow> int \<Rightarrow> bool" where
  "posting_input rows version \<longleftrightarrow> rows \<noteq> [] \<and> int (length rows) \<le> i32_max
     \<and> list_all (\<lambda>r. 0 \<le> r) rows \<and> (version = 1 \<or> sorted_wrt (<) rows)"

lemma serialize_rows_succeeds:
  "(\<exists>bs. serialize_rows R rows version = Inr bs) \<longleftrightarrow> posting_input rows version"
proof -
  have neg: "list_ex (\<lambda>r. r < 0) rows \<longleftrightarrow> \<not> list_all (\<lambda>r. 0 \<le> r) rows"
    by (induction rows) auto
  have one: "length rows = 1 \<Longrightarrow> sorted_wrt (<) rows" by (auto simp: length_Suc_conv)
  show ?thesis
  proof (cases "int (length rows) \<le> i32_max \<and> rows \<noteq> [] \<and> list_all (\<lambda>r. 0 \<le> r) rows
      \<and> version \<noteq> 1 \<and> length rows \<noteq> 1")
    case True
    let ?st = "\<lparr>delta_size = 1 + var_len (int (length rows)) + var_len (hd rows),
      roaring_min = 1 + 8 + 4 + 4, count_in_container = 1, est_runs = 1\<rparr>"
    show ?thesis
      using True estimate_loop_sorted [of rows ?st]
      by (cases "estimate_loop rows ?st") (simp_all add: serialize_rows_def posting_input_def neg Let_def)
  next
    case False
    then show ?thesis using one by (auto simp: serialize_rows_def posting_input_def neg)
  qed
qed

lemma single_row: "length rows = 1 \<Longrightarrow> rows = [hd rows]"
  by (cases rows) auto

lemma posting_delta:
  assumes R: "roaring_ok R" and rows: "list_all row_id rows" "sorted_wrt (<) rows" "2 \<le> length rows"
    "int (length rows) \<le> i32_max"
  shows "\<exists>t'. add_delta R (encode_var_int (int (length rows)) @ encode_var_long (hd rows)
                              @ encode_deltas rows) t = Inr (t', [])
    \<and> rows_in R t' = rows_in R t \<union> set rows"
proof -
  obtain a rs where r: "rows = a # rs" using rows(3) by (cases rows) auto
  have "posting_count (int (length rows))" using rows(4) by (simp add: posting_count_def)
  moreover have a: "row_id a" using rows(1) r by simp
  moreover obtain t' where "delta_rows R (length rs) a (encode_deltas rows @ []) (treemap_insert R a t)
      = Inr (t', [])" "rows_in R t' = rows_in R (treemap_insert R a t) \<union> set rs"
    using delta_rows_encode [OF R, of a rs "[]"] rows(1,2) r by blast
  moreover have "nat (int (length rows)) - 1 = length rs" using r by simp
  ultimately show ?thesis
    using rows(3) r roaring_okD(2) [OF R row_id_u64 [OF a], of t]
    by (auto simp: add_delta_def nat_add_distrib count_codec.dec_enc row_codec.dec_enc)
qed

lemma posting_runs:
  assumes R: "roaring_ok R" and rows: "list_all row_id rows" "rows \<noteq> []"
  defines "m \<equiv> treemap_optimize R (insert_runs R (hd rows) (hd rows) (tl rows) (treemap_new R))"
  shows "\<exists>t'. add_roaring R (treemap_serialize_into R m) t = Inr (t', [])
    \<and> rows_in R t' = rows_in R t \<union> set rows"
proof -
  have u: "list_all in_u64 rows" using rows(1) by (auto simp: list_all_iff row_id_u64)
  obtain a rs where r: "rows = a # rs" using rows(2) by (cases rows) auto
  have ins: "rows_in R (insert_runs R a a rs (treemap_new R)) = rows_in R (treemap_new R) \<union> {a..a} \<union> set rs
      \<and> built R (insert_runs R a a rs (treemap_new R))"
    using u r by (intro insert_runs_rows [OF R]) (auto intro: built_new)
  then have m: "built R m" "rows_in R m = set rows"
    using roaring_okD(1,4) [OF R] by (simp_all add: m_def r built_optimize)
  have "\<forall>r \<in> rows_in R m. row_id r" "rows_in R m \<noteq> {}" using rows m(2) by (auto simp: list_all_iff)
  from add_roaring_serialized [OF R m(1) this] show ?thesis by (simp add: m(2))
qed

lemma posting_round_trip:
  assumes R: "roaring_ok R" and ser: "serialize_rows R rows version = Inr bs" and "list_all in_i64 rows"
  shows "\<exists>t'. add_to R bs version t = Inr t' \<and> rows_in R t' = rows_in R t \<union> set rows"
proof -
  have inp: "posting_input rows version" using ser serialize_rows_succeeds by blast
  then have rows: "list_all row_id rows" and len: "int (length rows) \<le> i32_max" "rows \<noteq> []"
    and neg: "\<not> list_ex (\<lambda>r. r < 0) rows"
    using assms(3) by (auto simp: posting_input_def list_all_iff row_id_def in_i64_def list_ex_iff not_less)
  consider (v1) "version = 1" | (one) "version \<noteq> 1" "length rows = 1"
    | (many) "version \<noteq> 1" "2 \<le> length rows" "sorted_wrt (<) rows"
    using inp len(2) by (cases rows; cases "tl rows") (auto simp: posting_input_def)
  then show ?thesis
  proof cases
    case v1
    then have "bs = encode_var_int (int (length rows)) @ concat (map encode_var_long rows)"
      using ser len neg by (simp add: serialize_rows_def)
    moreover have "posting_count (int (length rows))" using len by (simp add: posting_count_def)
    ultimately show ?thesis
      using insert_rows_encode [OF R rows, of "[]" t] v1 by (auto simp: add_to_def count_codec.dec_enc)
  next
    case one
    then have bs: "bs = 0 # encode_var_long (hd rows)"
      using ser len neg by (simp add: serialize_rows_def)
    have r: "row_id (hd rows)" using rows len(2) by (cases rows) auto
    then have "add_to R bs version t = Inr (treemap_insert R (hd rows) t)"
      using one(1) by (simp add: bs add_to_def read_exact_def row_codec.dec_enc_all)
    moreover have "set rows = {hd rows}" using single_row [OF one(2)] by (cases rows) auto
    ultimately show ?thesis using roaring_okD(2) [OF R row_id_u64 [OF r], of t] by simp
  next
    case many
    then consider "bs = 1 # encode_var_int (int (length rows)) @ encode_var_long (hd rows) @ encode_deltas rows"
      | "bs = 2 # treemap_serialize_into R (treemap_optimize R
             (insert_runs R (hd rows) (hd rows) (tl rows) (treemap_new R)))"
      using ser len neg by (auto simp: serialize_rows_def result_simps Let_def split: if_splits)
    then show ?thesis
    proof cases
      case 1
      then show ?thesis
        using posting_delta [OF R rows many(3,2) len(1), of t] many(1)
        by (auto simp: add_to_def read_exact_def)
    next
      case 2
      then show ?thesis
        using posting_runs [OF R rows len(2), of t] many(1) by (auto simp: add_to_def read_exact_def)
    qed
  qed
qed

section \<open>What a posting can hold\<close>

lemma read_loop_bound:
  assumes "read_loop bits (shifts s bits) r bs = Inr (x, rest)" "0 \<le> r" "r < 2 ^ s" "bits \<le> 63"
  shows "0 \<le> x \<and> x < 2 ^ bits"
  using assms
proof (induction s bits arbitrary: r bs rule: shifts.induct)
  case (1 s bits)
  then have s: "s < bits" by (cases "s < bits") (simp_all add: shifts.simps [of s bits])
  with "1.prems"(1) obtain b bs' where bs: "bs = b # bs'"
    by (cases bs) (simp_all add: shifts.simps [of s bits])
  let ?p = "uint b mod 128" and ?m = "min (bits - s) 7"
  let ?r = "r + ?p * 2 ^ s"
  have p: "?p < 2 ^ ?m"
    using "1.prems"(1) s by (auto simp: bs shifts.simps [of s bits] low_bits split: if_splits)
  then have "(?p + 1) * 2 ^ s \<le> 2 ^ ?m * 2 ^ s" by (intro mult_right_mono) auto
  then have "?p * 2 ^ s + 2 ^ s \<le> 2 ^ (s + ?m)"
    by (simp only: power_add distrib_left mult.commute [of _ "2 ^ s"] mult_1_right)
  moreover have "0 \<le> ?p * 2 ^ s" by simp
  ultimately have r: "?r < 2 ^ (s + ?m)" "0 \<le> ?r" using "1.prems"(2,3) by linarith+
  have le: "(2 :: int) ^ (s + ?m) \<le> 2 ^ bits" using s by (intro power_increasing) auto
  have "(2 :: int) ^ bits \<le> 2 ^ 64" using "1.prems"(4) by (intro power_increasing) auto
  then have "?p * 2 ^ s < 2 ^ 64" using r le "1.prems"(2) by linarith
  then have o: "or_shifted 64 r b s = ?r" by (rule or_shifted_add [OF "1.prems"(2,3)])
  show ?case
  proof (cases "b AND 0x80 = 0")
    case True
    then have "x = ?r" using "1.prems"(1) s by (auto simp: bs shifts.simps [of s bits] o split: if_splits)
    then show ?thesis using r le by linarith
  next
    case False
    then have rec: "read_loop bits (shifts (s + 7) bits) ?r bs' = Inr (x, rest)"
      using "1.prems"(1) s by (auto simp: bs shifts.simps [of s bits] o Let_def split: if_splits)
    have "(2 :: int) ^ (s + ?m) \<le> 2 ^ (s + 7)" by (intro power_increasing) auto
    then have "?r < 2 ^ (s + 7)" using r by linarith
    from "1.IH" [OF s rec r(2) this "1.prems"(4)] show ?thesis .
  qed
qed

lemma read_non_negative_row: "read_non_negative 63 bs = Inr (x, rest) \<Longrightarrow> row_id x"
  using read_loop_bound [of 63 0 0 bs x rest] by (simp add: read_non_negative_def row_id_def i64_max_def)

lemma insert_rows_bound:
  assumes "roaring_ok R" "insert_rows R n bs t = Inr (t', rest)"
  shows "rows_in R t \<subseteq> rows_in R t' \<and> (\<forall>r \<in> rows_in R t'. r \<in> rows_in R t \<or> row_id r)"
  using assms(2)
proof (induction n arbitrary: bs t)
  case (Suc n)
  then obtain row bs' where "read_non_negative 63 bs = Inr (row, bs')"
    and rec: "insert_rows R n bs' (treemap_insert R row t) = Inr (t', rest)"
    by (auto simp: result_simps)
  then show ?case
    using Suc.IH [OF rec] read_non_negative_row [of bs row bs'] roaring_okD(2) [OF assms(1) row_id_u64, of row t]
    by auto
qed simp

lemma delta_rows_bound:
  assumes "roaring_ok R" "delta_rows R n row bs t = Inr (t', rest)" "row_id row"
  shows "rows_in R t \<subseteq> rows_in R t' \<and> (\<forall>r \<in> rows_in R t'. r \<in> rows_in R t \<or> row_id r)"
  using assms(2,3)
proof (induction n arbitrary: row bs t)
  case (Suc n)
  then obtain delta bs' where d: "read_non_negative 63 bs = Inr (delta, bs')"
    and rec: "delta_rows R n (row + delta) bs' (treemap_insert R (row + delta) t) = Inr (t', rest)"
    and le: "row + delta \<le> i64_max"
    by (auto simp: result_simps checked_add_u64_def split: if_splits)
  have row: "row_id (row + delta)"
    using read_non_negative_row [OF d] Suc.prems(2) le by (simp add: row_id_def)
  show ?case
    using Suc.IH [OF rec row] roaring_okD(2) [OF assms(1) row_id_u64 [OF row], of t] row by auto
qed simp

lemma read_partitions_bound:
  assumes "roaring_ok R" "read_partitions R n previous bs = Inr (ps, rest)"
  shows "sorted_wrt (<) (map fst ps) \<and> (\<forall>(h, b) \<in> set ps. 0 \<le> h \<and> h \<le> i32_max)
    \<and> (\<forall>p. previous = Some p \<longrightarrow> (\<forall>h \<in> fst ` set ps. p < h))"
  using assms(2)
proof (induction n arbitrary: previous bs ps)
  case (Suc n)
  then obtain word bs' b bs'' ps' where e: "read_exact 4 bs = Inr (word, bs')"
    and h: "\<not> (i32_max < from_le word \<or> (case previous of None \<Rightarrow> False | Some p \<Rightarrow> from_le word \<le> p))"
    and rec: "read_partitions R n (Some (from_le word)) bs'' = Inr (ps', rest)"
    and ps: "ps = (from_le word, b) # ps'"
    by (auto simp: result_simps Let_def split: if_splits)
  note IH = Suc.IH [OF rec]
  then show ?case using h from_le_nonneg [of word] unfolding ps
    by (fastforce split: option.splits)
qed simp

lemma partition_rows_row_id:
  assumes "roaring_ok R" "\<forall>(h, b) \<in> set ps. 0 \<le> h \<and> h \<le> i32_max" "r \<in> partition_rows R ps"
  shows "row_id r"
proof -
  obtain h b low where "(h, b) \<in> set ps" "bitmap_contains R b low" "r = h * 2 ^ 32 + low"
    using assms(3) by (auto simp: partition_rows_def)
  then show ?thesis
    using assms(2) roaring_okD(8) [OF assms(1), of b low] by (auto simp: row_id_def int_range_simps)
qed

lemma add_to_bound:
  assumes R: "roaring_ok R" and add: "add_to R bs version t = Inr t'"
  shows "rows_in R t \<subseteq> rows_in R t' \<and> (\<forall>r \<in> rows_in R t'. r \<in> rows_in R t \<or> row_id r)"
proof -
  consider (v1) n bs' where "insert_rows R n bs' t = Inr (t', [])"
    | (one) bs' row where "read_non_negative 63 bs' = Inr (row, [])" "t' = treemap_insert R row t"
    | (delta) bs' where "add_delta R bs' t = Inr (t', [])"
    | (treemap) bs' where "add_roaring R bs' t = Inr (t', [])"
    using add by (auto simp: add_to_def result_simps split: if_splits)
  then show ?thesis
  proof cases
    case v1
    then show ?thesis by (rule insert_rows_bound [OF R])
  next
    case one
    then show ?thesis
      using read_non_negative_row [OF one(1)] roaring_okD(2) [OF R row_id_u64, of row t] by auto
  next
    case delta
    then obtain n row bs1 bs2 where row: "read_non_negative 63 bs1 = Inr (row, bs2)"
      and rec: "delta_rows R n row bs2 (treemap_insert R row t) = Inr (t', [])"
      by (auto simp: add_delta_def result_simps split: if_splits)
    note row = read_non_negative_row [OF row]
    show ?thesis
      using delta_rows_bound [OF R rec row] roaring_okD(2) [OF R row_id_u64 [OF row], of t] row by auto
  next
    case treemap
    then obtain n bs1 ps where ps: "read_partitions R n None bs1 = Inr (ps, [])"
      and t': "t' = treemap_or R t (treemap_from_bitmaps R ps)"
      by (auto simp: add_roaring_def result_simps Let_def split: if_splits)
    note b = read_partitions_bound [OF R ps]
    then have "rows_in R t' = rows_in R t \<union> partition_rows R ps"
      using roaring_okD(5,7) [OF R] by (simp add: t')
    then show ?thesis using partition_rows_row_id [OF R] b by auto
  qed
qed

section \<open>Properties\<close>

text \<open>C10. Posting lists round trip in both file versions. \<^verbatim>\<open>serialize\<close> accepts exactly a non-empty list of
  at most \<^verbatim>\<open>i32::MAX\<close> non-negative row ids, strictly increasing in version 2; whichever encoding it picks
  (plain, single, delta or Roaring), \<^verbatim>\<open>add_to\<close> accepts the bytes and adds exactly those rows to its
  target.\<close>

theorem posting_list_correct:
  assumes "roaring_ok R" "list_all in_i64 rows"
  shows "((\<exists>bs. serialize_rows R rows version = Inr bs) \<longleftrightarrow> posting_input rows version)
    \<and> (posting_input rows version \<longrightarrow>
         (\<exists>bs t'. serialize_rows R rows version = Inr bs \<and> add_to R bs version t = Inr t'
            \<and> rows_in R t' = rows_in R t \<union> set rows))"
  using serialize_rows_succeeds [of R rows version] posting_round_trip [OF assms(1) _ assms(2)] by blast

theorem posting_list_correct_witness:
  "\<exists>bs t'. serialize_rows list_roaring [3, 4, 70000, 1099511627776] 2 = Inr bs
     \<and> add_to list_roaring bs 2 [] = Inr t' \<and> rows_in list_roaring t' = {3, 4, 70000, 1099511627776}"
  using posting_list_correct [OF list_roaring_ok, of "[3, 4, 70000, 1099511627776]" 2 "[]"]
  by (simp add: posting_input_def int_range_simps rows_in_def list_roaring_def list_contains_def)

text \<open>C19. A damaged posting cannot invent row ids out of range or lose rows: whatever bytes \<^verbatim>\<open>add_to\<close>
  accepts, in either version, it keeps every row of its target and adds only rows between zero and
  \<^verbatim>\<open>i64::MAX\<close>.\<close>

theorem posting_rows_bounded:
  assumes "roaring_ok R" "add_to R bs version t = Inr t'"
  shows "rows_in R t \<subseteq> rows_in R t' \<and> rows_in R t' \<subseteq> rows_in R t \<union> {0..i64_max}"
  using add_to_bound [OF assms] by (auto simp: row_id_def)

theorem posting_rows_bounded_witness:
  "\<exists>t t'. rows_in list_roaring t = {3} \<and> add_to list_roaring [0, 5] 2 t = Inr t' \<and> rows_in list_roaring t' = {3, 5}
     \<and> rows_in list_roaring t \<subseteq> rows_in list_roaring t'
     \<and> rows_in list_roaring t' \<subseteq> rows_in list_roaring t \<union> {0..i64_max}"
proof -
  let ?t = "treemap_insert list_roaring 3 (treemap_new list_roaring)"
  have add: "add_to list_roaring [0, 5] 2 ?t = Inr (treemap_insert list_roaring 5 ?t)"
    by (simp add: add_to_def read_exact_def read_non_negative_def shifts.simps [of 0 63] low_bits
        high_bit or_shifted_def)
  have "rows_in list_roaring ?t = {3}" "rows_in list_roaring (treemap_insert list_roaring 5 ?t) = {3, 5}"
    by (simp_all add: roaring_okD [OF list_roaring_ok] int_range_simps insert_commute)
  then show ?thesis using add posting_rows_bounded [OF list_roaring_ok add] by blast
qed

end
