(* ===== verification/Sst_File.thy ===== *)
theory Sst_File
  imports Sst_Block_Laws Bloom_Filter Btree_Footer Posting_List
begin

text \<open>
  \<^verbatim>\<open>crates/paimon/src/btree/sst_file.rs\<close>: \<open>sst_writer\<close> (\<^verbatim>\<open>SstFileWriter\<close>) collects entries into data blocks,
  writes each block with its trailer, and indexes the blocks by their last key;
  \<open>read_block_from_bytes\<close> checks and decodes one block. The output file is the list of bytes written so
  far; the file system behind \<^verbatim>\<open>FileWrite\<close> and \<^verbatim>\<open>FileRead\<close> is the parameter \<open>storage\<close>. \<open>env\<close> bundles the
  parameters of the index code.
\<close>

record storage =
  storage_write :: "bytes \<Rightarrow> bytes \<Rightarrow> bytes result"
  storage_close :: "bytes \<Rightarrow> unit result"
  storage_read :: "bytes \<Rightarrow> int \<Rightarrow> int \<Rightarrow> bytes result"

record ('t, 'b) env =
  env_codecs :: codecs
  env_floats :: bloom_floats
  env_storage :: storage
  env_roaring :: "('t, 'b) roaring"

text \<open>A write that succeeds appends; a read inside the file gives the bytes of the range.\<close>

definition storage_ok :: "storage \<Rightarrow> bool" where
  "storage_ok S \<longleftrightarrow>
     (\<forall>out d out'. storage_write S out d = Inr out' \<longrightarrow> out' = out @ d)
     \<and> (\<forall>file a b. 0 \<le> a \<and> a \<le> b \<and> b \<le> int (length file) \<longrightarrow>
          storage_read S file a b = Inr (take (nat (b - a)) (drop (nat a) file)))"

definition env_ok :: "('t, 'b) env \<Rightarrow> bool" where
  "env_ok E \<longleftrightarrow> codecs_ok (env_codecs E) \<and> storage_ok (env_storage E) \<and> roaring_ok (env_roaring E)"

text \<open>An instance: a file in memory.\<close>

definition memory_storage :: storage where
  "memory_storage = \<lparr>storage_write = (\<lambda>out d. Inr (out @ d)), storage_close = (\<lambda>out. Inr ()),
     storage_read = (\<lambda>file a b. Inr (take (nat (b - a)) (drop (nat a) file)))\<rparr>"

definition sample_env :: "((int \<times> int list) list, int list) env" where
  "sample_env = \<lparr>env_codecs = copy_codecs,
     env_floats = \<lparr>optimal_bits = (\<lambda>n p. 7 * n), hash_count = (\<lambda>b n. 4)\<rparr>,
     env_storage = memory_storage, env_roaring = list_roaring\<rparr>"

lemma sample_env_ok: "env_ok sample_env"
  by (simp add: env_ok_def sample_env_def storage_ok_def memory_storage_def copy_codecs_ok list_roaring_ok)

section \<open>Writer\<close>

record sst_writer =
  sst_out :: bytes
  sst_bytes_written :: int
  sst_block_size :: nat
  sst_data_block_writer :: block_writer
  sst_index_block_writer :: block_writer
  sst_compression_type :: compression_type
  sst_compression_level :: int
  sst_last_key :: "bytes option"
  sst_record_count :: int
  sst_bloom_hashes :: "int list option"

definition sst_with_compression_level :: "nat \<Rightarrow> compression_type \<Rightarrow> int \<Rightarrow> sst_writer" where
  "sst_with_compression_level block_size ct lvl =
     \<lparr>sst_out = [], sst_bytes_written = 0, sst_block_size = block_size,
      sst_data_block_writer = block_writer_new, sst_index_block_writer = block_writer_new,
      sst_compression_type = ct, sst_compression_level = lvl, sst_last_key = None,
      sst_record_count = 0, sst_bloom_hashes = None\<rparr>"

definition sst_with_bloom_filter :: "nat \<Rightarrow> compression_type \<Rightarrow> int \<Rightarrow> bool \<Rightarrow> sst_writer" where
  "sst_with_bloom_filter block_size ct lvl bloom_filter_enabled =
     (sst_with_compression_level block_size ct lvl)
       \<lparr>sst_bloom_hashes := (if bloom_filter_enabled then Some [] else None)\<rparr>"

definition sst_position :: "sst_writer \<Rightarrow> int" where "sst_position w = sst_bytes_written w"

definition sst_write_bytes :: "('t, 'b) env \<Rightarrow> sst_writer \<Rightarrow> bytes \<Rightarrow> sst_writer result" where
  "sst_write_bytes E w data =
     and_then (storage_write (env_storage E) (sst_out w) data) (\<lambda>out.
       Inr (w\<lparr>sst_out := out, sst_bytes_written := u64_add (sst_bytes_written w) (int (length data))\<rparr>))"

definition sst_write_block_data :: "('t, 'b) env \<Rightarrow> sst_writer \<Rightarrow> (block_handle \<times> sst_writer) result" where
  "sst_write_block_data E w =
     (let (block, dw) = bw_finish (sst_data_block_writer w);
          w = w\<lparr>sst_data_block_writer := dw\<rparr> in
      and_then (compress_block (env_codecs E) block (sst_compression_type w) (sst_compression_level w))
        (\<lambda>(final_data, ct).
          let trailer = \<lparr>trailer_compression = ct, trailer_crc = compute_crc32 (env_codecs E) final_data ct\<rparr>;
              handle = \<lparr>handle_offset = sst_bytes_written w,
                        handle_size = wrap_unsigned 32 (int (length final_data))\<rparr> in
          and_then (sst_write_bytes E w final_data) (\<lambda>w.
            and_then (sst_write_bytes E w (trailer_to_bytes trailer)) (\<lambda>w. Inr (handle, w)))))"

definition sst_flush :: "('t, 'b) env \<Rightarrow> sst_writer \<Rightarrow> sst_writer result" where
  "sst_flush E w =
     (if bw_entry_count (sst_data_block_writer w) = 0 then Inr w
      else and_then (sst_write_block_data E w) (\<lambda>(handle, w).
        and_then (encode_to_buf handle) (\<lambda>handle_bytes.
          case sst_last_key w of
            None \<Rightarrow> Inr w
          | Some last_key \<Rightarrow>
              Inr (w\<lparr>sst_index_block_writer := bw_add (sst_index_block_writer w) last_key handle_bytes\<rparr>))))"

definition sst_put :: "('t, 'b) env \<Rightarrow> sst_writer \<Rightarrow> bytes \<Rightarrow> bytes \<Rightarrow> sst_writer result" where
  "sst_put E w key val =
     (let w = w\<lparr>sst_data_block_writer := bw_add (sst_data_block_writer w) key val,
                sst_bloom_hashes := map_option (\<lambda>hs. hs @ [hash_bytes key]) (sst_bloom_hashes w)\<rparr>;
          w = w\<lparr>sst_last_key := (if sst_last_key w = Some key then sst_last_key w else Some key)\<rparr> in
      and_then
        (if sst_block_size w < bw_memory (sst_data_block_writer w) then sst_flush E w else Inr w)
        (\<lambda>w. Inr (w\<lparr>sst_record_count := u64_add (sst_record_count w) 1\<rparr>)))"

definition sst_write_index_block :: "('t, 'b) env \<Rightarrow> sst_writer \<Rightarrow> (block_handle \<times> sst_writer) result" where
  "sst_write_index_block E w =
     (let (block, iw) = bw_finish (sst_index_block_writer w);
          w = w\<lparr>sst_index_block_writer := iw\<rparr>;
          trailer = \<lparr>trailer_compression = CompressNone,
                     trailer_crc = compute_crc32 (env_codecs E) block CompressNone\<rparr>;
          handle = \<lparr>handle_offset = sst_bytes_written w, handle_size = wrap_unsigned 32 (int (length block))\<rparr> in
      and_then (sst_write_bytes E w block) (\<lambda>w.
        and_then (sst_write_bytes E w (trailer_to_bytes trailer)) (\<lambda>w. Inr (handle, w))))"

definition sst_write_bloom_filter :: "('t, 'b) env \<Rightarrow> sst_writer \<Rightarrow> 64 word
    \<Rightarrow> (bloom_filter_handle option \<times> sst_writer) result" where
  "sst_write_bloom_filter E w fpp =
     (case sst_bloom_hashes w of
        None \<Rightarrow> Inr (None, w)
      | Some hashes \<Rightarrow>
          let w = w\<lparr>sst_bloom_hashes := None\<rparr> in
          and_then (bf_from_hashes (env_floats E) hashes fpp) (\<lambda>filter_opt.
            case filter_opt of
              None \<Rightarrow> Inr (None, w)
            | Some f \<Rightarrow>
                if 2 ^ 32 \<le> length (bf_bits f) then Inl (IoError ''Bloom filter exceeds u32 size'')
                else
                  let handle = \<lparr>bfh_offset = sst_position w, bfh_size = int (length (bf_bits f)),
                                bfh_expected_entries = bf_expected_entries f\<rparr> in
                  and_then (sst_write_bytes E w (bf_bits f)) (\<lambda>w. Inr (Some handle, w))))"

definition sst_write_raw :: "('t, 'b) env \<Rightarrow> sst_writer \<Rightarrow> bytes \<Rightarrow> sst_writer result" where
  "sst_write_raw E w data = sst_write_bytes E w data"

definition sst_close :: "('t, 'b) env \<Rightarrow> sst_writer \<Rightarrow> bytes result" where
  "sst_close E w = and_then (storage_close (env_storage E) (sst_out w)) (\<lambda>_. Inr (sst_out w))"

section \<open>Reading a block\<close>

definition read_block_from_bytes :: "codecs \<Rightarrow> bytes \<Rightarrow> int \<Rightarrow> block_reader result" where
  "read_block_from_bytes K bytes size32 =
     (let n = nat size32 in
      if length bytes < n + 5 then Inl (Panic ''range out of bounds'')
      else and_then (trailer_read_from (take 5 (drop n bytes))) (\<lambda>trailer.
        let block_data = take n bytes in
        if compute_crc32 K block_data (trailer_compression trailer) \<noteq> trailer_crc trailer
        then Inl (IoError ''CRC mismatch'')
        else and_then (decompress_block K block_data (trailer_compression trailer)) create_from_vec))"

section \<open>Laws\<close>

text \<open>The image of a block in the file, and that it reads back.\<close>

definition block_image :: "codecs \<Rightarrow> bytes \<Rightarrow> compression_type \<Rightarrow> bytes" where
  "block_image K final_data ct = final_data
     @ trailer_to_bytes \<lparr>trailer_compression = ct, trailer_crc = compute_crc32 K final_data ct\<rparr>"

lemma length_block_image: "codecs_ok K \<Longrightarrow> length (block_image K final ct) = length final + 5"
  by (simp add: block_image_def trailer_to_bytes_def)

lemma read_block_image:
  assumes "codecs_ok K"
  shows "read_block_from_bytes K (block_image K final ct @ rest) (int (length final))
    = and_then (decompress_block K final ct) create_from_vec"
proof -
  have crc: "0 \<le> compute_crc32 K final ct" "compute_crc32 K final ct < 2 ^ 32"
    using assms by (auto simp: codecs_ok_def compute_crc32_def)
  let ?t = "\<lparr>trailer_compression = ct, trailer_crc = compute_crc32 K final ct\<rparr>"
  have t: "trailer_read_from (trailer_to_bytes ?t) = Inr ?t" "length (trailer_to_bytes ?t) = 5"
    using trailer_round_trip [of ?t] crc by simp_all
  then show ?thesis
    by (simp add: read_block_from_bytes_def block_image_def Let_def)
qed

text \<open>\<open>stored K file h es\<close>: the block at the handle is inside the file and reads as the entries.\<close>

definition file_range :: "bytes \<Rightarrow> int \<Rightarrow> int \<Rightarrow> bytes" where
  "file_range file a n = take (nat n) (drop (nat a) file)"

definition stored :: "codecs \<Rightarrow> bytes \<Rightarrow> block_handle \<Rightarrow> (bytes \<times> bytes) list \<Rightarrow> bool" where
  "stored K file h es \<longleftrightarrow> handle_ok h \<and> handle_offset h + handle_size h + 5 \<le> int (length file)
     \<and> (\<exists>br. read_block_from_bytes K (file_range file (handle_offset h) (handle_size h + 5)) (handle_size h)
           = Inr br \<and> reads br es)"

lemma file_range_append:
  "0 \<le> a \<Longrightarrow> 0 \<le> n \<Longrightarrow> a + n \<le> int (length file) \<Longrightarrow> file_range (file @ xs) a n = file_range file a n"
  by (simp add: file_range_def nat_le_iff add.commute)

lemma stored_append: "stored K file h es \<Longrightarrow> stored K (file @ xs) h es"
  by (auto simp: stored_def file_range_append handle_ok_def int_range_simps)

lemma file_range_mid:
  "a = int (length pre) \<Longrightarrow> n = int (length mid) \<Longrightarrow> file_range (pre @ mid @ post) a n = mid"
  by (simp add: file_range_def)

lemma stored_block:
  assumes K: "codecs_ok K" and w: "block_inv w es"
    and c: "compress_block K (fst (bw_finish w)) ct lvl = Inr (final, ct')"
    and small: "int (length (entries_bytes es)) \<le> i32_max"
    and out: "int (length out + length final) \<le> i32_max"
  shows "stored K (out @ block_image K final ct')
    \<lparr>handle_offset = int (length out), handle_size = wrap_unsigned 32 (int (length final))\<rparr> es"
proof -
  have u: "wrap_unsigned 32 (int (length final)) = int (length final)"
    using out by (simp add: wrap_unsigned_def int_range_simps)
  have "read_block_from_bytes K (block_image K final ct' @ []) (int (length final))
      = create_from_vec (fst (bw_finish w))"
    unfolding read_block_image [OF K] compress_block_round_trip [OF K c] by simp
  then obtain br where "read_block_from_bytes K (block_image K final ct') (int (length final)) = Inr br"
    and "reads br es"
    using finished_block_reads [OF w small] by auto
  moreover have "file_range (out @ block_image K final ct' @ []) (int (length out)) (int (length final) + 5)
      = block_image K final ct'"
    by (rule file_range_mid) (simp_all add: length_block_image [OF K])
  ultimately show ?thesis
    using out by (simp add: stored_def u handle_ok_def int_range_simps length_block_image [OF K])
qed

text \<open>A block that made it into a file of less than 2 GiB has less than 2 GiB of entries.\<close>

lemma finish_longer: "block_inv w es \<Longrightarrow> length (entries_bytes es) \<le> length (fst (bw_finish w))"
  by (simp add: block_inv_def bw_finish_def Let_def)

lemma compressed_small:
  assumes "block_inv w es" "compress_block K (fst (bw_finish w)) ct lvl = Inr (final, ct')"
    "int (length final) \<le> i32_max"
  shows "int (length (entries_bytes es)) \<le> i32_max"
proof (cases "ct = CompressNone")
  case True
  then have "final = fst (bw_finish w)" using assms(2) by (simp add: compress_block_def)
  then have "length (entries_bytes es) \<le> length final" using finish_longer [OF assms(1)] by simp
  then show ?thesis using assms(3) by linarith
next
  case False
  then have "int (length (fst (bw_finish w))) \<le> i32_max"
    using assms(2) by (auto simp: compress_block_def result_simps block_length_def split: if_splits)
  then show ?thesis using finish_longer [OF assms(1)] by linarith
qed

section \<open>Writer invariant\<close>

text \<open>
  \<open>bs\<close> are the flushed blocks with their handles, \<open>ps\<close> the entries still in the data block writer. The
  laws hold as long as the file stays below 2 GiB, which the caller knows of the finished file.
\<close>

definition sst_small :: "sst_writer \<Rightarrow> bool" where
  "sst_small w \<longleftrightarrow> int (length (sst_out w)) \<le> i32_max"

definition all_entries :: "((bytes \<times> bytes) list \<times> block_handle) list \<Rightarrow> (bytes \<times> bytes) list \<Rightarrow> (bytes \<times> bytes) list" where
  "all_entries bs ps = concat (map fst bs) @ ps"

definition index_entry :: "(bytes \<times> bytes) list \<times> block_handle \<Rightarrow> bytes \<times> bytes" where
  "index_entry b = (fst (last (fst b)), handle_encode (snd b))"

definition blocks_stored :: "codecs \<Rightarrow> bytes \<Rightarrow> ((bytes \<times> bytes) list \<times> block_handle) list \<Rightarrow> bool" where
  "blocks_stored K out bs \<longleftrightarrow> (\<forall>(es, h) \<in> set bs. es \<noteq> [] \<and> stored K out h es)"

definition sst_inv :: "('t, 'b) env \<Rightarrow> sst_writer \<Rightarrow> ((bytes \<times> bytes) list \<times> block_handle) list
    \<Rightarrow> (bytes \<times> bytes) list \<Rightarrow> bool" where
  "sst_inv E w bs ps \<longleftrightarrow> sst_bytes_written w = int (length (sst_out w))
     \<and> block_inv (sst_data_block_writer w) ps
     \<and> block_inv (sst_index_block_writer w) (map index_entry bs)
     \<and> blocks_stored (env_codecs E) (sst_out w) bs
     \<and> (all_entries bs ps \<noteq> [] \<longrightarrow> sst_last_key w = Some (fst (last (all_entries bs ps))))
     \<and> (case sst_bloom_hashes w of None \<Rightarrow> True
        | Some hs \<Rightarrow> hs = map (\<lambda>e. hash_bytes (fst e)) (all_entries bs ps))"

lemma blocks_stored_append: "blocks_stored K out bs \<Longrightarrow> blocks_stored K (out @ xs) bs"
  by (auto simp: blocks_stored_def stored_append)

lemma write_bytes_appends:
  assumes "env_ok E" "sst_write_bytes E w d = Inr w'"
  shows "sst_out w' = sst_out w @ d"
    and "w' = w\<lparr>sst_out := sst_out w @ d, sst_bytes_written := u64_add (sst_bytes_written w) (int (length d))\<rparr>"
proof -
  obtain out where out: "storage_write (env_storage E) (sst_out w) d = Inr out"
    and w': "w' = w\<lparr>sst_out := out, sst_bytes_written := u64_add (sst_bytes_written w) (int (length d))\<rparr>"
    using assms(2) by (cases "storage_write (env_storage E) (sst_out w) d") (simp_all add: sst_write_bytes_def)
  have "out = sst_out w @ d" using assms(1) out unfolding env_ok_def storage_ok_def by blast
  then show "sst_out w' = sst_out w @ d"
    and "w' = w\<lparr>sst_out := sst_out w @ d, sst_bytes_written := u64_add (sst_bytes_written w) (int (length d))\<rparr>"
    by (simp_all add: w')
qed

lemma write_bytes_small:
  assumes "env_ok E" "sst_write_bytes E w d = Inr w'" "sst_bytes_written w = int (length (sst_out w))"
    "sst_small w'"
  shows "w' = w\<lparr>sst_out := sst_out w @ d, sst_bytes_written := int (length (sst_out w @ d))\<rparr>"
proof -
  have "int (length (sst_out w)) + int (length d) \<le> i32_max"
    using assms(4) write_bytes_appends(1) [OF assms(1,2)] by (simp add: sst_small_def)
  then have "u64_add (sst_bytes_written w) (int (length d)) = int (length (sst_out w @ d))"
    using assms(3) by (simp add: int_range_simps)
  then show ?thesis using write_bytes_appends(2) [OF assms(1,2)] by simp
qed

lemma sst_small_prefix: "sst_small w' \<Longrightarrow> length (sst_out w) \<le> length (sst_out w') \<Longrightarrow> sst_small w"
  by (simp add: sst_small_def)

lemma write_block_small:
  assumes E: "env_ok E" and inv: "sst_inv E w bs ps" and wr: "sst_write_block_data E w = Inr (h, w')"
    and small: "sst_small w'"
  shows "\<exists>out. w' = w\<lparr>sst_out := out, sst_bytes_written := int (length out),
             sst_data_block_writer := bw_reset (sst_data_block_writer w)\<rparr>
    \<and> stored (env_codecs E) out h ps \<and> blocks_stored (env_codecs E) out bs
    \<and> 0 \<le> handle_offset h \<and> handle_offset h \<le> i64_max"
proof -
  let ?K = "env_codecs E"
  have K: "codecs_ok ?K" using E by (simp add: env_ok_def)
  let ?block = "fst (bw_finish (sst_data_block_writer w))"
  let ?w = "w\<lparr>sst_data_block_writer := snd (bw_finish (sst_data_block_writer w))\<rparr>"
  obtain final ct w1 where c: "compress_block ?K ?block (sst_compression_type w) (sst_compression_level w)
      = Inr (final, ct)"
    and w1: "sst_write_bytes E ?w final = Inr w1"
    and w2: "sst_write_bytes E w1 (trailer_to_bytes
        \<lparr>trailer_compression = ct, trailer_crc = compute_crc32 ?K final ct\<rparr>) = Inr w'"
    and h: "h = \<lparr>handle_offset = sst_bytes_written w, handle_size = wrap_unsigned 32 (int (length final))\<rparr>"
    using wr by (auto simp: sst_write_block_data_def Let_def result_simps split_beta)
  have bw: "sst_bytes_written w = int (length (sst_out w))" and data: "block_inv (sst_data_block_writer w) ps"
    using inv by (simp_all add: sst_inv_def)
  have s1: "sst_small w1"
    using write_bytes_appends(1) [OF E w2] by (intro sst_small_prefix [OF small]) simp
  note e1 = write_bytes_small [OF E w1 _ s1, simplified, OF bw]
  then have bw1: "sst_bytes_written w1 = int (length (sst_out w1))" by simp
  note e2 = write_bytes_small [OF E w2 bw1 small]
  let ?out = "sst_out w @ block_image ?K final ct"
  have out: "sst_out w' = ?out" by (simp add: e2 e1 block_image_def)
  have len: "int (length (sst_out w) + length final) \<le> i32_max"
    using small unfolding sst_small_def out by (simp add: length_block_image [OF K])
  have "stored ?K ?out h ps"
    unfolding h bw using stored_block [OF K data c compressed_small [OF data c] len] len by simp
  moreover have "blocks_stored ?K ?out bs"
    using inv by (simp add: sst_inv_def blocks_stored_append)
  moreover have "w' = w\<lparr>sst_out := ?out, sst_bytes_written := int (length ?out),
      sst_data_block_writer := bw_reset (sst_data_block_writer w)\<rparr>"
    unfolding e2 e1 by (simp add: block_image_def bw_finish_def Let_def bw_reset_def)
  moreover have "0 \<le> handle_offset h" "handle_offset h \<le> i64_max"
    using h bw len by (simp_all add: int_range_simps)
  ultimately show ?thesis by blast
qed

lemma flush_small:
  assumes E: "env_ok E" and inv: "sst_inv E w bs ps" and fl: "sst_flush E w = Inr w'" and small: "sst_small w'"
  shows "\<exists>bs'. sst_inv E w' bs' [] \<and> all_entries bs' [] = all_entries bs ps"
proof (cases "ps = []")
  case True
  then show ?thesis
    using inv fl bw_entry_count_inv [of "sst_data_block_writer w" ps] by (auto simp: sst_flush_def sst_inv_def)
next
  case False
  have "bw_entry_count (sst_data_block_writer w) \<noteq> 0"
    using False inv bw_entry_count_inv [of "sst_data_block_writer w" ps] by (simp add: sst_inv_def)
  then obtain h w1 hb where wb: "sst_write_block_data E w = Inr (h, w1)" and hb: "encode_to_buf h = Inr hb"
    and w': "w' = (case sst_last_key w1 of None \<Rightarrow> w1
        | Some k \<Rightarrow> w1\<lparr>sst_index_block_writer := bw_add (sst_index_block_writer w1) k hb\<rparr>)"
    using fl by (auto simp: sst_flush_def result_simps split: option.splits)
  have "sst_small w1" using small w' by (auto simp: sst_small_def split: option.splits)
  from write_block_small [OF E inv wb this] obtain out where
    w1: "w1 = w\<lparr>sst_out := out, sst_bytes_written := int (length out),
             sst_data_block_writer := bw_reset (sst_data_block_writer w)\<rparr>"
    and st: "stored (env_codecs E) out h ps" "blocks_stored (env_codecs E) out bs"
    and off: "0 \<le> handle_offset h" "handle_offset h \<le> i64_max" by blast
  have all: "all_entries bs ps \<noteq> []" using False by (simp add: all_entries_def)
  have key: "sst_last_key w = Some (fst (last ps))"
    using inv all False by (simp add: sst_inv_def all_entries_def)
  have "hb = handle_encode h" using hb encode_to_buf_ok [OF off] by simp
  then have w'': "w' = w1\<lparr>sst_index_block_writer := bw_add (sst_index_block_writer w)
      (fst (last ps)) (handle_encode h)\<rparr>"
    using w' key by (simp add: w1)
  have "sst_inv E w' (bs @ [(ps, h)]) []"
    using inv st False unfolding w'' w1 sst_inv_def
    by (auto simp: block_inv_reset block_inv_add index_entry_def blocks_stored_def all_entries_def
        split: option.splits)
  then show ?thesis by (auto simp: all_entries_def)
qed

text \<open>The writer after \<^verbatim>\<open>put\<close> has added the entry, before it may flush.\<close>

definition added :: "sst_writer \<Rightarrow> bytes \<Rightarrow> bytes \<Rightarrow> sst_writer" where
  "added w k v = w\<lparr>sst_data_block_writer := bw_add (sst_data_block_writer w) k v,
      sst_bloom_hashes := map_option (\<lambda>hs. hs @ [hash_bytes k]) (sst_bloom_hashes w), sst_last_key := Some k\<rparr>"

lemma sst_put_Inr:
  assumes "sst_put E w k v = Inr w'"
  shows "\<exists>w2. (sst_flush E (added w k v) = Inr w2 \<or> w2 = added w k v)
    \<and> w' = w2\<lparr>sst_record_count := u64_add (sst_record_count w2) 1\<rparr>"
proof -
  have "(if x = Some k then x else Some k) = Some k" for x by simp
  then have "sst_put E w k v = and_then
      (if sst_block_size w < bw_memory (sst_data_block_writer (added w k v)) then sst_flush E (added w k v)
       else Inr (added w k v))
      (\<lambda>w. Inr (w\<lparr>sst_record_count := u64_add (sst_record_count w) 1\<rparr>))"
    by (simp add: sst_put_def Let_def added_def)
  note eq = this
  show ?thesis using assms unfolding eq by (auto simp: and_then_Inr_iff split: if_splits)
qed

lemma put_small:
  assumes E: "env_ok E" and inv: "sst_inv E w bs ps" and put: "sst_put E w k v = Inr w'" and small: "sst_small w'"
  shows "\<exists>bs' ps'. sst_inv E w' bs' ps' \<and> all_entries bs' ps' = all_entries bs ps @ [(k, v)]"
proof -
  have i1: "sst_inv E (added w k v) bs (ps @ [(k, v)])"
    using inv unfolding sst_inv_def added_def
    by (auto simp: block_inv_add all_entries_def split: option.splits)
  have all: "all_entries bs (ps @ [(k, v)]) = all_entries bs ps @ [(k, v)]" by (simp add: all_entries_def)
  obtain w2 where w2: "sst_flush E (added w k v) = Inr w2 \<or> w2 = added w k v"
    and w': "w' = w2\<lparr>sst_record_count := u64_add (sst_record_count w2) 1\<rparr>"
    using sst_put_Inr [OF put] by blast
  have s2: "sst_small w2" using small w' by (simp add: sst_small_def)
  have "\<exists>bs' ps'. sst_inv E w2 bs' ps' \<and> all_entries bs' ps' = all_entries bs ps @ [(k, v)]"
    using w2
  proof
    assume "sst_flush E (added w k v) = Inr w2"
    from flush_small [OF E i1 this s2] show ?thesis unfolding all by blast
  next
    assume "w2 = added w k v"
    then show ?thesis using i1 all by blast
  qed
  then show ?thesis by (simp add: w' sst_inv_def)
qed

lemma write_block_grows:
  assumes "env_ok E" "sst_write_block_data E w = Inr (h, w')"
  shows "length (sst_out w) \<le> length (sst_out w')"
proof -
  obtain d d' w1 where "sst_write_bytes E (w\<lparr>sst_data_block_writer :=
      snd (bw_finish (sst_data_block_writer w))\<rparr>) d = Inr w1" "sst_write_bytes E w1 d' = Inr w'"
    using assms(2) by (auto simp: sst_write_block_data_def Let_def result_simps split_beta)
  from this [THEN write_bytes_appends(1) [OF assms(1)]] show ?thesis by simp
qed

lemma flush_grows:
  assumes "env_ok E" "sst_flush E w = Inr w'"
  shows "length (sst_out w) \<le> length (sst_out w')"
proof (cases "bw_entry_count (sst_data_block_writer w) = 0")
  case False
  then obtain h w1 where wb: "sst_write_block_data E w = Inr (h, w1)" and "sst_out w' = sst_out w1"
    using assms(2) by (auto simp: sst_flush_def result_simps split: option.splits)
  then show ?thesis using write_block_grows [OF assms(1) wb] by simp
qed (use assms in \<open>simp add: sst_flush_def\<close>)

lemma put_grows:
  assumes "env_ok E" "sst_put E w k v = Inr w'"
  shows "length (sst_out w) \<le> length (sst_out w')"
proof -
  have "sst_out (added w k v) = sst_out w" by (simp add: added_def)
  then show ?thesis
    using sst_put_Inr [OF assms(2)] flush_grows [OF assms(1), of "added w k v"] by auto
qed

end
