(* ===== verification/Index_Meta.thy ===== *)
theory Index_Meta
  imports Data_Model Sst_Block_Laws
begin

text \<open>
  \<^verbatim>\<open>crates/paimon/src/btree/meta.rs\<close>: the first and last key and the null flag of an index file, their
  serialized form, and the file-level pruning they allow. A comparator is fallible, since the stored
  keys may have been written for another column type; the pruning then keeps the file.
\<close>

record index_meta =
  meta_first_key :: "bytes option"
  meta_last_key :: "bytes option"
  meta_has_nulls :: bool

definition only_nulls :: "index_meta \<Rightarrow> bool" where
  "only_nulls m \<longleftrightarrow> meta_first_key m = None \<and> meta_last_key m = None"

section \<open>Pruning\<close>

definition literal0 :: "bytes list \<Rightarrow> bytes result" where
  "literal0 lits = (case lits of [] \<Rightarrow> Inl (Panic ''index out of bounds'') | l # _ \<Rightarrow> Inr l)"

text \<open>\<^verbatim>\<open>a && b\<close> where both sides may fail.\<close>

definition and_also :: "bool result \<Rightarrow> bool result \<Rightarrow> bool result" where
  "and_also a b = and_then a (\<lambda>x. if x then b else Inr False)"

definition inside :: "key_cmp \<Rightarrow> bytes \<Rightarrow> bytes \<Rightarrow> bytes \<Rightarrow> bool result" where
  "inside c first_key last_key k =
     and_also (and_then (c k first_key) (\<lambda>r. Inr (r \<noteq> Less)))
              (and_then (c k last_key) (\<lambda>r. Inr (r \<noteq> Greater)))"

fun any_inside :: "key_cmp \<Rightarrow> bytes \<Rightarrow> bytes \<Rightarrow> bytes list \<Rightarrow> bool result" where
  "any_inside c first_key last_key [] = Inr False"
| "any_inside c first_key last_key (k # ks) =
     and_then (inside c first_key last_key k) (\<lambda>b.
       if b then Inr True else any_inside c first_key last_key ks)"

definition try_may_match :: "index_meta \<Rightarrow> predicate_operator \<Rightarrow> bytes list \<Rightarrow> key_cmp \<Rightarrow> bool result" where
  "try_may_match m op lits c =
     (case op of
        OpIsNull \<Rightarrow> Inr (meta_has_nulls m)
      | OpIsNotNull \<Rightarrow> Inr (\<not> only_nulls m)
      | OpNotEq \<Rightarrow> Inr True
      | OpNotIn \<Rightarrow> Inr True
      | _ \<Rightarrow>
          if only_nulls m then Inr False
          else case (meta_first_key m, meta_last_key m) of
              (Some first_key, Some last_key) \<Rightarrow>
                (case op of
                   OpEq \<Rightarrow> and_then (literal0 lits) (\<lambda>l. inside c first_key last_key l)
                 | OpLt \<Rightarrow> and_then (literal0 lits) (\<lambda>l. and_then (c first_key l) (\<lambda>r. Inr (r = Less)))
                 | OpLtEq \<Rightarrow> and_then (literal0 lits) (\<lambda>l. and_then (c first_key l) (\<lambda>r. Inr (r \<noteq> Greater)))
                 | OpGt \<Rightarrow> and_then (literal0 lits) (\<lambda>l. and_then (c last_key l) (\<lambda>r. Inr (r = Greater)))
                 | OpGtEq \<Rightarrow> and_then (literal0 lits) (\<lambda>l. and_then (c last_key l) (\<lambda>r. Inr (r \<noteq> Less)))
                 | OpIn \<Rightarrow> any_inside c first_key last_key lits
                 | _ \<Rightarrow> Inr True)
            | _ \<Rightarrow> Inr True)"

text \<open>\<^verbatim>\<open>unwrap_or(true)\<close>: an error keeps the file; a panic is not an error value.\<close>

definition unwrap_or_true :: "bool result \<Rightarrow> bool result" where
  "unwrap_or_true r =
     (case r of Inr b \<Rightarrow> Inr b | Inl (Panic msg) \<Rightarrow> Inl (Panic msg) | Inl _ \<Rightarrow> Inr True)"

definition may_match :: "index_meta \<Rightarrow> predicate_operator \<Rightarrow> bytes list \<Rightarrow> key_cmp \<Rightarrow> bool result" where
  "may_match m op lits c = unwrap_or_true (try_may_match m op lits c)"

definition try_may_match_between :: "index_meta \<Rightarrow> bytes \<Rightarrow> bytes \<Rightarrow> key_cmp \<Rightarrow> bool result" where
  "try_may_match_between m from_key to_key c =
     (if only_nulls m then Inr False
      else case (meta_first_key m, meta_last_key m) of
          (Some first_key, Some last_key) \<Rightarrow>
            and_also (and_then (c first_key to_key) (\<lambda>r. Inr (r \<noteq> Greater)))
                     (and_then (c last_key from_key) (\<lambda>r. Inr (r \<noteq> Less)))
        | _ \<Rightarrow> Inr True)"

definition may_match_between :: "index_meta \<Rightarrow> bytes \<Rightarrow> bytes \<Rightarrow> key_cmp \<Rightarrow> bool result" where
  "may_match_between m from_key to_key c = unwrap_or_true (try_may_match_between m from_key to_key c)"

section \<open>Serialized form\<close>

definition key_field :: "bytes option \<Rightarrow> bytes" where
  "key_field k = (case k of Some k \<Rightarrow> to_le 4 (as_i32 (length k)) @ k | None \<Rightarrow> to_le 4 0)"

definition meta_serialize :: "index_meta \<Rightarrow> bytes" where
  "meta_serialize m =
     key_field (meta_first_key m) @ key_field (meta_last_key m)
     @ [if meta_has_nulls m then 1 else 0, 1,
        (if meta_first_key m = None then 1 else 0) OR (if meta_last_key m = None then 2 else 0)]"

definition meta_read_key :: "bytes \<Rightarrow> nat \<Rightarrow> (bytes \<times> nat) result" where
  "meta_read_key data pos =
     (if length data < pos then Inl (IoError ''BTreeIndexMeta key offset out of bounds'')
      else
        let remaining = drop pos data in
        if length remaining < 4 then Inl (IoError ''BTreeIndexMeta key length is truncated'')
        else
          let len = wrap_signed 32 (from_le (take 4 remaining)) in
          if len < 0 then Inl (IoError ''BTreeIndexMeta key length is negative'')
          else if length (drop 4 remaining) < nat len
          then Inl (IoError ''BTreeIndexMeta key data is truncated'')
          else Inr (take (nat len) (drop 4 remaining), pos + 4 + nat len))"

definition meta_deserialize :: "bytes \<Rightarrow> index_meta result" where
  "meta_deserialize data =
     (if length data < 9 then Inl (IoError ''BTreeIndexMeta data too short'')
      else and_then (meta_read_key data 0) (\<lambda>(first_key, pos).
        and_then (meta_read_key data pos) (\<lambda>(last_key, pos).
          if length data \<le> pos then Inl (IoError ''BTreeIndexMeta has_nulls flag is missing'')
          else
            let has_nulls = (data ! pos = 1); pos = pos + 1; trailer_len = length data - pos in
            if trailer_len = 1 then Inl (IoError ''BTreeIndexMeta null flags trailer is truncated'')
            else if 2 \<le> trailer_len then
              (if data ! pos = 1 then
                 let flags = data ! (pos + 1) in
                 Inr \<lparr>meta_first_key = (if flags AND 1 \<noteq> 0 then None else Some first_key),
                      meta_last_key = (if flags AND 2 \<noteq> 0 then None else Some last_key),
                      meta_has_nulls = has_nulls\<rparr>
               else Inr \<lparr>meta_first_key = Some first_key, meta_last_key = Some last_key,
                         meta_has_nulls = has_nulls\<rparr>)
            else if first_key = [] \<and> last_key = [] \<and> has_nulls then
              Inr \<lparr>meta_first_key = None, meta_last_key = None, meta_has_nulls = has_nulls\<rparr>
            else Inr \<lparr>meta_first_key = Some first_key, meta_last_key = Some last_key,
                      meta_has_nulls = has_nulls\<rparr>)))"

section \<open>Round trip\<close>

definition key_fits :: "bytes option \<Rightarrow> bool" where
  "key_fits k \<longleftrightarrow> (case k of None \<Rightarrow> True | Some k \<Rightarrow> int (length k) \<le> i32_max)"

definition key_or_empty :: "bytes option \<Rightarrow> bytes" where
  "key_or_empty k = (case k of None \<Rightarrow> [] | Some k \<Rightarrow> k)"

lemma meta_read_key_field:
  assumes "key_fits k"
  shows "meta_read_key (pre @ key_field k @ rest) (length pre)
    = Inr (key_or_empty k, length pre + length (key_field k))"
  using assms from_le_4 [of "case k of None \<Rightarrow> 0 | Some k \<Rightarrow> int (length k)"]
  by (auto simp: meta_read_key_def key_field_def key_or_empty_def key_fits_def Let_def int_range_simps
      split: option.splits)

lemma meta_round_trip:
  assumes "key_fits (meta_first_key m)" "key_fits (meta_last_key m)"
  shows "meta_deserialize (meta_serialize m) = Inr m"
proof -
  define f l where "f = key_field (meta_first_key m)" and "l = key_field (meta_last_key m)"
  define tl where "tl = [if meta_has_nulls m then 1 else 0 :: byte, 1,
    (if meta_first_key m = None then 1 else 0) OR (if meta_last_key m = None then 2 else 0)]"
  have s: "meta_serialize m = f @ l @ tl" by (simp add: meta_serialize_def f_def l_def tl_def)
  have len: "4 \<le> length f" "4 \<le> length l" "length tl = 3"
    by (simp_all add: f_def l_def tl_def key_field_def split: option.splits)
  have r1: "meta_read_key (f @ l @ tl) 0 = Inr (key_or_empty (meta_first_key m), length f)"
    using meta_read_key_field [OF assms(1), of "[]"] by (simp add: f_def)
  have r2: "meta_read_key (f @ l @ tl) (length f) = Inr (key_or_empty (meta_last_key m), length f + length l)"
    using meta_read_key_field [OF assms(2), of f] by (simp add: l_def)
  have at: "(f @ l @ tl) ! (length f + length l) = (if meta_has_nulls m then 1 else 0)"
    "(f @ l @ tl) ! (length f + length l + 1) = 1"
    "(f @ l @ tl) ! (length f + length l + 1 + 1)
       = (if meta_first_key m = None then 1 else 0) OR (if meta_last_key m = None then 2 else 0)"
    by (simp_all add: nth_append tl_def)
  show ?thesis
    unfolding s meta_deserialize_def r1 r2 and_then.simps prod.case at Let_def
    using len by (cases m) (auto simp: key_or_empty_def split: option.splits)
qed

section \<open>Soundness of pruning\<close>

text \<open>What a predicate asks of a non-null key, for the operators pruning looks at.\<close>

fun key_matches :: "(bytes \<Rightarrow> bytes \<Rightarrow> ordering) \<Rightarrow> predicate_operator \<Rightarrow> bytes list \<Rightarrow> bytes \<Rightarrow> bool" where
  "key_matches ord OpEq lits k \<longleftrightarrow> ord k (hd lits) = Equal"
| "key_matches ord OpLt lits k \<longleftrightarrow> ord k (hd lits) = Less"
| "key_matches ord OpLtEq lits k \<longleftrightarrow> ord k (hd lits) \<noteq> Greater"
| "key_matches ord OpGt lits k \<longleftrightarrow> ord k (hd lits) = Greater"
| "key_matches ord OpGtEq lits k \<longleftrightarrow> ord k (hd lits) \<noteq> Less"
| "key_matches ord OpIn lits k \<longleftrightarrow> (\<exists>l \<in> set lits. ord k l = Equal)"
| "key_matches ord OpIsNull lits k \<longleftrightarrow> False"
| "key_matches ord _ lits k \<longleftrightarrow> True"

text \<open>A result that keeps the file.\<close>

definition keeps :: "bool result \<Rightarrow> bool" where
  "keeps r \<longleftrightarrow> r = Inr True \<or> (\<exists>e. r = Inl (DataInvalid e))"

lemma unwrap_keeps: "keeps r \<Longrightarrow> unwrap_or_true r = Inr True"
  by (auto simp: keeps_def unwrap_or_true_def)

text \<open>A comparator for the column's type: it orders the keys it can read, and reports the others.\<close>

definition reads_keys :: "key_cmp \<Rightarrow> (bytes \<Rightarrow> bytes \<Rightarrow> ordering) \<Rightarrow> bytes set \<Rightarrow> bool" where
  "reads_keys c ord A \<longleftrightarrow>
     (\<forall>x \<in> A. \<forall>y \<in> A. c x y = Inr (ord x y) \<or> (\<exists>e. c x y = Inl (DataInvalid e)))"

lemma keeps_cmp:
  "reads_keys c ord A \<Longrightarrow> x \<in> A \<Longrightarrow> y \<in> A \<Longrightarrow> P (ord x y) \<Longrightarrow> keeps (and_then (c x y) (\<lambda>r. Inr (P r)))"
  unfolding reads_keys_def by (drule bspec, assumption, drule bspec, assumption) (auto simp: keeps_def)

lemma keeps_and_also: "keeps a \<Longrightarrow> keeps b \<Longrightarrow> keeps (and_also a b)"
  by (auto simp: keeps_def and_also_def)

lemma keeps_inside:
  assumes "reads_keys c ord A" "f \<in> A" "t \<in> A" "k \<in> A" "ord k f \<noteq> Less" "ord k t \<noteq> Greater"
  shows "keeps (inside c f t k)"
  unfolding inside_def using assms by (intro keeps_and_also keeps_cmp [of c ord A])

lemma keeps_any_inside:
  assumes "reads_keys c ord A" "f \<in> A" "t \<in> A" "set lits \<subseteq> A"
    "\<exists>l \<in> set lits. ord l f \<noteq> Less \<and> ord l t \<noteq> Greater"
  shows "keeps (any_inside c f t lits)"
  using assms(4,5)
proof (induction lits)
  case (Cons l lits)
  have l: "l \<in> A" using Cons.prems by simp
  show ?case
  proof (cases "ord l f \<noteq> Less \<and> ord l t \<noteq> Greater")
    case True
    then have "keeps (inside c f t l)" using assms(1-3) l by (intro keeps_inside [of c ord A]) auto
    then show ?thesis by (auto simp: keeps_def)
  next
    case False
    then have rest: "keeps (any_inside c f t lits)" using Cons by auto
    have "c l f = Inr (ord l f) \<or> (\<exists>e. c l f = Inl (DataInvalid e))"
      "c l t = Inr (ord l t) \<or> (\<exists>e. c l t = Inl (DataInvalid e))"
      using assms(1-3) l unfolding reads_keys_def by blast+
    then have "(\<exists>b. inside c f t l = Inr b) \<or> (\<exists>e. inside c f t l = Inl (DataInvalid e))"
      unfolding inside_def and_also_def by (cases "ord l f = Less") auto
    then consider "inside c f t l = Inr True" | "inside c f t l = Inr False"
      | e where "inside c f t l = Inl (DataInvalid e)" by (metis (full_types))
    then show ?thesis using rest by cases (simp_all add: keeps_def)
  qed
qed simp

lemma pruning_keeps:
  assumes ord: "total_cmp ord A" and c: "reads_keys c ord A"
    and m: "meta_first_key m = Some f" "meta_last_key m = Some l"
    and A: "f \<in> A" "l \<in> A" "k \<in> A" "set lits \<subseteq> A" "lits \<noteq> []"
    and k: "ord f k \<noteq> Greater" "ord k l \<noteq> Greater" "key_matches ord op lits k"
  shows "keeps (try_may_match m op lits c)"
proof -
  note tr = total_cmp.cmp_trans [OF ord] and flip = total_cmp.cmp_flip [OF ord]
  obtain x xs where x: "lits = x # xs" "x \<in> A" using A(4,5) by (cases lits) auto
  have range: "ord y f \<noteq> Less \<and> ord y l \<noteq> Greater" if y: "y \<in> A" "ord k y = Equal" for y
    using total_cmp.equal_trans [OF ord A(3) y(1) A(2) y(2)] k(1,2)
      tr [OF A(1) A(3) y(1)] y(2) flip [OF A(1) y(1)] by auto
  have low: "ord f x = Less" if "ord k x = Less"
    using total_cmp.le_less_trans [OF ord A(1,3) x(2)] k(1) that by blast
  have le: "ord f x \<noteq> Greater" if "ord k x \<noteq> Greater" using tr [OF A(1,3) x(2)] k(1) that by blast
  have hi: "ord l x = Greater" if "ord k x = Greater"
  proof -
    have "ord x l = Less"
      using total_cmp.less_le_trans [OF ord x(2) A(3,2)] flip [OF A(3) x(2)] that k(2) by simp
    then show ?thesis using flip [OF x(2) A(2)] by simp
  qed
  have ge: "ord l x \<noteq> Less" if "ord k x \<noteq> Less"
    using tr [OF x(2) A(3,2)] flip [OF A(3) x(2)] flip [OF A(2) x(2)] that k(2) by auto
  note kc = keeps_cmp [OF c]
  have op: "\<not> only_nulls m" using m by (simp add: only_nulls_def)
  show ?thesis
  proof (cases op)
    case OpEq
    then have "keeps (inside c f l x)"
      using range [OF x(2)] k(3) x A by (intro keeps_inside [OF c]) auto
    then show ?thesis using OpEq op m x by (simp add: try_may_match_def literal0_def)
  next
    case OpIn
    then have "keeps (any_inside c f l lits)"
      using range k(3) A by (intro keeps_any_inside [OF c]) auto
    then show ?thesis using OpIn op m by (simp add: try_may_match_def)
  next
    case OpLt
    then show ?thesis using low k(3) op m x kc [OF A(1) x(2), of "\<lambda>r. r = Less"]
      by (simp add: try_may_match_def literal0_def)
  next
    case OpLtEq
    then show ?thesis using le k(3) op m x kc [OF A(1) x(2), of "\<lambda>r. r \<noteq> Greater"]
      by (simp add: try_may_match_def literal0_def)
  next
    case OpGt
    then show ?thesis using hi k(3) op m x kc [OF A(2) x(2), of "\<lambda>r. r = Greater"]
      by (simp add: try_may_match_def literal0_def)
  next
    case OpGtEq
    then show ?thesis using ge k(3) op m x kc [OF A(2) x(2), of "\<lambda>r. r \<noteq> Less"]
      by (simp add: try_may_match_def literal0_def)
  qed (use k(3) op m in \<open>simp_all add: try_may_match_def keeps_def\<close>)
qed

lemma pruning_keeps_between:
  assumes ord: "total_cmp ord A" and c: "reads_keys c ord A"
    and m: "meta_first_key m = Some f" "meta_last_key m = Some l"
    and A: "f \<in> A" "l \<in> A" "k \<in> A" "a \<in> A" "b \<in> A"
    and k: "ord f k \<noteq> Greater" "ord k l \<noteq> Greater" "ord a k \<noteq> Greater" "ord k b \<noteq> Greater"
  shows "keeps (try_may_match_between m a b c)"
proof -
  have "ord f b \<noteq> Greater" using total_cmp.cmp_trans [OF ord A(1,3,5)] k by blast
  moreover have "ord l a \<noteq> Less"
    using total_cmp.cmp_trans [OF ord A(4,3,2)] total_cmp.cmp_flip [OF ord A(2,4)] k by auto
  ultimately show ?thesis
    using m A c unfolding try_may_match_between_def only_nulls_def
    by (auto intro!: keeps_and_also keeps_cmp [of c ord A])
qed

section \<open>Properties\<close>

text \<open>C11. File pruning never drops a matching row. Take an index file whose first and last key bound a stored
  key, and any comparator that either orders the keys of the column or reports that it cannot read them:
  if the stored key satisfies the predicate, \<^verbatim>\<open>may_match\<close> keeps the file, and if it lies in a range,
  \<^verbatim>\<open>may_match_between\<close> keeps the file; a file with null rows is kept by IS NULL.\<close>

theorem pruning_sound:
  assumes "total_cmp ord A" "reads_keys c ord A"
    and "meta_first_key m = Some f" "meta_last_key m = Some l"
    and "f \<in> A" "l \<in> A" "k \<in> A" "set lits \<subseteq> A" "lits \<noteq> []" "a \<in> A" "b \<in> A"
    and "ord f k \<noteq> Greater" "ord k l \<noteq> Greater"
  shows "(key_matches ord op lits k \<longrightarrow> may_match m op lits c = Inr True)
    \<and> (ord a k \<noteq> Greater \<and> ord k b \<noteq> Greater \<longrightarrow> may_match_between m a b c = Inr True)
    \<and> (meta_has_nulls m \<longrightarrow> may_match m OpIsNull lits c = Inr True)"
proof (intro conjI impI)
  assume "key_matches ord op lits k"
  then show "may_match m op lits c = Inr True"
    unfolding may_match_def by (intro unwrap_keeps pruning_keeps [OF assms(1-9,12,13)])
next
  assume "ord a k \<noteq> Greater \<and> ord k b \<noteq> Greater"
  then show "may_match_between m a b c = Inr True"
    unfolding may_match_between_def
    by (intro unwrap_keeps pruning_keeps_between [OF assms(1-7,10-13)]) simp_all
next
  assume "meta_has_nulls m"
  then show "may_match m OpIsNull lits c = Inr True"
    by (simp add: may_match_def try_may_match_def unwrap_or_true_def)
qed

theorem pruning_sound_witness:
  "may_match \<lparr>meta_first_key = Some [2], meta_last_key = Some [9], meta_has_nulls = False\<rparr> OpGt [[5]]
     (\<lambda>a b. Inr (cmp a b)) = Inr True
   \<and> may_match_between \<lparr>meta_first_key = Some [2], meta_last_key = Some [9], meta_has_nulls = False\<rparr>
       [6] [8] (\<lambda>a b. Inr (cmp a b)) = Inr True"
  using pruning_sound [of cmp UNIV "\<lambda>a b. Inr (cmp a b)"
      "\<lparr>meta_first_key = Some [2], meta_last_key = Some [9], meta_has_nulls = False\<rparr>" "[2]" "[9]" "[7]"
      "[[5]]" "[6]" "[8]" OpGt]
  by (simp add: linorder_cmp.total_cmp_axioms reads_keys_def)

text \<open>C17. Index file metadata round trips: \<^verbatim>\<open>deserialize\<close> recovers from \<^verbatim>\<open>serialize\<close> both keys, whether present, empty
  or absent, and the null flag, for keys of up to \<^verbatim>\<open>i32::MAX\<close> bytes.\<close>

theorem meta_correct:
  assumes "key_fits (meta_first_key m)" "key_fits (meta_last_key m)"
  shows "meta_deserialize (meta_serialize m) = Inr m"
  using meta_round_trip [OF assms] .

theorem meta_correct_witness:
  "meta_deserialize (meta_serialize \<lparr>meta_first_key = Some [], meta_last_key = Some [9], meta_has_nulls = True\<rparr>)
   = Inr \<lparr>meta_first_key = Some [], meta_last_key = Some [9], meta_has_nulls = True\<rparr>"
  using meta_correct [of "\<lparr>meta_first_key = Some [], meta_last_key = Some [9], meta_has_nulls = True\<rparr>"]
  by (simp add: key_fits_def int_range_simps)

end
