(* ===== verification/Btree_Writer.thy ===== *)
theory Btree_Writer
  imports Sst_File Index_Meta
begin

text \<open>
  \<^verbatim>\<open>crates/paimon/src/btree/writer.rs\<close>: \<open>index_writer\<close> (\<^verbatim>\<open>BTreeIndexWriter\<close>) takes keys in ascending order with
  their row ids, combines the row ids of equal keys into postings, collects the rows of null keys in a
  bitmap, and finishes the file with null bitmap, Bloom filter, index block and footer.
\<close>

section \<open>Operations\<close>

record 't index_writer =
  iw_sst_writer :: sst_writer
  iw_current_row_ids :: "int list"
  iw_last_key :: "bytes option"
  iw_first_key :: "bytes option"
  iw_null_bitmap :: "'t option"
  iw_row_count :: int
  iw_key_comparator :: key_cmp
  iw_file_version :: int

text \<open>\<^verbatim>\<open>key_comparison_io_error\<close>\<close>

definition key_comparison_io_error :: "'a result \<Rightarrow> 'a result" where
  "key_comparison_io_error r =
     (case r of Inr x \<Rightarrow> Inr x | Inl (Panic m) \<Rightarrow> Inl (Panic m) | Inl _ \<Rightarrow> Inl KeyComparisonFailure)"

definition with_comparator_and_options :: "nat \<Rightarrow> compression_type \<Rightarrow> int \<Rightarrow> bool \<Rightarrow> key_cmp \<Rightarrow> 't index_writer" where
  "with_comparator_and_options block_size ct lvl bloom_filter_enabled c =
     \<lparr>iw_sst_writer = sst_with_bloom_filter block_size ct lvl bloom_filter_enabled,
      iw_current_row_ids = [], iw_last_key = None, iw_first_key = None, iw_null_bitmap = None,
      iw_row_count = 0, iw_key_comparator = c, iw_file_version = 1\<rparr>"

definition with_file_version :: "'t index_writer \<Rightarrow> int \<Rightarrow> 't index_writer result" where
  "with_file_version w version =
     (if (version \<noteq> 1 \<and> version \<noteq> 2) \<or> iw_row_count w \<noteq> 0
      then Inl (IoError ''BTree file version must be 1 or 2 and set before writing'')
      else Inr (w\<lparr>iw_file_version := version\<rparr>))"

definition iw_flush_row_ids :: "('t, 'b) env \<Rightarrow> 't index_writer \<Rightarrow> 't index_writer result" where
  "iw_flush_row_ids E w =
     (if iw_current_row_ids w = [] then Inr w
      else and_then (serialize_rows (env_roaring E) (iw_current_row_ids w) (iw_file_version w)) (\<lambda>value_buf.
        let w = w\<lparr>iw_current_row_ids := []\<rparr> in
        case iw_last_key w of
          None \<Rightarrow> Inr w
        | Some key \<Rightarrow>
            and_then (sst_put E (iw_sst_writer w) key value_buf) (\<lambda>sst. Inr (w\<lparr>iw_sst_writer := sst\<rparr>))))"

definition iw_write :: "('t, 'b) env \<Rightarrow> 't index_writer \<Rightarrow> bytes option \<Rightarrow> int \<Rightarrow> 't index_writer result" where
  "iw_write E w key row =
     (if row < 0 then Inl (IoError ''BTree row ID must be non-negative'')
      else
        let w = w\<lparr>iw_row_count := u64_add (iw_row_count w) 1\<rparr> in
        case key of
          None \<Rightarrow>
            (let bitmap = (case iw_null_bitmap w of Some bm \<Rightarrow> bm | None \<Rightarrow> treemap_new (env_roaring E)) in
             Inr (w\<lparr>iw_null_bitmap := Some (treemap_insert (env_roaring E) row bitmap)\<rparr>))
        | Some k \<Rightarrow>
            and_then
              (case iw_last_key w of
                 None \<Rightarrow> Inr w
               | Some last_key \<Rightarrow>
                   and_then (key_comparison_io_error (iw_key_comparator w k last_key)) (\<lambda>order.
                     if order \<noteq> Equal then iw_flush_row_ids E w else Inr w))
              (\<lambda>w. Inr (w\<lparr>iw_last_key := Some k, iw_current_row_ids := iw_current_row_ids w @ [row],
                          iw_first_key := (case iw_first_key w of None \<Rightarrow> Some k | Some f \<Rightarrow> Some f)\<rparr>)))"

definition iw_write_null_bitmap :: "('t, 'b) env \<Rightarrow> 't index_writer \<Rightarrow> (block_handle option \<times> 't index_writer) result" where
  "iw_write_null_bitmap E w =
     (case iw_null_bitmap w of
        None \<Rightarrow> Inr (None, w)
      | Some bitmap \<Rightarrow>
          let serialized = treemap_serialize_into (env_roaring E) bitmap;
              crc_value = crc32 (env_codecs E) serialized;
              handle = \<lparr>handle_offset = sst_position (iw_sst_writer w),
                        handle_size = wrap_unsigned 32 (int (length serialized))\<rparr> in
          and_then (sst_write_raw E (iw_sst_writer w) (serialized @ to_le 4 crc_value)) (\<lambda>sst.
            Inr (Some handle, w\<lparr>iw_sst_writer := sst\<rparr>)))"

abbreviation (input) BLOOM_FILTER_FPP :: "64 word" where "BLOOM_FILTER_FPP \<equiv> 0x3FA999999999999A"

text \<open>The result is the closed file with \<^verbatim>\<open>BTreeWriteResult\<close>.\<close>

definition iw_finish :: "('t, 'b) env \<Rightarrow> 't index_writer \<Rightarrow> (bytes \<times> index_meta \<times> int) result" where
  "iw_finish E w =
     and_then (iw_flush_row_ids E w) (\<lambda>w.
       and_then (sst_flush E (iw_sst_writer w)) (\<lambda>sst.
         and_then (iw_write_null_bitmap E (w\<lparr>iw_sst_writer := sst\<rparr>)) (\<lambda>(null_bitmap_handle, w).
           and_then (sst_write_bloom_filter E (iw_sst_writer w) BLOOM_FILTER_FPP) (\<lambda>(bloom_filter_handle, sst).
             and_then (sst_write_index_block E sst) (\<lambda>(index_block_handle, sst).
               let footer = (footer_new bloom_filter_handle index_block_handle null_bitmap_handle)
                     \<lparr>footer_version := iw_file_version w\<rparr> in
               and_then (sst_write_raw E sst (write_footer footer)) (\<lambda>sst.
                 and_then (sst_close E sst) (\<lambda>file.
                   Inr (file,
                        \<lparr>meta_first_key = iw_first_key w, meta_last_key = iw_last_key w,
                         meta_has_nulls = (iw_null_bitmap w \<noteq> None)\<rparr>,
                        iw_row_count w))))))))"

text \<open>Writing a sequence of keys and rows.\<close>

fun iw_write_all :: "('t, 'b) env \<Rightarrow> 't index_writer \<Rightarrow> (bytes option \<times> int) list \<Rightarrow> 't index_writer result" where
  "iw_write_all E w [] = Inr w"
| "iw_write_all E w ((key, row) # ins) = and_then (iw_write E w key row) (\<lambda>w. iw_write_all E w ins)"

definition write_index :: "('t, 'b) env \<Rightarrow> nat \<Rightarrow> compression_type \<Rightarrow> int \<Rightarrow> bool \<Rightarrow> key_cmp \<Rightarrow> int
    \<Rightarrow> (bytes option \<times> int) list \<Rightarrow> (bytes \<times> index_meta \<times> int) result" where
  "write_index E block_size ct lvl bloom c version ins =
     and_then (with_file_version (with_comparator_and_options block_size ct lvl bloom c) version) (\<lambda>w.
       and_then (iw_write_all E w ins) (iw_finish E))"

section \<open>Invariant\<close>

text \<open>The rows of non-null and of null keys of an input.\<close>

definition keyed :: "(bytes option \<times> int) list \<Rightarrow> (bytes \<times> int) list" where
  "keyed ins = concat (map (\<lambda>(k, r). case k of None \<Rightarrow> [] | Some k \<Rightarrow> [(k, r)]) ins)"

definition null_rows :: "(bytes option \<times> int) list \<Rightarrow> int list" where
  "null_rows ins = concat (map (\<lambda>(k, r). case k of None \<Rightarrow> [r] | Some k \<Rightarrow> []) ins)"

lemma keyed_simps [simp]:
  "keyed [] = []" "keyed ((None, r) # ins) = keyed ins" "keyed ((Some k, r) # ins) = (k, r) # keyed ins"
  "keyed (xs @ ys) = keyed xs @ keyed ys"
  by (simp_all add: keyed_def)

lemma null_rows_simps [simp]:
  "null_rows [] = []" "null_rows ((None, r) # ins) = r # null_rows ins"
  "null_rows ((Some k, r) # ins) = null_rows ins" "null_rows (xs @ ys) = null_rows xs @ null_rows ys"
  by (simp_all add: null_rows_def)

definition spread :: "(bytes \<times> int list) list \<Rightarrow> (bytes \<times> int) list" where
  "spread gs = concat (map (\<lambda>(k, rs). map (Pair k) rs) gs)"

lemma spread_simps [simp]:
  "spread [] = []" "spread ((k, rs) # gs) = map (Pair k) rs @ spread gs" "spread (xs @ ys) = spread xs @ spread ys"
  by (simp_all add: spread_def)

text \<open>An entry of the file is the posting of a group.\<close>

definition posts :: "('t, 'b) roaring \<Rightarrow> int \<Rightarrow> bytes \<times> bytes \<Rightarrow> bytes \<times> int list \<Rightarrow> bool" where
  "posts R version e g \<longleftrightarrow> fst e = fst g \<and> serialize_rows R (snd g) version = Inr (snd e)"

text \<open>
  \<open>gs\<close> are the groups already put into the file, the current row ids the group being collected.
\<close>

definition open_group :: "'t index_writer \<Rightarrow> (bytes \<times> int list) list" where
  "open_group w =
     (case iw_last_key w of None \<Rightarrow> []
      | Some k \<Rightarrow> if iw_current_row_ids w = [] then [] else [(k, iw_current_row_ids w)])"

definition entries_inv :: "('t, 'b) env \<Rightarrow> 't index_writer \<Rightarrow> (bytes \<times> int list) list \<Rightarrow> bool" where
  "entries_inv E w gs \<longleftrightarrow>
     (\<exists>bs ps. sst_inv E (iw_sst_writer w) bs ps
        \<and> list_all2 (posts (env_roaring E) (iw_file_version w)) (all_entries bs ps) gs)"

definition nulls_inv :: "('t, 'b) env \<Rightarrow> 't index_writer \<Rightarrow> int list \<Rightarrow> bool" where
  "nulls_inv E w nl \<longleftrightarrow>
     (case iw_null_bitmap w of None \<Rightarrow> nl = []
      | Some t \<Rightarrow> nl \<noteq> [] \<and> built (env_roaring E) t \<and> rows_in (env_roaring E) t = set nl)"

definition keys_inv :: "'t index_writer \<Rightarrow> (bytes \<times> int) list \<Rightarrow> bool" where
  "keys_inv w kr \<longleftrightarrow>
     iw_last_key w = (if kr = [] then None else Some (fst (last kr)))
     \<and> iw_first_key w = (if kr = [] then None else Some (fst (hd kr)))
     \<and> (iw_current_row_ids w = [] \<longleftrightarrow> kr = [])"

definition key_order :: "key_cmp \<Rightarrow> (bytes \<Rightarrow> bytes \<Rightarrow> ordering) \<Rightarrow> bytes set \<Rightarrow> bool" where
  "key_order c ord A \<longleftrightarrow> total_cmp ord A
     \<and> (\<forall>x \<in> A. \<forall>y \<in> A. c x y = Inr (ord x y) \<and> (ord x y = Equal \<longrightarrow> x = y))"

definition writer_inv :: "('t, 'b) env \<Rightarrow> (bytes \<Rightarrow> bytes \<Rightarrow> ordering) \<Rightarrow> 't index_writer
    \<Rightarrow> (bytes option \<times> int) list \<Rightarrow> (bytes \<times> int list) list \<Rightarrow> bool" where
  "writer_inv E ord w ins gs \<longleftrightarrow> entries_inv E w gs \<and> spread (gs @ open_group w) = keyed ins
     \<and> sorted_keys ord (gs @ open_group w) \<and> nulls_inv E w (null_rows ins) \<and> keys_inv w (keyed ins)"

lemma posts_nonempty: "posts R v e g \<Longrightarrow> snd g \<noteq> []"
  using serialize_rows_succeeds [of R "snd g" v] by (auto simp: posts_def posting_input_def)

lemma entries_inv_nonempty:
  assumes "entries_inv E w gs" "g \<in> set gs"
  shows "snd g \<noteq> []"
proof -
  obtain es where "list_all2 (posts (env_roaring E) (iw_file_version w)) es gs"
    using assms(1) by (auto simp: entries_inv_def)
  then show ?thesis
    using assms(2) posts_nonempty by (metis list_all2_conv_all_nth in_set_conv_nth)
qed

lemma spread_Nil: "spread gs = [] \<Longrightarrow> \<forall>g \<in> set gs. snd g \<noteq> [] \<Longrightarrow> gs = []"
  by (cases gs) auto

definition same_keys :: "'t index_writer \<Rightarrow> 't index_writer \<Rightarrow> bool" where
  "same_keys w w' \<longleftrightarrow> iw_last_key w' = iw_last_key w \<and> iw_first_key w' = iw_first_key w
     \<and> iw_null_bitmap w' = iw_null_bitmap w \<and> iw_key_comparator w' = iw_key_comparator w
     \<and> iw_file_version w' = iw_file_version w"

lemma entries_inv_cong:
  "entries_inv E w gs \<Longrightarrow> iw_sst_writer w' = iw_sst_writer w \<Longrightarrow> iw_file_version w' = iw_file_version w \<Longrightarrow>
   entries_inv E w' gs"
  by (simp add: entries_inv_def)

lemma flush_row_ids_small:
  assumes E: "env_ok E" and inv: "entries_inv E w gs" and fl: "iw_flush_row_ids E w = Inr w'"
    and small: "sst_small (iw_sst_writer w')"
  shows "entries_inv E w' (gs @ open_group w) \<and> (iw_last_key w \<noteq> None \<longrightarrow> iw_current_row_ids w' = [])
    \<and> same_keys w w'"
proof (cases "iw_current_row_ids w = [] \<or> iw_last_key w = None")
  case True
  then show ?thesis
    using entries_inv_cong [OF inv] inv fl
    by (auto simp: iw_flush_row_ids_def open_group_def result_simps Let_def same_keys_def
        split: option.splits if_splits)
next
  case False
  then obtain k where k: "iw_last_key w = Some k" by auto
  obtain v sst where v: "serialize_rows (env_roaring E) (iw_current_row_ids w) (iw_file_version w) = Inr v"
    and put: "sst_put E (iw_sst_writer w) k v = Inr sst"
    and w': "w' = w\<lparr>iw_current_row_ids := [], iw_sst_writer := sst\<rparr>"
    using fl False k by (auto simp: iw_flush_row_ids_def result_simps Let_def)
  obtain bs ps where i: "sst_inv E (iw_sst_writer w) bs ps"
    and p: "list_all2 (posts (env_roaring E) (iw_file_version w)) (all_entries bs ps) gs"
    using inv by (auto simp: entries_inv_def)
  obtain bs' ps' where i': "sst_inv E sst bs' ps'" and all: "all_entries bs' ps' = all_entries bs ps @ [(k, v)]"
    using put_small [OF E i put] small w' by auto
  have "posts (env_roaring E) (iw_file_version w) (k, v) (k, iw_current_row_ids w)"
    using v by (simp add: posts_def)
  then have "list_all2 (posts (env_roaring E) (iw_file_version w)) (all_entries bs' ps') (gs @ open_group w)"
    unfolding all using p False k by (simp add: open_group_def list_all2_appendI)
  then have "entries_inv E w' (gs @ open_group w)" using i' w' by (auto simp: entries_inv_def)
  then show ?thesis using w' by (simp add: same_keys_def)
qed

lemma flush_row_ids_grows:
  assumes "env_ok E" "iw_flush_row_ids E w = Inr w'"
  shows "length (sst_out (iw_sst_writer w)) \<le> length (sst_out (iw_sst_writer w'))"
  using assms(2) put_grows [OF assms(1), of "iw_sst_writer w"]
  by (auto simp: iw_flush_row_ids_def result_simps Let_def split: if_splits option.splits)

lemma write_grows:
  assumes "env_ok E" "iw_write E w key row = Inr w'"
  shows "length (sst_out (iw_sst_writer w)) \<le> length (sst_out (iw_sst_writer w'))"
  using assms(2) flush_row_ids_grows [OF assms(1)]
  by (fastforce simp: iw_write_def result_simps Let_def split: if_splits option.splits)

lemma write_all_grows:
  assumes "env_ok E" "iw_write_all E w ins = Inr w'"
  shows "length (sst_out (iw_sst_writer w)) \<le> length (sst_out (iw_sst_writer w'))"
  using assms(2)
proof (induction ins arbitrary: w)
  case (Cons x ins)
  then obtain w1 where "iw_write E w (fst x) (snd x) = Inr w1" "iw_write_all E w1 ins = Inr w'"
    by (cases x) (auto simp: result_simps)
  then show ?case using Cons.IH write_grows [OF assms(1)] le_trans by blast
qed simp

text \<open>One step: the new row joins the open group, or closes it and opens the next.\<close>

lemma sorted_keys_snoc:
  assumes "total_cmp ord A" "sorted_keys ord (gs @ [(l, rs)])" "fst ` set gs \<subseteq> A" "l \<in> A" "k \<in> A"
    "ord l k = Less"
  shows "sorted_keys ord ((gs @ [(l, rs)]) @ [(k, rs')])"
proof -
  have "ord (fst g) k = Less" if g: "g \<in> set gs" for g
  proof -
    have "ord (fst g) l = Less" "fst g \<in> A" using assms(2,3) g by (auto simp: sorted_keys_def sorted_wrt_append)
    then show ?thesis using total_cmp.less_le_trans [OF assms(1) _ assms(4,5)] assms(6) by simp
  qed
  then show ?thesis using assms(2,6) by (auto simp: sorted_keys_def sorted_wrt_append)
qed

lemma fst_spread: "\<forall>g \<in> set gs. snd g \<noteq> [] \<Longrightarrow> fst ` set (spread gs) = fst ` set gs"
proof (induction gs)
  case (Cons g gs)
  then show ?case by (cases g) (simp add: image_Un image_image image_constant_conv)
qed simp

definition append_row :: "'t index_writer \<Rightarrow> bytes \<Rightarrow> int \<Rightarrow> 't index_writer" where
  "append_row w k row = w\<lparr>iw_last_key := Some k, iw_current_row_ids := iw_current_row_ids w @ [row],
     iw_first_key := (case iw_first_key w of None \<Rightarrow> Some k | Some f \<Rightarrow> Some f)\<rparr>"

lemma iw_write_key:
  assumes "iw_write E w (Some k) row = Inr w'"
  shows "\<exists>w1. w' = append_row w1 k row
    \<and> (iw_last_key w = None \<and> w1 = w\<lparr>iw_row_count := u64_add (iw_row_count w) 1\<rparr>
       \<or> (\<exists>l order. iw_last_key w = Some l \<and> key_comparison_io_error (iw_key_comparator w k l) = Inr order
            \<and> (if order = Equal then w1 = w\<lparr>iw_row_count := u64_add (iw_row_count w) 1\<rparr>
               else iw_flush_row_ids E (w\<lparr>iw_row_count := u64_add (iw_row_count w) 1\<rparr>) = Inr w1)))"
  using assms unfolding iw_write_def append_row_def [symmetric]
  by (cases "iw_last_key w") (auto simp: Let_def result_simps split: if_splits)

lemma append_row_simps [simp]:
  "iw_last_key (append_row w k row) = Some k"
  "iw_current_row_ids (append_row w k row) = iw_current_row_ids w @ [row]"
  "iw_first_key (append_row w k row) = (case iw_first_key w of None \<Rightarrow> Some k | Some f \<Rightarrow> Some f)"
  "iw_sst_writer (append_row w k row) = iw_sst_writer w"
  "iw_null_bitmap (append_row w k row) = iw_null_bitmap w"
  "iw_file_version (append_row w k row) = iw_file_version w"
  "iw_key_comparator (append_row w k row) = iw_key_comparator w"
  "iw_row_count (append_row w k row) = iw_row_count w"
  by (simp_all add: append_row_def)

lemma open_group_cong:
  "iw_last_key w' = iw_last_key w \<Longrightarrow> iw_current_row_ids w' = iw_current_row_ids w \<Longrightarrow>
   open_group w' = open_group w"
  by (cases "iw_last_key w") (simp_all add: open_group_def)

lemma write_null_small:
  assumes E: "env_ok E" and inv: "writer_inv E ord w ins gs" and wr: "iw_write E w None row = Inr w'"
    and rows: "in_i64 row"
  shows "writer_inv E ord w' (ins @ [(None, row)]) gs
    \<and> iw_key_comparator w' = iw_key_comparator w \<and> iw_file_version w' = iw_file_version w"
proof -
  let ?R = "env_roaring E"
  have R: "roaring_ok ?R" using E by (simp add: env_ok_def)
  define t where "t = (case iw_null_bitmap w of Some bm \<Rightarrow> bm | None \<Rightarrow> treemap_new ?R)"
  have row: "0 \<le> row" and w': "w' = w\<lparr>iw_row_count := u64_add (iw_row_count w) 1,
      iw_null_bitmap := Some (treemap_insert ?R row t)\<rparr>"
    using wr by (auto simp: iw_write_def Let_def t_def split: if_splits)
  have u: "in_u64 row" using row rows by (simp add: int_range_simps)
  have n: "nulls_inv E w (null_rows ins)" using inv by (simp add: writer_inv_def)
  then have t: "built ?R t" "rows_in ?R t = set (null_rows ins)"
    using roaring_okD(1) [OF R] built_new [of ?R] by (auto simp: t_def nulls_inv_def split: option.splits)
  then have "nulls_inv E w' (null_rows (ins @ [(None, row)]))"
    using roaring_okD(2) [OF R u] built_insert [OF t(1) u] by (simp add: w' nulls_inv_def)
  moreover have "entries_inv E w' gs"
    by (rule entries_inv_cong [of E w]) (use inv in \<open>simp_all add: writer_inv_def w'\<close>)
  moreover have "open_group w' = open_group w" by (rule open_group_cong) (simp_all add: w')
  moreover have "keys_inv w' (keyed ins)" using inv by (simp add: writer_inv_def keys_inv_def w')
  ultimately show ?thesis using inv by (simp add: writer_inv_def w')
qed

lemma write_key_small:
  assumes E: "env_ok E" and ord: "key_order (iw_key_comparator w) ord A"
    and inv: "writer_inv E ord w ins gs" and wr: "iw_write E w (Some k) row = Inr w'"
    and small: "sst_small (iw_sst_writer w')"
    and A: "fst ` set (keyed ins) \<subseteq> A" "k \<in> A"
    and sorted: "\<And>x. x \<in> set (keyed ins) \<Longrightarrow> ord (fst x) k \<noteq> Greater"
  shows "\<exists>gs'. writer_inv E ord w' (ins @ [(Some k, row)]) gs'
    \<and> iw_key_comparator w' = iw_key_comparator w \<and> iw_file_version w' = iw_file_version w"
proof -
  let ?w = "w\<lparr>iw_row_count := u64_add (iw_row_count w) 1\<rparr>"
  have tot: "total_cmp ord A" using ord by (simp add: key_order_def)
  have e: "entries_inv E w gs" and sp: "spread (gs @ open_group w) = keyed ins"
    and so: "sorted_keys ord (gs @ open_group w)" and nu: "nulls_inv E w (null_rows ins)"
    and ke: "keys_inv w (keyed ins)"
    using inv by (simp_all add: writer_inv_def)
  have og: "open_group ?w = open_group w" by (rule open_group_cong) simp_all
  obtain w1 where w': "w' = append_row w1 k row"
    and cases: "iw_last_key w = None \<and> w1 = ?w
       \<or> (\<exists>l order. iw_last_key w = Some l \<and> key_comparison_io_error (iw_key_comparator w k l) = Inr order
            \<and> (if order = Equal then w1 = ?w else iw_flush_row_ids E ?w = Inr w1))"
    using iw_write_key [OF wr] by blast
  have og': "open_group w' = [(k, iw_current_row_ids w1 @ [row])]" by (simp add: open_group_def w')
  have finish: "\<exists>gs'. writer_inv E ord w' (ins @ [(Some k, row)]) gs'
      \<and> iw_key_comparator w' = iw_key_comparator w \<and> iw_file_version w' = iw_file_version w"
    if "same_keys w w1" "entries_inv E w1 gs'"
      "spread gs' @ map (Pair k) (iw_current_row_ids w1) = keyed ins"
      "sorted_keys ord (gs' @ [(k, iw_current_row_ids w1 @ [row])])" for gs'
  proof -
    have "entries_inv E w' gs'" using that(2) by (rule entries_inv_cong) (simp_all add: w')
    moreover have "nulls_inv E w' (null_rows (ins @ [(Some k, row)]))"
      using nu that(1) by (simp add: nulls_inv_def w' same_keys_def)
    moreover have "keys_inv w' (keyed (ins @ [(Some k, row)]))"
      using ke that(1) by (auto simp: keys_inv_def w' same_keys_def split: option.splits)
    moreover have "spread (gs' @ open_group w') = keyed (ins @ [(Some k, row)])"
      using that(3) by (simp add: og')
    ultimately have "writer_inv E ord w' (ins @ [(Some k, row)]) gs'"
      using that(4) unfolding writer_inv_def og' by blast
    then show ?thesis using that(1) by (auto simp: w' same_keys_def)
  qed
  from cases show ?thesis
  proof (elim disjE conjE exE)
    assume none: "iw_last_key w = None" "w1 = ?w"
    then have k0: "keyed ins = []" using ke by (simp add: keys_inv_def split: if_splits)
    then have "gs = []"
      using sp entries_inv_nonempty [OF e] by (intro spread_Nil) auto
    moreover have "iw_current_row_ids w = []" using ke k0 by (simp add: keys_inv_def)
    ultimately show ?thesis
      using k0 none e
      by (intro finish [of "[]"]) (simp_all add: same_keys_def sorted_keys_def entries_inv_cong [of E w])
  next
    fix l order
    assume l: "iw_last_key w = Some l" and o: "key_comparison_io_error (iw_key_comparator w k l) = Inr order"
      and step: "if order = Equal then w1 = ?w else iw_flush_row_ids E ?w = Inr w1"
    have ne: "keyed ins \<noteq> []" and lk: "l = fst (last (keyed ins))" and cur: "iw_current_row_ids w \<noteq> []"
      using ke l by (auto simp: keys_inv_def split: if_splits)
    then have lA: "l \<in> A" and lin: "\<exists>x \<in> set (keyed ins). fst x = l" using A(1) by auto
    have "iw_key_comparator w k l = Inr (ord k l)" and eq: "ord k l = Equal \<Longrightarrow> k = l"
      using ord A(2) lA by (auto simp: key_order_def)
    then have order: "order = ord k l" using o by (simp add: key_comparison_io_error_def)
    have ogw: "open_group w = [(l, iw_current_row_ids w)]" using l cur by (simp add: open_group_def)
    show ?thesis
    proof (cases "ord k l = Equal")
      case True
      then have "k = l" "w1 = ?w" using eq order step by auto
      moreover have "sorted_keys ord (gs @ [(l, iw_current_row_ids w @ [row])])"
        using so by (simp add: ogw sorted_keys_def sorted_wrt_append)
      ultimately show ?thesis
        using sp e by (intro finish [of gs]) (simp_all add: same_keys_def ogw entries_inv_cong [of E w])
    next
      case False
      then have fl: "iw_flush_row_ids E ?w = Inr w1" using step order by simp
      have ew: "entries_inv E ?w gs" using e by (rule entries_inv_cong) simp_all
      have s1: "sst_small (iw_sst_writer w1)" using small by (simp add: w' sst_small_def)
      have f: "entries_inv E w1 (gs @ open_group w)" "iw_current_row_ids w1 = []" "same_keys ?w w1"
        using flush_row_ids_small [OF E ew fl s1] l by (simp_all add: og)
      have "ord l k = Less"
        using sorted lin False total_cmp.cmp_flip [OF tot A(2) lA] by (cases "ord k l") auto
      moreover have "\<forall>g \<in> set (gs @ open_group w). snd g \<noteq> []"
        using entries_inv_nonempty [OF f(1)] by blast
      then have "fst ` set (gs @ open_group w) \<subseteq> A" using fst_spread sp A(1) by metis
      then have "fst ` set gs \<subseteq> A" by auto
      ultimately have "sorted_keys ord ((gs @ [(l, iw_current_row_ids w)]) @ [(k, [row])])"
        using so lA A(2) unfolding ogw by (intro sorted_keys_snoc [OF tot]) auto
      then show ?thesis
        using f sp by (intro finish [of "gs @ open_group w"]) (simp_all add: same_keys_def ogw)
    qed
  qed
qed

lemma writer_inv_start:
  assumes "with_file_version (with_comparator_and_options bsize ct lvl bloom c) version = Inr w"
  shows "writer_inv E ord w [] [] \<and> iw_key_comparator w = c \<and> iw_file_version w = version \<and> version \<in> {1, 2}"
proof -
  have w: "w = (with_comparator_and_options bsize ct lvl bloom c)\<lparr>iw_file_version := version\<rparr>"
    "version \<in> {1, 2}"
    using assms by (auto simp: with_file_version_def split: if_splits)
  have "sst_inv E (iw_sst_writer w) [] []"
    by (simp add: w with_comparator_and_options_def sst_with_bloom_filter_def sst_with_compression_level_def
        sst_inv_def block_inv_new all_entries_def blocks_stored_def)
  then have "entries_inv E w []" by (force simp: entries_inv_def all_entries_def)
  then show ?thesis
    using w(2) by (simp add: writer_inv_def w(1) with_comparator_and_options_def open_group_def
        sorted_keys_def nulls_inv_def keys_inv_def)
qed

lemma write_all_small:
  assumes E: "env_ok E" and "key_order (iw_key_comparator w) ord A"
    and "writer_inv E ord w ins gs" "iw_write_all E w later = Inr w'" "sst_small (iw_sst_writer w')"
    and "list_all in_i64 (map snd later)" "fst ` set (keyed (ins @ later)) \<subseteq> A"
    and "sorted_wrt (\<lambda>a b. ord (fst a) (fst b) \<noteq> Greater) (keyed (ins @ later))"
  shows "\<exists>gs'. writer_inv E ord w' (ins @ later) gs' \<and> iw_file_version w' = iw_file_version w"
  using assms(2-)
proof (induction later arbitrary: w ins gs)
  case (Cons x later)
  obtain key row where x: "x = (key, row)" by (cases x)
  obtain w1 where wr: "iw_write E w key row = Inr w1" and rest: "iw_write_all E w1 later = Inr w'"
    using Cons.prems(3) x by (auto simp: result_simps)
  have s1: "sst_small (iw_sst_writer w1)"
    using Cons.prems(4) write_all_grows [OF E rest] sst_small_prefix by blast
  have "\<exists>gs1. writer_inv E ord w1 (ins @ [x]) gs1 \<and> iw_key_comparator w1 = iw_key_comparator w
      \<and> iw_file_version w1 = iw_file_version w"
  proof (cases key)
    case None
    then show ?thesis
      using write_null_small [OF E Cons.prems(2)] wr Cons.prems(5) x by auto
  next
    case (Some k)
    then show ?thesis
      using write_key_small [OF E Cons.prems(1,2) _ s1, of k row] wr Cons.prems(6,7) x
      by (auto simp: sorted_wrt_append)
  qed
  then obtain gs1 where "writer_inv E ord w1 (ins @ [x]) gs1" "iw_key_comparator w1 = iw_key_comparator w"
    "iw_file_version w1 = iw_file_version w" by blast
  then show ?case using Cons.IH [of w1 "ins @ [x]" gs1] Cons.prems rest by auto
qed auto

section \<open>The finished file\<close>

text \<open>Where the null bitmap and the Bloom filter stand in the file.\<close>

definition null_stored :: "('t, 'b) env \<Rightarrow> bytes \<Rightarrow> block_handle option \<Rightarrow> int set \<Rightarrow> bool" where
  "null_stored E file nh nl \<longleftrightarrow>
     (case nh of None \<Rightarrow> nl = {}
      | Some h \<Rightarrow> handle_ok h \<and> handle_size h \<noteq> 0 \<and> handle_offset h + handle_size h + 4 \<le> int (length file)
          \<and> (\<exists>t. built (env_roaring E) t \<and> rows_in (env_roaring E) t = nl
               \<and> handle_size h = int (length (treemap_serialize_into (env_roaring E) t))
               \<and> file_range file (handle_offset h) (handle_size h + 4) =
                   treemap_serialize_into (env_roaring E) t
                   @ to_le 4 (crc32 (env_codecs E) (treemap_serialize_into (env_roaring E) t))))"

definition bloom_stored :: "('t, 'b) env \<Rightarrow> bytes \<Rightarrow> bloom_filter_handle option \<Rightarrow> bytes set \<Rightarrow> bool" where
  "bloom_stored E file bh ks \<longleftrightarrow>
     (case bh of None \<Rightarrow> True
      | Some h \<Rightarrow> bloom_handle_ok h \<and> bfh_size h \<noteq> 0 \<and> bfh_expected_entries h \<noteq> 0
          \<and> bfh_offset h + bfh_size h \<le> int (length file)
          \<and> (\<exists>f. bf_from_bytes (env_floats E) (bfh_expected_entries h)
                   (file_range file (bfh_offset h) (bfh_size h)) = Inr f
               \<and> (\<forall>k \<in> ks. bf_test_hash f (hash_bytes k))))"

lemma null_stored_append: "null_stored E file nh nl \<Longrightarrow> null_stored E (file @ xs) nh nl"
  by (auto simp: null_stored_def file_range_append handle_ok_def int_range_simps split: option.splits)

lemma bloom_stored_append: "bloom_stored E file bh ks \<Longrightarrow> bloom_stored E (file @ xs) bh ks"
  by (auto simp: bloom_stored_def file_range_append bloom_handle_ok_def int_range_simps split: option.splits)

definition at_end :: "sst_writer \<Rightarrow> bool" where
  "at_end s \<longleftrightarrow> sst_bytes_written s = int (length (sst_out s))"

lemma write_bytes_at_end:
  assumes "env_ok E" "sst_write_bytes E s d = Inr s'" "at_end s" "sst_small s'"
  shows "at_end s' \<and> sst_out s' = sst_out s @ d \<and> sst_index_block_writer s' = sst_index_block_writer s
    \<and> sst_bloom_hashes s' = sst_bloom_hashes s"
  using write_bytes_small [OF assms(1,2) _ assms(4)] assms(3) by (simp add: at_end_def)

lemma serialized_nonempty:
  assumes "roaring_ok R" "built R t"
  shows "treemap_serialize_into R t \<noteq> []"
proof -
  obtain ps where "portable R t ps" using roaring_okD(10) [OF assms] by blast
  then have "8 \<le> length (treemap_serialize_into R t)" by (simp add: portable_def)
  then show ?thesis by auto
qed

lemma write_null_bitmap_stored:
  assumes E: "env_ok E" and wr: "iw_write_null_bitmap E w = Inr (nh, w')" and small: "sst_small (iw_sst_writer w')"
    and at: "at_end (iw_sst_writer w)" and inv: "nulls_inv E w nl"
  shows "same_keys w w' \<and> iw_row_count w' = iw_row_count w \<and> at_end (iw_sst_writer w')
    \<and> (\<exists>d. sst_out (iw_sst_writer w') = sst_out (iw_sst_writer w) @ d)
    \<and> sst_index_block_writer (iw_sst_writer w') = sst_index_block_writer (iw_sst_writer w)
    \<and> sst_bloom_hashes (iw_sst_writer w') = sst_bloom_hashes (iw_sst_writer w)
    \<and> null_stored E (sst_out (iw_sst_writer w')) nh (set nl)"
proof (cases "iw_null_bitmap w")
  case None
  then show ?thesis
    using wr at inv by (auto simp: iw_write_null_bitmap_def same_keys_def null_stored_def nulls_inv_def)
next
  case (Some t)
  let ?R = "env_roaring E" and ?s = "iw_sst_writer w"
  let ?ser = "treemap_serialize_into ?R t"
  let ?d = "?ser @ to_le 4 (crc32 (env_codecs E) ?ser)"
  have t: "built ?R t" "rows_in ?R t = set nl" using inv Some by (auto simp: nulls_inv_def)
  obtain s' where wb: "sst_write_bytes E ?s ?d = Inr s'" and w': "w' = w\<lparr>iw_sst_writer := s'\<rparr>"
    and nh: "nh = Some \<lparr>handle_offset = sst_bytes_written ?s, handle_size = wrap_unsigned 32 (int (length ?ser))\<rparr>"
    using wr Some by (auto simp: iw_write_null_bitmap_def Let_def result_simps sst_write_raw_def sst_position_def)
  have r: "at_end s'" "sst_out s' = sst_out ?s @ ?d" "sst_index_block_writer s' = sst_index_block_writer ?s"
    "sst_bloom_hashes s' = sst_bloom_hashes ?s"
    using write_bytes_at_end [OF E wb at] small w' by simp_all
  have len: "int (length (sst_out ?s)) + int (length ?ser) + 4 \<le> i32_max"
    using small r(2) by (simp add: w' sst_small_def)
  have sz: "wrap_unsigned 32 (int (length ?ser)) = int (length ?ser)"
    using len by (simp add: wrap_unsigned_def int_range_simps)
  have "?ser \<noteq> []" using serialized_nonempty [OF _ t(1)] E by (simp add: env_ok_def)
  moreover have "file_range (sst_out ?s @ ?d @ []) (int (length (sst_out ?s))) (int (length ?ser) + 4) = ?d"
    by (rule file_range_mid) simp_all
  ultimately have "null_stored E (sst_out s') nh (set nl)"
    using t len at
    by (auto simp: null_stored_def nh sz r(2) handle_ok_def int_range_simps at_end_def intro!: exI [of _ t])
  then show ?thesis using r by (auto simp: w' same_keys_def)
qed

lemma write_bloom_stored:
  assumes E: "env_ok E" and wr: "sst_write_bloom_filter E s fpp = Inr (bh, s')" and small: "sst_small s'"
    and at: "at_end s"
    and hs: "case sst_bloom_hashes s of None \<Rightarrow> True | Some hs \<Rightarrow> hs = map (\<lambda>e. hash_bytes (fst e)) es"
  shows "at_end s' \<and> (\<exists>d. sst_out s' = sst_out s @ d) \<and> sst_index_block_writer s' = sst_index_block_writer s
    \<and> (int (length es) \<le> u64_max \<longrightarrow> bloom_stored E (sst_out s') bh (fst ` set es))"
proof (cases "bh")
  case None
  then show ?thesis
    using wr at by (auto simp: sst_write_bloom_filter_def Let_def result_simps at_end_def bloom_stored_def
        split: option.splits if_splits)
next
  case (Some h)
  then obtain hashes f where ha: "sst_bloom_hashes s = Some hashes"
    and f: "bf_from_hashes (env_floats E) hashes fpp = Inr (Some f)" and sz: "length (bf_bits f) < 2 ^ 32"
    and wb: "sst_write_bytes E (s\<lparr>sst_bloom_hashes := None\<rparr>) (bf_bits f) = Inr s'"
    and h: "h = \<lparr>bfh_offset = sst_bytes_written s, bfh_size = int (length (bf_bits f)),
                 bfh_expected_entries = bf_expected_entries f\<rparr>"
    using wr by (auto simp: sst_write_bloom_filter_def Let_def result_simps sst_position_def
        split: option.splits if_splits)
  note ff = from_hashes_from_bytes [OF f]
  have "at_end (s\<lparr>sst_bloom_hashes := None\<rparr>)" using at by (simp add: at_end_def)
  from write_bytes_at_end [OF E wb this small]
  have r: "at_end s'" "sst_out s' = sst_out s @ bf_bits f" "sst_index_block_writer s' = sst_index_block_writer s"
    by simp_all
  have hashes: "hashes = map (\<lambda>e. hash_bytes (fst e)) es" using hs ha by simp
  have fits: "int (length (sst_out s)) + int (length (bf_bits f)) \<le> i32_max"
    using small by (simp add: sst_small_def r(2))
  have "file_range (sst_out s @ bf_bits f @ []) (int (length (sst_out s))) (int (length (bf_bits f))) = bf_bits f"
    by (rule file_range_mid) simp_all
  moreover have "es \<noteq> []" using ff(4) hashes by simp
  ultimately have "bloom_stored E (sst_out s') bh (fst ` set es)" if "int (length es) \<le> u64_max"
    using ff fits that at sz hashes
    by (auto simp: bloom_stored_def Some h r(2) bloom_handle_ok_def at_end_def int_range_simps u64_max_def)
  then show ?thesis using r by auto
qed

lemma write_index_block_stored:
  assumes E: "env_ok E" and wr: "sst_write_index_block E s = Inr (ih, s')" and small: "sst_small s'"
    and at: "at_end s" and inv: "block_inv (sst_index_block_writer s) es"
  shows "at_end s' \<and> (\<exists>d. sst_out s' = sst_out s @ d) \<and> stored (env_codecs E) (sst_out s') ih es"
proof -
  let ?K = "env_codecs E" and ?block = "fst (bw_finish (sst_index_block_writer s))"
  have K: "codecs_ok ?K" using E by (simp add: env_ok_def)
  let ?s = "s\<lparr>sst_index_block_writer := snd (bw_finish (sst_index_block_writer s))\<rparr>"
  obtain s1 where w1: "sst_write_bytes E ?s ?block = Inr s1"
    and w2: "sst_write_bytes E s1 (trailer_to_bytes \<lparr>trailer_compression = CompressNone,
        trailer_crc = compute_crc32 ?K ?block CompressNone\<rparr>) = Inr s'"
    and h: "ih = \<lparr>handle_offset = sst_bytes_written s, handle_size = wrap_unsigned 32 (int (length ?block))\<rparr>"
    using wr by (auto simp: sst_write_index_block_def Let_def result_simps split_beta)
  have a0: "at_end ?s" using at by (simp add: at_end_def)
  have s1: "sst_small s1"
    using write_bytes_appends(1) [OF E w2] by (intro sst_small_prefix [OF small]) simp
  have r1: "at_end s1" "sst_out s1 = sst_out s @ ?block" using write_bytes_at_end [OF E w1 a0 s1] by simp_all
  have r2: "at_end s'" "sst_out s' = sst_out s @ block_image ?K ?block CompressNone"
    using write_bytes_at_end [OF E w2 r1(1) small] by (simp_all add: r1(2) block_image_def)
  have c: "compress_block ?K ?block CompressNone 0 = Inr (?block, CompressNone)" by (simp add: compress_block_def)
  have len: "int (length (sst_out s) + length ?block) \<le> i32_max"
    using small unfolding sst_small_def r2(2) by (simp add: length_block_image [OF K])
  then have "stored ?K (sst_out s') ih es"
    unfolding h r2(2) using at stored_block [OF K inv c compressed_small [OF inv c] len] by (simp add: at_end_def)
  then show ?thesis using r2 by blast
qed

text \<open>
  \<open>index_image E ord file m gs nl\<close>: a well-formed index file of the sorted groups \<open>gs\<close> of keys and row ids
  and the rows \<open>nl\<close> of null keys. It is what the reader relies on.
\<close>

definition index_image :: "('t, 'b) env \<Rightarrow> (bytes \<Rightarrow> bytes \<Rightarrow> ordering) \<Rightarrow> bytes \<Rightarrow> index_meta
    \<Rightarrow> (bytes \<times> int list) list \<Rightarrow> int set \<Rightarrow> btree_footer \<Rightarrow> ((bytes \<times> bytes) list \<times> block_handle) list \<Rightarrow> bool" where
  "index_image E ord file m gs nl f bs \<longleftrightarrow>
     footer_ok f \<and> int (length file) \<le> i32_max \<and> 52 \<le> length file
     \<and> drop (length file - 52) file = write_footer f
     \<and> stored (env_codecs E) file (footer_index_block_handle f) (map index_entry bs)
     \<and> blocks_stored (env_codecs E) file bs
     \<and> list_all2 (posts (env_roaring E) (footer_version f)) (concat (map fst bs)) gs
     \<and> sorted_keys ord gs \<and> (\<forall>g \<in> set gs. list_all in_i64 (snd g))
     \<and> null_stored E file (footer_null_bitmap_handle f) nl
     \<and> bloom_stored E file (footer_bloom_filter_handle f) (fst ` set gs)
     \<and> meta_first_key m = (if gs = [] then None else Some (fst (hd gs)))
     \<and> meta_last_key m = (if gs = [] then None else Some (fst (last gs)))
     \<and> (meta_has_nulls m \<longleftrightarrow> nl \<noteq> {})"

lemma spread_ends:
  assumes "\<forall>g \<in> set gs. snd g \<noteq> []"
  shows "spread gs = [] \<longleftrightarrow> gs = []" "gs \<noteq> [] \<Longrightarrow> fst (hd (spread gs)) = fst (hd gs)"
    "gs \<noteq> [] \<Longrightarrow> fst (last (spread gs)) = fst (last gs)"
proof -
  show "spread gs = [] \<longleftrightarrow> gs = []" using assms spread_Nil by auto
  show "fst (hd (spread gs)) = fst (hd gs)" if "gs \<noteq> []"
    using that assms by (cases gs) (auto simp: hd_append hd_map)
  show "fst (last (spread gs)) = fst (last gs)" if "gs \<noteq> []"
    using that assms by (cases gs rule: rev_cases) (auto simp: last_map)
qed

lemma length_concat_bound: "\<forall>x \<in> set xs. length (f x) \<le> n \<Longrightarrow> length (concat (map f xs)) \<le> length xs * n"
  by (induction xs) auto

lemma stored_entry_count: "stored K file h es \<Longrightarrow> int (length es) \<le> i32_max"
  using count_le_bytes [of es] by (auto simp: stored_def reads_def)

lemma blocks_entry_count:
  assumes "blocks_stored K file bs" "stored K file' h (map index_entry bs)"
  shows "int (length (concat (map fst bs))) \<le> u64_max"
proof -
  have "\<forall>b \<in> set bs. length (fst b) \<le> nat i32_max"
    using assms(1) stored_entry_count by (fastforce simp: blocks_stored_def)
  from length_concat_bound [OF this]
  have "length (concat (map fst bs)) \<le> length bs * nat i32_max" .
  moreover have "length bs \<le> nat i32_max" using stored_entry_count [OF assms(2)] by simp
  then have "length bs * nat i32_max \<le> nat i32_max * nat i32_max" by (rule mult_le_mono1)
  ultimately have "int (length (concat (map fst bs))) \<le> int (nat i32_max * nat i32_max)" by linarith
  also have "\<dots> \<le> u64_max" by (simp add: int_range_simps u64_max_def)
  finally show ?thesis .
qed

lemma iw_finish_Inr:
  assumes "iw_finish E w = Inr (file, m, n)"
  shows "\<exists>w1 s1 nh w2 bh s3 ih s4 s5. iw_flush_row_ids E w = Inr w1 \<and> sst_flush E (iw_sst_writer w1) = Inr s1
    \<and> iw_write_null_bitmap E (w1\<lparr>iw_sst_writer := s1\<rparr>) = Inr (nh, w2)
    \<and> sst_write_bloom_filter E (iw_sst_writer w2) BLOOM_FILTER_FPP = Inr (bh, s3)
    \<and> sst_write_index_block E s3 = Inr (ih, s4)
    \<and> sst_write_bytes E s4 (write_footer ((footer_new bh ih nh)\<lparr>footer_version := iw_file_version w2\<rparr>)) = Inr s5
    \<and> file = sst_out s5 \<and> m = \<lparr>meta_first_key = iw_first_key w2, meta_last_key = iw_last_key w2,
                         meta_has_nulls = (iw_null_bitmap w2 \<noteq> None)\<rparr> \<and> n = iw_row_count w2"
  using assms unfolding iw_finish_def sst_write_raw_def sst_close_def Let_def
  by (simp only: and_then_Inr_iff split_beta prod.inject sum.inject) fastforce

lemma write_null_bitmap_grows:
  assumes "env_ok E" "iw_write_null_bitmap E w = Inr (nh, w')"
  shows "length (sst_out (iw_sst_writer w)) \<le> length (sst_out (iw_sst_writer w'))"
  using assms(2) write_bytes_appends(1) [OF assms(1), of "iw_sst_writer w"]
  by (fastforce simp: iw_write_null_bitmap_def Let_def result_simps sst_write_raw_def split: option.splits)

lemma write_bloom_grows:
  assumes "env_ok E" "sst_write_bloom_filter E s fpp = Inr (bh, s')"
  shows "length (sst_out s) \<le> length (sst_out s')"
  using assms(2) write_bytes_appends(1) [OF assms(1), of "s\<lparr>sst_bloom_hashes := None\<rparr>"]
  by (fastforce simp: sst_write_bloom_filter_def Let_def result_simps split: option.splits if_splits)

lemma write_index_block_grows:
  assumes "env_ok E" "sst_write_index_block E s = Inr (ih, s')"
  shows "length (sst_out s) \<le> length (sst_out s')"
proof -
  obtain d d' s1 where "sst_write_bytes E (s\<lparr>sst_index_block_writer :=
      snd (bw_finish (sst_index_block_writer s))\<rparr>) d = Inr s1" "sst_write_bytes E s1 d' = Inr s'"
    using assms(2) by (auto simp: sst_write_index_block_def Let_def result_simps split_beta)
  from this [THEN write_bytes_appends(1) [OF assms(1)]] show ?thesis by simp
qed

lemma finish_grows:
  assumes "env_ok E" "iw_finish E w = Inr (file, m, n)"
  shows "length (sst_out (iw_sst_writer w)) \<le> length file"
proof -
  obtain w1 s1 nh w2 bh s3 ih s4 s5 where "iw_flush_row_ids E w = Inr w1" "sst_flush E (iw_sst_writer w1) = Inr s1"
    "iw_write_null_bitmap E (w1\<lparr>iw_sst_writer := s1\<rparr>) = Inr (nh, w2)"
    "sst_write_bloom_filter E (iw_sst_writer w2) BLOOM_FILTER_FPP = Inr (bh, s3)"
    "sst_write_index_block E s3 = Inr (ih, s4)"
    "sst_write_bytes E s4 (write_footer ((footer_new bh ih nh)\<lparr>footer_version := iw_file_version w2\<rparr>)) = Inr s5"
    "file = sst_out s5"
    using iw_finish_Inr [OF assms(2)] by blast
  note this(1) [THEN flush_row_ids_grows [OF assms(1)]] this(2) [THEN flush_grows [OF assms(1)]]
    this(3) [THEN write_null_bitmap_grows [OF assms(1)]] this(4) [THEN write_bloom_grows [OF assms(1)]]
    this(5) [THEN write_index_block_grows [OF assms(1)]] this(6) [THEN write_bytes_appends(1) [OF assms(1)]] this(7)
  then show ?thesis by simp
qed

lemma group_rows:
  assumes "spread gs = keyed ins" "list_all in_i64 (map snd ins)"
  shows "\<forall>g \<in> set gs. list_all in_i64 (snd g)"
proof -
  have "(fst g, r) \<in> set (keyed ins)" if "g \<in> set gs" "r \<in> set (snd g)" for g r
    unfolding assms(1) [symmetric] using that by (force simp: spread_def)
  moreover have "in_i64 r" if "(k, r) \<in> set (keyed ins)" for k r
    using that assms(2) by (auto simp: keyed_def list_all_iff split: option.splits)
  ultimately show ?thesis unfolding list_all_iff by blast
qed

text \<open>The sections behind the data blocks.\<close>

lemma finish_sections:
  assumes E: "env_ok E" and i1: "sst_inv E (iw_sst_writer w1) bs []" and n1: "nulls_inv E w1 nl"
    and st3: "iw_write_null_bitmap E w1 = Inr (nh, w2)"
    and st4: "sst_write_bloom_filter E (iw_sst_writer w2) fpp = Inr (bh, s3)"
    and st5: "sst_write_index_block E s3 = Inr (ih, s4)"
    and st6: "sst_write_bytes E s4 foot = Inr s5" and sm5: "sst_small s5"
  shows "same_keys w1 w2 \<and> (\<exists>out. sst_out s5 = out @ foot)
    \<and> stored (env_codecs E) (sst_out s5) ih (map index_entry bs) \<and> blocks_stored (env_codecs E) (sst_out s5) bs
    \<and> null_stored E (sst_out s5) nh (set nl)
    \<and> bloom_stored E (sst_out s5) bh (fst ` set (concat (map fst bs)))"
proof -
  let ?K = "env_codecs E" and ?s = "iw_sst_writer w1" and ?es = "concat (map fst bs)"
  have sm4: "sst_small s4" using write_bytes_appends(1) [OF E st6] by (intro sst_small_prefix [OF sm5]) simp
  have sm3: "sst_small s3" by (rule sst_small_prefix [OF sm4 write_index_block_grows [OF E st5]])
  have sm2: "sst_small (iw_sst_writer w2)" by (rule sst_small_prefix [OF sm3 write_bloom_grows [OF E st4]])
  have at1: "at_end ?s" and ix1: "block_inv (sst_index_block_writer ?s) (map index_entry bs)"
    and bl1: "case sst_bloom_hashes ?s of None \<Rightarrow> True | Some hs \<Rightarrow> hs = map (\<lambda>e. hash_bytes (fst e)) ?es"
    and b1: "blocks_stored ?K (sst_out ?s) bs"
    using i1 by (auto simp: sst_inv_def at_end_def all_entries_def split: option.splits)
  obtain d2 where k2: "same_keys w1 w2" and at2: "at_end (iw_sst_writer w2)"
    and o2: "sst_out (iw_sst_writer w2) = sst_out ?s @ d2"
    and ix2: "sst_index_block_writer (iw_sst_writer w2) = sst_index_block_writer ?s"
    and bl2: "sst_bloom_hashes (iw_sst_writer w2) = sst_bloom_hashes ?s"
    and nu: "null_stored E (sst_out (iw_sst_writer w2)) nh (set nl)"
    using write_null_bitmap_stored [OF E st3 sm2 at1 n1] by auto
  obtain d3 where at3: "at_end s3" and o3: "sst_out s3 = sst_out (iw_sst_writer w2) @ d3"
    and ix3: "sst_index_block_writer s3 = sst_index_block_writer ?s"
    and bl3: "int (length ?es) \<le> u64_max \<longrightarrow> bloom_stored E (sst_out s3) bh (fst ` set ?es)"
    using write_bloom_stored [OF E st4 sm3 at2, of ?es] bl1 bl2 ix2 by auto
  obtain d4 where o4: "sst_out s4 = sst_out s3 @ d4"
    and ixs: "stored ?K (sst_out s4) ih (map index_entry bs)"
    using write_index_block_stored [OF E st5 sm4 at3] ix1 unfolding ix3 by blast
  have o5: "sst_out s5 = sst_out s4 @ foot" by (rule write_bytes_appends(1) [OF E st6])
  have "blocks_stored ?K (sst_out s5) bs"
    unfolding o5 o4 o3 o2 append_assoc by (rule blocks_stored_append [OF b1])
  moreover have "null_stored E (sst_out s5) nh (set nl)"
    unfolding o5 o4 o3 append_assoc by (rule null_stored_append [OF nu])
  moreover have "bloom_stored E (sst_out s5) bh (fst ` set ?es)"
    using bl3 blocks_entry_count [OF b1 ixs] bloom_stored_append unfolding o5 o4 append_assoc by metis
  moreover have "stored ?K (sst_out s5) ih (map index_entry bs)" unfolding o5 by (rule stored_append [OF ixs])
  ultimately show ?thesis using k2 o5 by blast
qed

lemma finish_image:
  assumes E: "env_ok E" and inv: "writer_inv E ord w ins gs" and fin: "iw_finish E w = Inr (file, m, n)"
    and small: "int (length file) \<le> i32_max" and rows: "list_all in_i64 (map snd ins)"
    and v: "iw_file_version w \<in> {1, 2}"
  shows "\<exists>gs' f bs. index_image E ord file m gs' (set (null_rows ins)) f bs \<and> spread gs' = keyed ins
    \<and> footer_version f = iw_file_version w"
proof -
  let ?gs = "gs @ open_group w"
  obtain w1 s1 nh w2 bh s3 ih s4 s5 where st1: "iw_flush_row_ids E w = Inr w1"
    and st2: "sst_flush E (iw_sst_writer w1) = Inr s1"
    and st3: "iw_write_null_bitmap E (w1\<lparr>iw_sst_writer := s1\<rparr>) = Inr (nh, w2)"
    and st4: "sst_write_bloom_filter E (iw_sst_writer w2) BLOOM_FILTER_FPP = Inr (bh, s3)"
    and st5: "sst_write_index_block E s3 = Inr (ih, s4)"
    and st6: "sst_write_bytes E s4 (write_footer ((footer_new bh ih nh)\<lparr>footer_version := iw_file_version w2\<rparr>))
        = Inr s5"
    and out5: "file = sst_out s5"
    and m: "m = \<lparr>meta_first_key = iw_first_key w2, meta_last_key = iw_last_key w2,
                 meta_has_nulls = (iw_null_bitmap w2 \<noteq> None)\<rparr>"
    using iw_finish_Inr [OF fin] by blast
  define f where "f = (footer_new bh ih nh)\<lparr>footer_version := iw_file_version w2\<rparr>"
  have sm5: "sst_small s5" using small out5 by (simp add: sst_small_def)
  have "length (sst_out s1) \<le> length (sst_out s5)"
    using write_null_bitmap_grows [OF E st3] write_bloom_grows [OF E st4] write_index_block_grows [OF E st5]
      write_bytes_appends(1) [OF E st6] by simp
  then have sm1: "sst_small s1" by (rule sst_small_prefix [OF sm5])
  have sm0: "sst_small (iw_sst_writer w1)" by (rule sst_small_prefix [OF sm1 flush_grows [OF E st2]])
  have e: "entries_inv E w1 ?gs" and k1: "same_keys w w1"
    using flush_row_ids_small [OF E _ st1 sm0] inv by (auto simp: writer_inv_def)
  obtain bs0 ps0 where i0: "sst_inv E (iw_sst_writer w1) bs0 ps0"
    and p0: "list_all2 (posts (env_roaring E) (iw_file_version w1)) (all_entries bs0 ps0) ?gs"
    using e by (auto simp: entries_inv_def)
  obtain bs where i1: "sst_inv E s1 bs []" and all: "all_entries bs [] = all_entries bs0 ps0"
    using flush_small [OF E i0 st2 sm1] by blast
  have p: "list_all2 (posts (env_roaring E) (iw_file_version w)) (concat (map fst bs)) ?gs"
    using p0 k1 unfolding all [symmetric] by (simp add: all_entries_def same_keys_def)
  have n1: "nulls_inv E (w1\<lparr>iw_sst_writer := s1\<rparr>) (null_rows ins)"
    using inv k1 by (simp add: writer_inv_def nulls_inv_def same_keys_def)
  have "sst_inv E (iw_sst_writer (w1\<lparr>iw_sst_writer := s1\<rparr>)) bs []" using i1 by simp
  note sec = finish_sections [OF E this n1 st3 st4 st5 st6 sm5]
  obtain out where o5: "file = out @ write_footer f" using sec unfolding out5 f_def by blast
  have k2: "same_keys w1 w2" using sec by (simp add: same_keys_def)
  have ver: "iw_file_version w2 = iw_file_version w" using k1 k2 by (simp add: same_keys_def)
  have keys: "fst ` set (concat (map fst bs)) = fst ` set ?gs"
    using p by (induction rule: list_all2_induct) (auto simp: posts_def)
  have "footer_ok f"
    using sec v ver
    by (auto simp: footer_ok_def f_def footer_new_def stored_def null_stored_def bloom_stored_def split: option.splits)
  moreover have sp: "spread ?gs = keyed ins" and so: "sorted_keys ord ?gs" and ke: "keys_inv w (keyed ins)"
    and nn: "nulls_inv E w (null_rows ins)"
    using inv by (simp_all add: writer_inv_def)
  have ne: "\<forall>g \<in> set ?gs. snd g \<noteq> []" using entries_inv_nonempty [OF e] by blast
  have "meta_first_key m = (if ?gs = [] then None else Some (fst (hd ?gs)))"
    "meta_last_key m = (if ?gs = [] then None else Some (fst (last ?gs)))"
    using spread_ends [OF ne] ke k1 k2 unfolding sp m by (auto simp: keys_inv_def same_keys_def)
  moreover have "meta_has_nulls m \<longleftrightarrow> set (null_rows ins) \<noteq> {}"
    using nn k1 k2 by (auto simp: m nulls_inv_def same_keys_def split: option.splits)
  moreover have "\<forall>g \<in> set ?gs. list_all in_i64 (snd g)" by (rule group_rows [OF sp rows])
  ultimately have "index_image E ord file m ?gs (set (null_rows ins)) f bs"
    using small so p sec ver length_write_footer [of f] unfolding index_image_def keys [symmetric] out5 [symmetric]
    by (auto simp: f_def footer_new_def o5)
  moreover have "footer_version f = iw_file_version w" using ver by (simp add: f_def footer_new_def)
  ultimately show ?thesis using sp by blast
qed

lemma write_index_image:
  assumes E: "env_ok E" and c: "key_order c ord A"
    and wr: "write_index E block_size ct lvl bloom c version ins = Inr (file, m, n)"
    and small: "int (length file) \<le> i32_max" and rows: "list_all in_i64 (map snd ins)"
    and A: "fst ` set (keyed ins) \<subseteq> A"
    and sorted: "sorted_wrt (\<lambda>a b. ord (fst a) (fst b) \<noteq> Greater) (keyed ins)"
  shows "\<exists>gs f bs. index_image E ord file m gs (set (null_rows ins)) f bs \<and> spread gs = keyed ins
    \<and> footer_version f = version"
proof -
  obtain w w' where w: "with_file_version (with_comparator_and_options block_size ct lvl bloom c) version = Inr w"
    and all: "iw_write_all E w ins = Inr w'" and fin: "iw_finish E w' = Inr (file, m, n)"
    using wr by (auto simp: write_index_def result_simps)
  have i0: "writer_inv E ord w [] []" and cw: "key_order (iw_key_comparator w) ord A"
    and v: "iw_file_version w = version" "version \<in> {1, 2}"
    using writer_inv_start [OF w] c by auto
  have small': "sst_small (iw_sst_writer w')" using finish_grows [OF E fin] small by (simp add: sst_small_def)
  from write_all_small [OF E cw i0 all small' rows] A sorted
  obtain gs where "writer_inv E ord w' ins gs" "iw_file_version w' = version" using v by auto
  then show ?thesis using finish_image [OF E _ fin small rows] v by auto
qed

end
