(* ===== verification/Actions.thy ===== *)
theory Actions
  imports Prelude "HOL-Library.State_Monad"
begin

text \<open>
  Fallible computations over a mutable state: \<open>action\<close> is the library's state monad with results as
  values, so that a failing step keeps the state changes made before it. \<open>achieves I m Q\<close> is total
  correctness: from every state satisfying \<open>I\<close> the action succeeds with a value satisfying \<open>Q\<close> and
  leaves \<open>I\<close> true.
\<close>

type_synonym ('s, 'a) action = "('s, 'a result) state"

definition lift_result :: "'a result \<Rightarrow> ('s, 'a) action" where
  "lift_result r = State (\<lambda>s. (r, s))"

definition act_return :: "'a \<Rightarrow> ('s, 'a) action" where
  "act_return x = lift_result (Inr x)"

definition act_then :: "('s, 'a) action \<Rightarrow> ('a \<Rightarrow> ('s, 'b) action) \<Rightarrow> ('s, 'b) action" where
  "act_then m f = State_Monad.bind m (\<lambda>r. case r of Inl e \<Rightarrow> lift_result (Inl e) | Inr x \<Rightarrow> f x)"

lemma run_lift_result [simp]: "run_state (lift_result r) s = (r, s)"
  by (simp add: lift_result_def)

lemma run_act_return [simp]: "run_state (act_return x) s = (Inr x, s)"
  by (simp add: act_return_def)

lemma run_act_then:
  "run_state (act_then m f) s =
     (case run_state m s of (Inl e, s') \<Rightarrow> (Inl e, s') | (Inr x, s') \<Rightarrow> run_state (f x) s')"
  by (simp add: act_then_def split: prod.splits sum.splits)

section \<open>Total correctness\<close>

definition achieves :: "('s \<Rightarrow> bool) \<Rightarrow> ('s, 'a) action \<Rightarrow> ('a \<Rightarrow> bool) \<Rightarrow> bool" where
  "achieves I m Q \<longleftrightarrow> (\<forall>s. I s \<longrightarrow> (\<exists>x s'. run_state m s = (Inr x, s') \<and> I s' \<and> Q x))"

lemma achieves_return [intro]: "Q x \<Longrightarrow> achieves I (act_return x) Q"
  by (simp add: achieves_def)

lemma achieves_lift: "r = Inr x \<Longrightarrow> Q x \<Longrightarrow> achieves I (lift_result r) Q"
  by (simp add: achieves_def)

lemma achieves_then:
  assumes "achieves I m P" "\<And>x. P x \<Longrightarrow> achieves I (f x) Q"
  shows "achieves I (act_then m f) Q"
  unfolding achieves_def
proof (intro allI impI)
  fix s assume "I s"
  then obtain x s' where x: "run_state m s = (Inr x, s')" "I s'" "P x"
    using assms(1) unfolding achieves_def by blast
  then show "\<exists>y s''. run_state (act_then m f) s = (Inr y, s'') \<and> I s'' \<and> Q y"
    using assms(2) [OF x(3)] unfolding achieves_def by (simp add: run_act_then)
qed

lemma achieves_lift_then [simp]: "act_then (lift_result (Inr x)) f = f x"
  by (rule state_ext) (simp add: run_act_then)

lemma act_return_then [simp]: "act_then (act_return x) f = f x"
  by (simp add: act_return_def)

lemma achieves_weaken: "achieves I m P \<Longrightarrow> (\<And>x. P x \<Longrightarrow> Q x) \<Longrightarrow> achieves I m Q"
  unfolding achieves_def by blast

lemma achievesD:
  "achieves I m Q \<Longrightarrow> I s \<Longrightarrow> \<exists>x s'. run_state m s = (Inr x, s') \<and> I s' \<and> Q x"
  unfolding achieves_def by blast

end
