(* ===== verification/Data_Block_Cache.thy ===== *)
theory Data_Block_Cache
  imports Sst_Block_Laws Actions
begin

text \<open>
  \<^verbatim>\<open>crates/paimon/src/btree/data_block_cache.rs\<close>: the cache of decoded data blocks shared by the index
  readers. The \<^verbatim>\<open>lru\<close> crate is the parameter \<open>L\<close> with its documented laws \<open>lru_ok\<close>; the capacities of
  the vectors of a block, which depend on the allocator, are parameters too. The mutex makes \<^verbatim>\<open>get\<close> and
  \<^verbatim>\<open>put\<close> atomic, so each is one step on the cache state.
\<close>

record cache_key =
  ck_file :: string
  ck_offset :: int
  ck_size :: int

record cache_entry =
  ce_block :: block_reader
  ce_retained_bytes :: nat

record 'c lru =
  lru_unbounded :: 'c
  lru_iter :: "'c \<Rightarrow> (cache_key \<times> cache_entry) list"
  lru_get :: "'c \<Rightarrow> cache_key \<Rightarrow> cache_entry option \<times> 'c"
  lru_put :: "'c \<Rightarrow> cache_key \<Rightarrow> cache_entry \<Rightarrow> 'c"
  lru_pop_lru :: "'c \<Rightarrow> (cache_key \<times> cache_entry) option \<times> 'c"
  data_capacity :: "block_reader \<Rightarrow> nat"
  offsets_capacity :: "block_reader \<Rightarrow> nat"

text \<open>\<^verbatim>\<open>iter\<close> lists the entries, the most recently used first.\<close>

definition without :: "cache_key \<Rightarrow> (cache_key \<times> cache_entry) list \<Rightarrow> (cache_key \<times> cache_entry) list" where
  "without k es = filter (\<lambda>e. fst e \<noteq> k) es"

definition lru_ok :: "'c lru \<Rightarrow> bool" where
  "lru_ok L \<longleftrightarrow> lru_iter L (lru_unbounded L) = []
     \<and> (\<forall>c k. fst (lru_get L c k) = map_of (lru_iter L c) k)
     \<and> (\<forall>c k. lru_iter L (snd (lru_get L c k)) =
          (case map_of (lru_iter L c) k of None \<Rightarrow> lru_iter L c | Some v \<Rightarrow> (k, v) # without k (lru_iter L c)))
     \<and> (\<forall>c k v. lru_iter L (lru_put L c k v) = (k, v) # without k (lru_iter L c))
     \<and> (\<forall>c. fst (lru_pop_lru L c) = (if lru_iter L c = [] then None else Some (last (lru_iter L c))))
     \<and> (\<forall>c. lru_iter L (snd (lru_pop_lru L c)) = butlast (lru_iter L c))"

text \<open>An instance: the entries as a list.\<close>

definition list_lru :: "(cache_key \<times> cache_entry) list lru" where
  "list_lru = \<lparr>lru_unbounded = [], lru_iter = (\<lambda>c. c),
     lru_get = (\<lambda>c k. case map_of c k of None \<Rightarrow> (None, c) | Some v \<Rightarrow> (Some v, (k, v) # without k c)),
     lru_put = (\<lambda>c k v. (k, v) # without k c),
     lru_pop_lru = (\<lambda>c. if c = [] then (None, []) else (Some (last c), butlast c)),
     data_capacity = (\<lambda>br. length (br_data br)), offsets_capacity = br_record_count\<rparr>"

lemma list_lru_ok: "lru_ok list_lru"
  by (simp add: lru_ok_def list_lru_def split: option.splits)

lemma lru_okD:
  assumes "lru_ok L"
  shows "lru_iter L (lru_unbounded L) = []"
    and "fst (lru_get L c k) = map_of (lru_iter L c) k"
    and "lru_iter L (snd (lru_get L c k)) =
      (case map_of (lru_iter L c) k of None \<Rightarrow> lru_iter L c | Some v \<Rightarrow> (k, v) # without k (lru_iter L c))"
    and "lru_iter L (lru_put L c k v) = (k, v) # without k (lru_iter L c)"
    and "fst (lru_pop_lru L c) = (if lru_iter L c = [] then None else Some (last (lru_iter L c)))"
    and "lru_iter L (snd (lru_pop_lru L c)) = butlast (lru_iter L c)"
  using assms unfolding lru_ok_def by (simp_all only:)

section \<open>Operations\<close>

abbreviation (input) usize_max :: nat where "usize_max \<equiv> 18446744073709551615"

definition saturating_add :: "nat \<Rightarrow> nat \<Rightarrow> nat" where "saturating_add a b = min (a + b) usize_max"
definition saturating_mul :: "nat \<Rightarrow> nat \<Rightarrow> nat" where "saturating_mul a b = min (a * b) usize_max"

definition block_retained_bytes :: "'c lru \<Rightarrow> block_reader \<Rightarrow> nat" where
  "block_retained_bytes L br =
     (let seek_bytes = (case br_seek_info br of
            SeekAligned _ \<Rightarrow> 0
          | SeekUnaligned offsets \<Rightarrow> saturating_mul (offsets_capacity L br) 4)
      in saturating_add (data_capacity L br) seek_bytes)"

record 'c block_cache =
  bc_max_bytes :: nat
  bc_entries :: 'c
  bc_retained_bytes :: nat

definition cache_new :: "'c lru \<Rightarrow> nat \<Rightarrow> 'c block_cache" where
  "cache_new L max_bytes =
     \<lparr>bc_max_bytes = max_bytes, bc_entries = lru_unbounded L, bc_retained_bytes = 0\<rparr>"

definition cache_get :: "'c lru \<Rightarrow> cache_key \<Rightarrow> 'c block_cache \<Rightarrow> block_reader option \<times> 'c block_cache" where
  "cache_get L key c =
     (if bc_max_bytes c = 0 then (None, c)
      else
        let (entry, entries) = lru_get L (bc_entries c) key in
        (map_option ce_block entry, c\<lparr>bc_entries := entries\<rparr>))"

text \<open>
  The eviction loop of \<^verbatim>\<open>put\<close>. It ends because every round drops an entry; the fuel is the number of
  entries, after which \<^verbatim>\<open>pop_lru\<close> gives nothing and the loop breaks.
\<close>

fun evict :: "'c lru \<Rightarrow> nat \<Rightarrow> 'c block_cache \<Rightarrow> 'c block_cache" where
  "evict L fuel c =
     (if bc_max_bytes c < bc_retained_bytes c then
        case lru_pop_lru L (bc_entries c) of
          (None, entries) \<Rightarrow> c\<lparr>bc_entries := entries\<rparr>
        | (Some (_, entry), entries) \<Rightarrow>
            (case fuel of
               0 \<Rightarrow> c\<lparr>bc_entries := entries\<rparr>
             | Suc fuel \<Rightarrow> evict L fuel (c\<lparr>bc_entries := entries,
                   bc_retained_bytes := bc_retained_bytes c - ce_retained_bytes entry\<rparr>))
      else c)"

declare evict.simps [simp del]

definition cache_put :: "'c lru \<Rightarrow> cache_key \<Rightarrow> block_reader \<Rightarrow> 'c block_cache \<Rightarrow> block_reader \<times> 'c block_cache" where
  "cache_put L key block c =
     (if bc_max_bytes c = 0 then (block, c)
      else
        let retained_bytes = block_retained_bytes L block in
        if bc_max_bytes c < retained_bytes then (block, c)
        else
          case lru_get L (bc_entries c) key of
            (Some entry, entries) \<Rightarrow> (ce_block entry, c\<lparr>bc_entries := entries\<rparr>)
          | (None, entries) \<Rightarrow>
              let c = c\<lparr>bc_retained_bytes := saturating_add (bc_retained_bytes c) retained_bytes,
                        bc_entries := lru_put L entries key
                          \<lparr>ce_block = block, ce_retained_bytes = retained_bytes\<rparr>\<rparr> in
              (block, evict L (length (lru_iter L (bc_entries c))) c))"

section \<open>Laws\<close>

definition held :: "(cache_key \<times> cache_entry) list \<Rightarrow> nat" where
  "held es = sum_list (map (\<lambda>e. ce_retained_bytes (snd e)) es)"

lemma held_simps [simp]: "held [] = 0" "held (e # es) = ce_retained_bytes (snd e) + held es"
  "held (xs @ ys) = held xs + held ys"
  by (simp_all add: held_def)

text \<open>
  The entries have distinct keys, the counter is the sum of what they retain, and it is within the
  limit. The limit is at most half of \<^verbatim>\<open>usize::MAX\<close>, so that the counter never saturates.
\<close>

definition cache_inv :: "'c lru \<Rightarrow> 'c block_cache \<Rightarrow> bool" where
  "cache_inv L c \<longleftrightarrow> distinct (map fst (lru_iter L (bc_entries c)))
     \<and> bc_retained_bytes c = held (lru_iter L (bc_entries c))
     \<and> bc_retained_bytes c \<le> bc_max_bytes c \<and> 2 * bc_max_bytes c \<le> usize_max"

definition coherent :: "'c lru \<Rightarrow> (cache_key \<Rightarrow> block_reader \<Rightarrow> bool) \<Rightarrow> 'c block_cache \<Rightarrow> bool" where
  "coherent L good c \<longleftrightarrow> (\<forall>(k, e) \<in> set (lru_iter L (bc_entries c)). good k (ce_block e))"

text \<open>Eviction keeps the longest prefix, most recently used first, that fits.\<close>

lemma evict_prefix:
  assumes L: "lru_ok L"
  shows "length (lru_iter L (bc_entries c)) \<le> fuel \<Longrightarrow> bc_retained_bytes c = held (lru_iter L (bc_entries c)) \<Longrightarrow>
    \<exists>n \<le> length (lru_iter L (bc_entries c)).
      lru_iter L (bc_entries (evict L fuel c)) = take n (lru_iter L (bc_entries c))
      \<and> bc_max_bytes (evict L fuel c) = bc_max_bytes c
      \<and> bc_retained_bytes (evict L fuel c) = held (take n (lru_iter L (bc_entries c)))
      \<and> held (take n (lru_iter L (bc_entries c))) \<le> bc_max_bytes c
      \<and> (\<forall>m \<le> length (lru_iter L (bc_entries c)).
           held (take m (lru_iter L (bc_entries c))) \<le> bc_max_bytes c \<longrightarrow> m \<le> n)"
proof (induction fuel arbitrary: c)
  case 0
  then show ?case using lru_okD(5) [OF L, of "bc_entries c"] by (simp add: evict.simps [of L 0])
next
  case (Suc fuel)
  define xs where "xs = lru_iter L (bc_entries c)"
  show ?case
  proof (cases "bc_max_bytes c < bc_retained_bytes c")
    case False
    then show ?thesis using Suc.prems(2) by (auto simp: evict.simps [of L "Suc fuel"] intro!: exI [of _ "length (lru_iter L (bc_entries c))"])
  next
    case True
    then have ne: "xs \<noteq> []" using Suc.prems(2) by (auto simp: xs_def)
    obtain ys y where y: "xs = ys @ [y]" using ne by (cases xs rule: rev_cases) auto
    obtain k e where ke: "y = (k, e)" by (cases y)
    obtain es where pop: "lru_pop_lru L (bc_entries c) = (Some (k, e), es)"
      using lru_okD(5) [OF L, of "bc_entries c"] y ke
      by (cases "lru_pop_lru L (bc_entries c)") (auto simp: xs_def [symmetric])
    have es: "lru_iter L es = ys" using lru_okD(6) [OF L, of "bc_entries c"] pop y by (simp add: xs_def [symmetric])
    let ?c = "c\<lparr>bc_entries := es, bc_retained_bytes := bc_retained_bytes c - ce_retained_bytes e\<rparr>"
    have ev: "evict L (Suc fuel) c = evict L fuel ?c"
      using True pop by (simp add: evict.simps [of L "Suc fuel"])
    have ret: "bc_retained_bytes c = held ys + ce_retained_bytes e"
      using Suc.prems(2) y ke by (simp add: xs_def [symmetric])
    have "length (lru_iter L (bc_entries ?c)) \<le> fuel" "bc_retained_bytes ?c = held (lru_iter L (bc_entries ?c))"
      using Suc.prems(1) es y ret by (simp_all add: xs_def [symmetric])
    from Suc.IH [OF this] obtain n where n: "n \<le> length ys"
      "lru_iter L (bc_entries (evict L fuel ?c)) = take n ys"
      "bc_max_bytes (evict L fuel ?c) = bc_max_bytes c" "bc_retained_bytes (evict L fuel ?c) = held (take n ys)"
      "held (take n ys) \<le> bc_max_bytes c"
      "\<forall>m \<le> length ys. held (take m ys) \<le> bc_max_bytes c \<longrightarrow> m \<le> n"
      by (auto simp: es)
    have "m \<le> n" if "m \<le> length xs" "held (take m xs) \<le> bc_max_bytes c" for m
      using that n(6) True ret y ke by (cases "m = length xs") auto
    then show ?thesis using n by (auto simp: ev xs_def [symmetric] y intro!: exI [of _ n])
  qed
qed

lemma without_absent: "map_of es k = None \<Longrightarrow> without k es = es"
  by (induction es) (auto simp: without_def split: if_splits)

lemma set_without: "set (without k es) \<subseteq> set es"
  by (auto simp: without_def)

lemma distinct_without: "distinct (map fst es) \<Longrightarrow> distinct (map fst ((k, v) # without k es))"
  by (induction es) (auto simp: without_def)

lemma held_without: "distinct (map fst es) \<Longrightarrow> map_of es k = Some v \<Longrightarrow> held ((k, v) # without k es) = held es"
proof (induction es)
  case (Cons e es)
  show ?case
  proof (cases "fst e = k")
    case True
    then have "map_of es k = None" using Cons.prems(1) by (auto simp: map_of_eq_None_iff)
    then have "without k (e # es) = es" using True without_absent by (simp add: without_def)
    then show ?thesis using True Cons.prems(2) by (cases e) simp
  next
    case False
    then show ?thesis using Cons by (cases e) (simp add: without_def)
  qed
qed simp

lemma lru_get_inv:
  assumes L: "lru_ok L" and inv: "cache_inv L c"
  shows "cache_inv L (c\<lparr>bc_entries := snd (lru_get L (bc_entries c) k)\<rparr>)"
    and "set (lru_iter L (snd (lru_get L (bc_entries c) k))) \<subseteq> set (lru_iter L (bc_entries c))"
proof -
  let ?es = "lru_iter L (bc_entries c)"
  have d: "distinct (map fst ?es)" using inv by (simp add: cache_inv_def)
  show "cache_inv L (c\<lparr>bc_entries := snd (lru_get L (bc_entries c) k)\<rparr>)"
    using inv held_without [OF d, of k] distinct_without [OF d, of k]
    by (auto simp: cache_inv_def lru_okD(3) [OF L] split: option.splits)
  show "set (lru_iter L (snd (lru_get L (bc_entries c) k))) \<subseteq> set ?es"
    using set_without [of k ?es] by (auto simp: lru_okD(3) [OF L] split: option.splits dest: map_of_SomeD)
qed

lemma cache_get_laws:
  assumes L: "lru_ok L" and inv: "cache_inv L c" and good: "coherent L good c"
    and get: "cache_get L k c = (hit, c')"
  shows "cache_inv L c' \<and> coherent L good c' \<and> bc_max_bytes c' = bc_max_bytes c
    \<and> (\<forall>b. hit = Some b \<longrightarrow> good k b)"
proof (cases "bc_max_bytes c = 0")
  case True
  then show ?thesis using get inv good by (auto simp: cache_get_def)
next
  case False
  then have c': "c' = c\<lparr>bc_entries := snd (lru_get L (bc_entries c) k)\<rparr>"
    and hit: "hit = map_option ce_block (map_of (lru_iter L (bc_entries c)) k)"
    using get lru_okD(2) [OF L, of "bc_entries c" k] by (auto simp: cache_get_def split_beta)
  show ?thesis
    using lru_get_inv [OF L inv, of k] good
    by (auto simp: c' hit coherent_def dest!: map_of_SomeD)
qed

lemma cache_put_laws:
  assumes L: "lru_ok L" and inv: "cache_inv L c" and good: "coherent L good c"
    and b: "good k block" and put: "cache_put L k block c = (block', c')"
  shows "cache_inv L c' \<and> coherent L good c' \<and> bc_max_bytes c' = bc_max_bytes c \<and> good k block'
    \<and> (bc_max_bytes c \<noteq> 0 \<and> block_retained_bytes L block \<le> bc_max_bytes c \<longrightarrow>
         map_option ce_block (map_of (lru_iter L (bc_entries c')) k) = Some block')"
proof (cases "bc_max_bytes c = 0 \<or> bc_max_bytes c < block_retained_bytes L block")
  case True
  then have "block' = block" "c' = c" using put by (auto simp: cache_put_def Let_def split: if_splits)
  then show ?thesis using True inv good b by auto
next
  case False
  let ?es = "lru_iter L (bc_entries c)" and ?e = "snd (lru_get L (bc_entries c) k)"
    and ?n = "block_retained_bytes L block"
  note get = lru_get_inv [OF L inv, of k]
  show ?thesis
  proof (cases "map_of ?es k")
    case (Some v)
    then have r: "block' = ce_block v" "c' = c\<lparr>bc_entries := ?e\<rparr>"
      using put False lru_okD(2) [OF L, of "bc_entries c" k]
      by (auto simp: cache_put_def Let_def split: prod.splits)
    have "lru_iter L ?e = (k, v) # without k ?es" using Some by (simp add: lru_okD(3) [OF L])
    then show ?thesis
      using get good Some by (auto simp: r coherent_def dest: map_of_SomeD)
  next
    case None
    let ?v = "\<lparr>ce_block = block, ce_retained_bytes = ?n\<rparr>"
    let ?c = "c\<lparr>bc_retained_bytes := saturating_add (bc_retained_bytes c) ?n, bc_entries := lru_put L ?e k ?v\<rparr>"
    have e: "lru_iter L ?e = ?es" using None by (simp add: lru_okD(3) [OF L])
    have es: "lru_iter L (bc_entries ?c) = (k, ?v) # ?es"
      using without_absent [OF None] by (simp add: lru_okD(4) [OF L] e)
    have r: "block' = block" "c' = evict L (length (lru_iter L (bc_entries ?c))) ?c"
      using put False None lru_okD(2) [OF L, of "bc_entries c" k]
      by (auto simp: cache_put_def Let_def split: prod.splits)
    have ret: "bc_retained_bytes ?c = held (lru_iter L (bc_entries ?c))"
      unfolding es using inv False by (simp add: cache_inv_def saturating_add_def)
    from evict_prefix [OF L le_refl ret, folded r(2), unfolded es] obtain n where n: "n \<le> Suc (length ?es)"
      "lru_iter L (bc_entries c') = take n ((k, ?v) # ?es)" "bc_max_bytes c' = bc_max_bytes c"
      "bc_retained_bytes c' = held (take n ((k, ?v) # ?es))" "held (take n ((k, ?v) # ?es)) \<le> bc_max_bytes c"
      "\<forall>m \<le> Suc (length ?es). held (take m ((k, ?v) # ?es)) \<le> bc_max_bytes c \<longrightarrow> m \<le> n"
      by auto
    have one: "1 \<le> n" using n(6) False by (auto dest: spec [of _ 1])
    have d: "distinct (map fst ((k, ?v) # ?es))"
      using inv None by (auto simp: cache_inv_def map_of_eq_None_iff)
    have "distinct (map fst (take n ((k, ?v) # ?es)))"
      using distinct_take [OF d, of n] by (simp only: take_map)
    then have "cache_inv L c'" using inv n(2-5) by (simp add: cache_inv_def)
    moreover have "coherent L good c'"
      using good b n(2) set_take_subset [of n "(k, ?v) # ?es"] by (fastforce simp: coherent_def)
    moreover have "map_of (lru_iter L (bc_entries c')) k = Some ?v"
      using one n(2) by (cases n) simp_all
    ultimately show ?thesis using b n(3) by (simp add: r(1))
  qed
qed

section \<open>Runs of the shared cache\<close>

text \<open>
  Any number of readers work on one cache; each of their lookups and stores is a step. \<open>src\<close> is the block
  that the bytes at a key decode to.
\<close>

inductive cache_step :: "'c lru \<Rightarrow> (cache_key \<Rightarrow> block_reader) \<Rightarrow> 'c block_cache \<Rightarrow> 'c block_cache \<Rightarrow> bool"
  for L src where
  step_get: "cache_get L k c = (hit, c') \<Longrightarrow> cache_step L src c c'"
| step_put: "cache_put L k (src k) c = (b, c') \<Longrightarrow> cache_step L src c c'"

inductive cache_runs :: "'c lru \<Rightarrow> (cache_key \<Rightarrow> block_reader) \<Rightarrow> 'c block_cache \<Rightarrow> 'c block_cache \<Rightarrow> bool"
  for L src c where
  runs_refl: "cache_runs L src c c"
| runs_step: "cache_runs L src c c1 \<Longrightarrow> cache_step L src c1 c2 \<Longrightarrow> cache_runs L src c c2"

inductive_cases cache_stepE: "cache_step L src c c'"

lemma cache_new_inv:
  assumes "lru_ok L" "2 * max_bytes \<le> usize_max"
  shows "cache_inv L (cache_new L max_bytes)" "coherent L good (cache_new L max_bytes)"
  using assms(2) unfolding cache_inv_def coherent_def cache_new_def
  by (simp_all add: lru_okD(1) [OF assms(1)])

lemma cache_runs_inv:
  assumes L: "lru_ok L" and c: "cache_inv L c" "coherent L (\<lambda>k b. b = src k) c" and "cache_runs L src c c'"
  shows "cache_inv L c' \<and> coherent L (\<lambda>k b. b = src k) c' \<and> bc_max_bytes c' = bc_max_bytes c"
  using assms(4)
proof (induction rule: cache_runs.induct)
  case (runs_step c1 c2)
  from runs_step(2) consider k hit where "cache_get L k c1 = (hit, c2)" | k b where "cache_put L k (src k) c1 = (b, c2)"
    by (blast elim: cache_stepE)
  then show ?case
  proof cases
    case 1
    then show ?thesis using cache_get_laws [OF L, of c1 "\<lambda>k b. b = src k" k hit c2] runs_step.IH by auto
  next
    case 2
    then show ?thesis using cache_put_laws [OF L, of c1 "\<lambda>k b. b = src k" k "src k" b c2] runs_step.IH by auto
  qed
qed (use c in simp)

text \<open>C4. The data block cache is transparent and bounded. After any interleaving of lookups and stores by the readers
  sharing it, the bytes it counts are exactly those its entries retain and are within the configured limit; a
  lookup that hits gives the block that the file has at that key, a store gives that block to its caller, and a
  block that fits the limit is found by the next lookup.\<close>

theorem block_cache_correct:
  assumes "lru_ok L" "2 * max_bytes \<le> usize_max" "cache_runs L src (cache_new L max_bytes) c"
  shows "bc_retained_bytes c = held (lru_iter L (bc_entries c)) \<and> held (lru_iter L (bc_entries c)) \<le> max_bytes
    \<and> fst (cache_get L k c) \<in> {None, Some (src k)}
    \<and> fst (cache_put L k (src k) c) = src k
    \<and> (max_bytes \<noteq> 0 \<and> block_retained_bytes L (src k) \<le> max_bytes \<longrightarrow>
         fst (cache_get L k (snd (cache_put L k (src k) c))) = Some (src k))"
proof -
  let ?good = "\<lambda>k b. b = src k"
  have inv: "cache_inv L c" "coherent L ?good c" "bc_max_bytes c = max_bytes"
    using cache_runs_inv [OF assms(1) cache_new_inv [OF assms(1,2)] assms(3)] by (simp_all add: cache_new_def)
  have get: "fst (cache_get L k c) \<in> {None, Some (src k)}"
    using cache_get_laws [OF assms(1) inv(1,2) prod.collapse [symmetric], of k] by (cases "fst (cache_get L k c)") auto
  obtain b c' where put: "cache_put L k (src k) c = (b, c')" by (cases "cache_put L k (src k) c")
  have p: "b = src k" "bc_max_bytes c' = max_bytes"
    "max_bytes \<noteq> 0 \<and> block_retained_bytes L (src k) \<le> max_bytes \<longrightarrow>
      map_option ce_block (map_of (lru_iter L (bc_entries c')) k) = Some b"
    using cache_put_laws [OF assms(1) inv(1,2) refl put] inv(3) by blast+
  have "fst (cache_get L k c') = Some (src k)"
    if "max_bytes \<noteq> 0" "block_retained_bytes L (src k) \<le> max_bytes"
    using p that lru_okD(2) [OF assms(1), of "bc_entries c'" k] by (simp add: cache_get_def split_beta)
  then show ?thesis using inv get p put by (auto simp: cache_inv_def)
qed

definition sample_block :: block_reader where
  "sample_block = \<lparr>br_data = [1, 7, 1, 9], br_record_count = 1, br_seek_info = SeekAligned 4\<rparr>"

theorem block_cache_correct_witness:
  "fst (cache_get list_lru \<lparr>ck_file = ''a'', ck_offset = 0, ck_size = 9\<rparr>
     (snd (cache_put list_lru \<lparr>ck_file = ''a'', ck_offset = 0, ck_size = 9\<rparr> sample_block
       (snd (cache_get list_lru \<lparr>ck_file = ''b'', ck_offset = 0, ck_size = 9\<rparr> (cache_new list_lru 64))))))
   = Some sample_block"
proof -
  let ?c = "snd (cache_get list_lru \<lparr>ck_file = ''b'', ck_offset = 0, ck_size = 9\<rparr> (cache_new list_lru 64))"
  have run: "cache_runs list_lru (\<lambda>_. sample_block) (cache_new list_lru 64) ?c"
    by (rule runs_step [OF runs_refl step_get [OF prod.collapse [symmetric]]])
  have "2 * (64 :: nat) \<le> usize_max" by simp
  from block_cache_correct [OF list_lru_ok this run, of "\<lparr>ck_file = ''a'', ck_offset = 0, ck_size = 9\<rparr>"]
  show ?thesis
    by (simp add: block_retained_bytes_def sample_block_def list_lru_def saturating_add_def)
qed

end
