(* ===== verification/Btree_Reader.thy ===== *)
theory Btree_Reader
  imports Btree_Writer Data_Block_Cache
begin

text \<open>
  \<^verbatim>\<open>crates/paimon/src/btree/reader.rs\<close>: \<open>index_reader\<close> (\<^verbatim>\<open>BTreeIndexReader\<close>) answers point, range, prefix, set
  and scan queries from an index file. What a reader never changes is the record \<open>index_reader\<close>; the null
  bitmap and Bloom filter it loads on first use and the shared block cache are the state \<open>reader_state\<close>
  of the queries, which are actions. \<^verbatim>\<open>file\<close> is the content behind the \<^verbatim>\<open>FileRead\<close>.
\<close>

record index_reader =
  ir_file :: bytes
  ir_index_block :: block_reader
  ir_null_bitmap_handle :: "block_handle option"
  ir_min_key :: "bytes option"
  ir_max_key :: "bytes option"
  ir_key_comparator :: key_cmp
  ir_bloom_filter :: "bloom_filter_handle option"
  ir_file_version :: int
  ir_data_block_cache_file :: string

record ('t, 'c) reader_state =
  rs_null_bitmap :: "'t option"
  rs_bloom :: "bloom_filter option"
  rs_cache :: "'c block_cache"

section \<open>Opening\<close>

definition read_range :: "('t, 'b) env \<Rightarrow> bytes \<Rightarrow> int \<Rightarrow> int \<Rightarrow> bytes result" where
  "read_range E content a b = storage_read (env_storage E) content a b"

definition read_block_at :: "('t, 'b) env \<Rightarrow> bytes \<Rightarrow> block_handle \<Rightarrow> block_reader result" where
  "read_block_at E content h =
     and_then (read_range E content (handle_offset h) (u64_add (handle_offset h) (full_block_size h))) (\<lambda>bytes.
       read_block_from_bytes (env_codecs E) bytes (handle_size h))"

definition open_with_data_block_cache :: "('t, 'b) env \<Rightarrow> bytes \<Rightarrow> int \<Rightarrow> index_meta \<Rightarrow> key_cmp \<Rightarrow> string
    \<Rightarrow> index_reader result" where
  "open_with_data_block_cache E content size_u64 m c cache_file =
     (if size_u64 < int BTREE_FOOTER_ENCODED_LENGTH then Inl (IoError ''File too small for BTree footer'')
      else
        and_then (read_range E content (size_u64 - int BTREE_FOOTER_ENCODED_LENGTH) size_u64) (\<lambda>footer_bytes.
          and_then (read_footer footer_bytes) (\<lambda>footer.
            and_then (read_block_at E content (footer_index_block_handle footer)) (\<lambda>index_block.
              Inr \<lparr>ir_file = content, ir_index_block = index_block,
                   ir_null_bitmap_handle = footer_null_bitmap_handle footer,
                   ir_min_key = meta_first_key m, ir_max_key = meta_last_key m,
                   ir_key_comparator = c, ir_bloom_filter = footer_bloom_filter_handle footer,
                   ir_file_version = footer_version footer, ir_data_block_cache_file = cache_file\<rparr>))))"

text \<open>The state of a reader that has just been opened on a cache; \<^verbatim>\<open>open\<close> makes a cache of zero bytes.\<close>

definition initial_state :: "'c block_cache \<Rightarrow> ('t, 'c) reader_state" where
  "initial_state cache = \<lparr>rs_null_bitmap = None, rs_bloom = None, rs_cache = cache\<rparr>"

definition reader_open :: "('t, 'b) env \<Rightarrow> 'c lru \<Rightarrow> bytes \<Rightarrow> int \<Rightarrow> index_meta \<Rightarrow> key_cmp
    \<Rightarrow> (index_reader \<times> ('t, 'c) reader_state) result" where
  "reader_open E L content size_u64 m c =
     and_then (open_with_data_block_cache E content size_u64 m c '''') (\<lambda>r.
       Inr (r, initial_state (cache_new L 0)))"

section \<open>On-demand loading\<close>

definition verify_null_bitmap_crc :: "('t, 'b) env \<Rightarrow> bytes \<Rightarrow> bytes \<Rightarrow> unit result" where
  "verify_null_bitmap_crc E bitmap_bytes crc_bytes =
     (if length crc_bytes < 4 then Inl (Panic ''index out of bounds'')
      else if crc32 (env_codecs E) bitmap_bytes \<noteq> from_le (take 4 crc_bytes)
      then Inl (IoError ''Null bitmap CRC mismatch'') else Inr ())"

definition read_null_bitmap :: "('t, 'b) env \<Rightarrow> bytes \<Rightarrow> block_handle \<Rightarrow> 't result" where
  "read_null_bitmap E content h =
     and_then (read_range E content (handle_offset h) (u64_add (u64_add (handle_offset h) (handle_size h)) 4)) (\<lambda>bytes.
       if length bytes < nat (handle_size h) then Inl (Panic ''range out of bounds'')
       else
         let bitmap_bytes = take (nat (handle_size h)) bytes; crc_bytes = drop (nat (handle_size h)) bytes in
         and_then (verify_null_bitmap_crc E bitmap_bytes crc_bytes) (\<lambda>_.
           treemap_deserialize_from (env_roaring E) bitmap_bytes))"

text \<open>\<^verbatim>\<open>OnceCell::get_or_try_init\<close>: a failed initialization is not kept.\<close>

definition null_bitmap :: "('t, 'b) env \<Rightarrow> index_reader \<Rightarrow> (('t, 'c) reader_state, 't) action" where
  "null_bitmap E r = State (\<lambda>s.
     case rs_null_bitmap s of
       Some bm \<Rightarrow> (Inr bm, s)
     | None \<Rightarrow>
         (case (case ir_null_bitmap_handle r of
                  Some h \<Rightarrow> read_null_bitmap E (ir_file r) h
                | None \<Rightarrow> Inr (treemap_new (env_roaring E))) of
            Inl e \<Rightarrow> (Inl e, s)
          | Inr bm \<Rightarrow> (Inr bm, s\<lparr>rs_null_bitmap := Some bm\<rparr>)))"

definition load_bloom :: "('t, 'b) env \<Rightarrow> index_reader \<Rightarrow> bloom_filter_handle \<Rightarrow> bloom_filter result" where
  "load_bloom E r h =
     (if bfh_size h = 0 \<or> bfh_expected_entries h = 0
      then Inl (IoError ''BTree Bloom filter handle must have positive size and expected entries'')
      else
        and_then (ok_or (IoError ''BTree Bloom filter range overflows'') (checked_add_u64 (bfh_offset h) (bfh_size h))) (\<lambda>end_offset.
          and_then (read_range E (ir_file r) (bfh_offset h) end_offset) (\<lambda>bits.
            if int (length bits) \<noteq> bfh_size h then Inl (IoError ''BTree Bloom filter read short'')
            else bf_from_bytes (env_floats E) (bfh_expected_entries h) bits)))"

definition bloom_might_contain :: "('t, 'b) env \<Rightarrow> index_reader \<Rightarrow> bytes \<Rightarrow> (('t, 'c) reader_state, bool) action" where
  "bloom_might_contain E r key =
     (case ir_bloom_filter r of
        None \<Rightarrow> act_return True
      | Some h \<Rightarrow>
          act_then
            (State (\<lambda>s. case rs_bloom s of
                Some f \<Rightarrow> (Inr f, s)
              | None \<Rightarrow> (case load_bloom E r h of
                    Inl e \<Rightarrow> (Inl e, s)
                  | Inr f \<Rightarrow> (Inr f, s\<lparr>rs_bloom := Some f\<rparr>))))
            (\<lambda>f. act_return (bf_test_hash f (hash_bytes key))))"

definition read_data_block :: "('t, 'b) env \<Rightarrow> 'c lru \<Rightarrow> index_reader \<Rightarrow> block_handle
    \<Rightarrow> (('t, 'c) reader_state, block_reader) action" where
  "read_data_block E L r h =
     (let key = \<lparr>ck_file = ir_data_block_cache_file r, ck_offset = handle_offset h, ck_size = handle_size h\<rparr> in
      act_then (State (\<lambda>s. let (hit, c) = cache_get L key (rs_cache s) in (Inr hit, s\<lparr>rs_cache := c\<rparr>))) (\<lambda>hit.
        case hit of
          Some block \<Rightarrow> act_return block
        | None \<Rightarrow>
            act_then (lift_result (read_block_at E (ir_file r) h)) (\<lambda>block.
              State (\<lambda>s. let (block, c) = cache_put L key block (rs_cache s) in (Inr block, s\<lparr>rs_cache := c\<rparr>)))))"

section \<open>Range queries\<close>

definition reader_compare :: "index_reader \<Rightarrow> key_cmp" where
  "reader_compare r left right = key_comparison_io_error (ir_key_comparator r left right)"

text \<open>An entry ends behind where it starts, so that scanning a block ends.\<close>

lemma read_entry_at_advances:
  assumes "read_entry_at br off = Inr (k, v, next_off)"
  shows "off < next_off \<and> next_off \<le> length (br_data br)"
proof -
  obtain kl cn vl cn' where "decode_var_int_from_slice (br_data br) off = Inr (kl, cn)"
    and v: "slice_len (br_data br) (off + cn + nat kl + cn') vl = Inr v" "next_off = off + cn + nat kl + cn' + nat vl"
    using assms by (auto simp: read_entry_at_def result_simps Let_def)
  then have "0 < cn" using decode_slice_loop_consumes unfolding decode_var_int_from_slice_def by fastforce
  moreover have "next_off \<le> length (br_data br)" using v by (auto simp: slice_len_def split: if_splits)
  ultimately show ?thesis using v(2) by simp
qed

function scan_block :: "('t, 'b) env \<Rightarrow> index_reader \<Rightarrow> block_reader \<Rightarrow> bytes \<Rightarrow> bytes \<Rightarrow> bool \<Rightarrow> bool \<Rightarrow> nat \<Rightarrow> 't
    \<Rightarrow> (bool \<times> 't) result" where
  "scan_block E r block from_key to_key from_inclusive to_inclusive offset rows =
     (if offset < length (br_data block) then
        case read_entry_at block offset of
          Inl e \<Rightarrow> Inl e
        | Inr (key, val, next_offset) \<Rightarrow>
            and_then (if from_inclusive then Inr False
                      else and_then (reader_compare r key from_key) (\<lambda>d. Inr (d = Equal))) (\<lambda>skip.
              if skip then scan_block E r block from_key to_key from_inclusive to_inclusive next_offset rows
              else
                and_then (reader_compare r key to_key) (\<lambda>diff.
                  if diff = Greater \<or> \<not> to_inclusive \<and> diff = Equal then Inr (True, rows)
                  else
                    and_then (add_to (env_roaring E) val (ir_file_version r) rows) (\<lambda>rows.
                      scan_block E r block from_key to_key from_inclusive to_inclusive next_offset rows)))
      else Inr (False, rows))"
  by pat_completeness auto
termination
  by (relation "measure (\<lambda>(E, r, block, from_key, to_key, fi, ti, offset, rows). length (br_data block) - offset)")
     (auto dest: read_entry_at_advances)

declare scan_block.simps [simp del]

lemma iter_next_advances:
  "iter_next br it = Inr (Some e, it') \<Longrightarrow> bi_index it < br_record_count br \<and> bi_index it' = Suc (bi_index it)"
  by (auto simp: iter_next_def iter_has_next_def result_simps split: if_splits)

text \<open>The data blocks behind the first.\<close>

function range_blocks :: "('t, 'b) env \<Rightarrow> 'c lru \<Rightarrow> index_reader \<Rightarrow> bytes \<Rightarrow> bytes \<Rightarrow> bool \<Rightarrow> bool \<Rightarrow> block_iter \<Rightarrow> 't
    \<Rightarrow> (('t, 'c) reader_state, 't) action" where
  "range_blocks E L r from_key to_key from_inclusive to_inclusive index_iter rows =
     (case iter_next (ir_index_block r) index_iter of
        Inl e \<Rightarrow> lift_result (Inl e)
      | Inr (None, _) \<Rightarrow> act_return rows
      | Inr (Some (_, handle_bytes), index_iter) \<Rightarrow>
          act_then (lift_result (handle_decode handle_bytes)) (\<lambda>h.
            act_then (read_data_block E L r h) (\<lambda>block.
              act_then (lift_result (scan_block E r block from_key to_key from_inclusive to_inclusive 0 rows))
                (\<lambda>(finished, rows).
                  if finished then act_return rows
                  else range_blocks E L r from_key to_key from_inclusive to_inclusive index_iter rows))))"
  by pat_completeness auto
termination
  by (relation "measure (\<lambda>(E, L, r, from_key, to_key, fi, ti, it, rows). br_record_count (ir_index_block r) - bi_index it)")
     (auto dest: iter_next_advances)

declare range_blocks.simps [simp del]

definition range_query :: "('t, 'b) env \<Rightarrow> 'c lru \<Rightarrow> index_reader \<Rightarrow> bytes \<Rightarrow> bytes \<Rightarrow> bool \<Rightarrow> bool
    \<Rightarrow> (('t, 'c) reader_state, 't) action" where
  "range_query E L r from_key to_key from_inclusive to_inclusive =
     act_then (lift_result (reader_compare r from_key to_key)) (\<lambda>order.
       if order = Greater \<or> order = Equal \<and> (\<not> from_inclusive \<or> \<not> to_inclusive)
       then act_return (treemap_new (env_roaring E))
       else
         act_then (lift_result (seek_and_iter (ir_index_block r) from_key (reader_compare r))) (\<lambda>(_, index_iter).
           act_then (lift_result (iter_next (ir_index_block r) index_iter)) (\<lambda>(first, index_iter).
             case first of
               None \<Rightarrow> act_return (treemap_new (env_roaring E))
             | Some (_, handle_bytes) \<Rightarrow>
                 act_then (lift_result (handle_decode handle_bytes)) (\<lambda>h.
                   act_then (read_data_block E L r h) (\<lambda>first_block.
                     act_then (lift_result (seek_and_iter first_block from_key (reader_compare r))) (\<lambda>(_, seeked).
                       act_then (lift_result (scan_block E r first_block from_key to_key from_inclusive to_inclusive
                           (bi_offset seeked) (treemap_new (env_roaring E)))) (\<lambda>(finished, rows).
                         if finished then act_return rows
                         else range_blocks E L r from_key to_key from_inclusive to_inclusive index_iter rows)))))))"

definition all_non_null_rows :: "('t, 'b) env \<Rightarrow> 'c lru \<Rightarrow> index_reader \<Rightarrow> (('t, 'c) reader_state, 't) action" where
  "all_non_null_rows E L r =
     (case ir_min_key r of
        None \<Rightarrow> act_return (treemap_new (env_roaring E))
      | Some lo \<Rightarrow>
          (case ir_max_key r of
             None \<Rightarrow> lift_result (Inl (Panic ''called `Option::unwrap()` on a `None` value''))
           | Some hi \<Rightarrow> range_query E L r lo hi True True))"

definition query_less_than :: "('t, 'b) env \<Rightarrow> 'c lru \<Rightarrow> index_reader \<Rightarrow> bytes \<Rightarrow> (('t, 'c) reader_state, 't) action" where
  "query_less_than E L r key =
     (case ir_min_key r of
        Some lo \<Rightarrow> range_query E L r lo key True False | None \<Rightarrow> act_return (treemap_new (env_roaring E)))"

definition query_less_or_equal :: "('t, 'b) env \<Rightarrow> 'c lru \<Rightarrow> index_reader \<Rightarrow> bytes \<Rightarrow> (('t, 'c) reader_state, 't) action" where
  "query_less_or_equal E L r key =
     (case ir_min_key r of
        Some lo \<Rightarrow> range_query E L r lo key True True | None \<Rightarrow> act_return (treemap_new (env_roaring E)))"

definition query_greater_than :: "('t, 'b) env \<Rightarrow> 'c lru \<Rightarrow> index_reader \<Rightarrow> bytes \<Rightarrow> (('t, 'c) reader_state, 't) action" where
  "query_greater_than E L r key =
     (case ir_max_key r of
        Some hi \<Rightarrow> range_query E L r key hi False True | None \<Rightarrow> act_return (treemap_new (env_roaring E)))"

definition query_greater_or_equal :: "('t, 'b) env \<Rightarrow> 'c lru \<Rightarrow> index_reader \<Rightarrow> bytes \<Rightarrow> (('t, 'c) reader_state, 't) action" where
  "query_greater_or_equal E L r key =
     (case ir_max_key r of
        Some hi \<Rightarrow> range_query E L r key hi True True | None \<Rightarrow> act_return (treemap_new (env_roaring E)))"

definition query_between :: "('t, 'b) env \<Rightarrow> 'c lru \<Rightarrow> index_reader \<Rightarrow> bytes \<Rightarrow> bytes \<Rightarrow> (('t, 'c) reader_state, 't) action" where
  "query_between E L r from_key to_key = range_query E L r from_key to_key True True"

text \<open>\<^verbatim>\<open>prefix_successor\<close>, on the reversed prefix: bytes 0xFF at the end are dropped, the last other is incremented.\<close>

fun successor_rev :: "bytes \<Rightarrow> bytes option" where
  "successor_rev [] = None"
| "successor_rev (b # bound) = (if b \<noteq> 0xFF then Some (rev ((b + 1) # bound)) else successor_rev bound)"

definition prefix_successor :: "bytes \<Rightarrow> bytes option" where
  "prefix_successor pre = successor_rev (rev pre)"

definition query_prefix :: "('t, 'b) env \<Rightarrow> 'c lru \<Rightarrow> index_reader \<Rightarrow> bytes \<Rightarrow> (('t, 'c) reader_state, 't) action" where
  "query_prefix E L r pre =
     (case prefix_successor pre of
        Some upper \<Rightarrow> range_query E L r pre upper True False
      | None \<Rightarrow> query_greater_or_equal E L r pre)"

section \<open>Point queries\<close>

text \<open>The search of a key in its data block, as both \<^verbatim>\<open>query_equal\<close> and \<^verbatim>\<open>query_in\<close> do it.\<close>

definition lookup_in_block :: "('t, 'b) env \<Rightarrow> index_reader \<Rightarrow> block_reader \<Rightarrow> bytes \<Rightarrow> 't \<Rightarrow> 't result" where
  "lookup_in_block E r block key rows =
     and_then (seek_and_iter block key (reader_compare r)) (\<lambda>(found, entry_iter).
       and_then (iter_next block entry_iter) (\<lambda>(entry, _).
         case entry of
           Some (_, val) \<Rightarrow> if found then add_to (env_roaring E) val (ir_file_version r) rows else Inr rows
         | None \<Rightarrow> Inr rows))"

definition query_equal :: "('t, 'b) env \<Rightarrow> 'c lru \<Rightarrow> index_reader \<Rightarrow> bytes \<Rightarrow> (('t, 'c) reader_state, 't) action" where
  "query_equal E L r key =
     act_then (lift_result
       (case ir_min_key r of
          None \<Rightarrow> Inr True
        | Some lo \<Rightarrow>
            and_then (reader_compare r key lo) (\<lambda>d.
              if d = Less then Inr True
              else case ir_max_key r of
                  None \<Rightarrow> Inr True
                | Some hi \<Rightarrow> and_then (reader_compare r key hi) (\<lambda>d. Inr (d = Greater))))) (\<lambda>outside_bounds.
       if outside_bounds then act_return (treemap_new (env_roaring E))
       else
         act_then (bloom_might_contain E r key) (\<lambda>maybe.
           if \<not> maybe then act_return (treemap_new (env_roaring E))
           else
             act_then (lift_result (seek_and_iter (ir_index_block r) key (reader_compare r))) (\<lambda>(_, index_iter).
               act_then (lift_result (iter_next (ir_index_block r) index_iter)) (\<lambda>(entry, _).
                 case entry of
                   None \<Rightarrow> act_return (treemap_new (env_roaring E))
                 | Some (_, handle_bytes) \<Rightarrow>
                     act_then (lift_result (handle_decode handle_bytes)) (\<lambda>h.
                       act_then (read_data_block E L r h) (\<lambda>block.
                         lift_result (lookup_in_block E r block key (treemap_new (env_roaring E)))))))))"

fun filter_in_bounds :: "index_reader \<Rightarrow> bytes \<Rightarrow> bytes \<Rightarrow> bytes list \<Rightarrow> bytes list result" where
  "filter_in_bounds r lo hi [] = Inr []"
| "filter_in_bounds r lo hi (key # keys) =
     and_then (reader_compare r key lo) (\<lambda>d.
       and_then (if d \<noteq> Less then and_then (reader_compare r key hi) (\<lambda>d. Inr (d \<noteq> Greater)) else Inr False) (\<lambda>b.
         and_then (filter_in_bounds r lo hi keys) (\<lambda>ks. Inr (if b then key # ks else ks))))"

text \<open>
  \<^verbatim>\<open>try_sort_by\<close>: the sort of \<open>sort_by\<close>, reporting a comparison that failed. Which pairs a sort compares is
  up to the library; here they are those of the insertion sort.
\<close>

fun try_insort_by :: "('a \<Rightarrow> 'a \<Rightarrow> ordering result) \<Rightarrow> 'a \<Rightarrow> 'a list \<Rightarrow> 'a list result" where
  "try_insort_by c x [] = Inr [x]"
| "try_insort_by c x (y # ys) =
     and_then (c x y) (\<lambda>d.
       if d = Greater then and_then (try_insort_by c x ys) (\<lambda>zs. Inr (y # zs)) else Inr (x # y # ys))"

fun try_sort_by :: "('a \<Rightarrow> 'a \<Rightarrow> ordering result) \<Rightarrow> 'a list \<Rightarrow> 'a list result" where
  "try_sort_by c [] = Inr []"
| "try_sort_by c (x # xs) = and_then (try_sort_by c xs) (try_insort_by c x)"

fun dedup_keys :: "index_reader \<Rightarrow> bytes list \<Rightarrow> bytes list \<Rightarrow> bytes list result" where
  "dedup_keys r unique_keys [] = Inr unique_keys"
| "dedup_keys r unique_keys (key # keys) =
     and_then (if unique_keys = [] then Inr False
               else and_then (reader_compare r (last unique_keys) key) (\<lambda>d. Inr (d = Equal))) (\<lambda>duplicate.
       dedup_keys r (if duplicate then unique_keys else unique_keys @ [key]) keys)"

fun bloom_filter_keys :: "('t, 'b) env \<Rightarrow> index_reader \<Rightarrow> bytes list \<Rightarrow> (('t, 'c) reader_state, bytes list) action" where
  "bloom_filter_keys E r [] = act_return []"
| "bloom_filter_keys E r (key # keys) =
     act_then (bloom_might_contain E r key) (\<lambda>maybe.
       act_then (bloom_filter_keys E r keys) (\<lambda>ks. act_return (if maybe then key # ks else ks)))"

text \<open>The target blocks, in order; the last one takes another key that resolves to the same handle.\<close>

fun resolve_blocks :: "index_reader \<Rightarrow> (block_handle \<times> bytes list) list \<Rightarrow> bytes list
    \<Rightarrow> (block_handle \<times> bytes list) list result" where
  "resolve_blocks r target_blocks [] = Inr target_blocks"
| "resolve_blocks r target_blocks (key # keys) =
     and_then (seek_and_iter (ir_index_block r) key (reader_compare r)) (\<lambda>(_, index_iter).
       and_then (iter_next (ir_index_block r) index_iter) (\<lambda>(entry, _).
         case entry of
           None \<Rightarrow> Inr target_blocks
         | Some (_, handle_bytes) \<Rightarrow>
             and_then (handle_decode handle_bytes) (\<lambda>h.
               resolve_blocks r
                 (if target_blocks \<noteq> [] \<and> fst (last target_blocks) = h
                  then butlast target_blocks @ [(h, snd (last target_blocks) @ [key])]
                  else target_blocks @ [(h, [key])]) keys)))"

fun lookup_all :: "('t, 'b) env \<Rightarrow> index_reader \<Rightarrow> block_reader \<Rightarrow> bytes list \<Rightarrow> 't \<Rightarrow> 't result" where
  "lookup_all E r block [] rows = Inr rows"
| "lookup_all E r block (key # keys) rows =
     and_then (lookup_in_block E r block key rows) (lookup_all E r block keys)"

fun lookup_blocks :: "('t, 'b) env \<Rightarrow> 'c lru \<Rightarrow> index_reader \<Rightarrow> (block_handle \<times> bytes list) list \<Rightarrow> 't
    \<Rightarrow> (('t, 'c) reader_state, 't) action" where
  "lookup_blocks E L r [] rows = act_return rows"
| "lookup_blocks E L r ((h, block_keys) # targets) rows =
     act_then (read_data_block E L r h) (\<lambda>block.
       act_then (lift_result (lookup_all E r block block_keys rows)) (\<lambda>rows. lookup_blocks E L r targets rows))"

definition query_in :: "('t, 'b) env \<Rightarrow> 'c lru \<Rightarrow> index_reader \<Rightarrow> bytes list \<Rightarrow> (('t, 'c) reader_state, 't) action" where
  "query_in E L r keys =
     (let empty = act_return (treemap_new (env_roaring E)) in
      if keys = [] then empty
      else case (ir_min_key r, ir_max_key r) of
          (Some lo, Some hi) \<Rightarrow>
            act_then (lift_result (filter_in_bounds r lo hi keys)) (\<lambda>ks.
              act_then (lift_result (try_sort_by (reader_compare r) ks)) (\<lambda>ks.
                act_then (lift_result (dedup_keys r [] ks)) (\<lambda>unique_keys.
                  if unique_keys = [] then empty
                  else
                    act_then (bloom_filter_keys E r unique_keys) (\<lambda>bloom_matches.
                      if bloom_matches = [] then empty
                      else
                        act_then (lift_result (resolve_blocks r [] bloom_matches)) (\<lambda>targets.
                          lookup_blocks E L r targets (treemap_new (env_roaring E)))))))
        | _ \<Rightarrow> empty)"

definition query_not_equal :: "('t, 'b) env \<Rightarrow> 'c lru \<Rightarrow> index_reader \<Rightarrow> bytes \<Rightarrow> (('t, 'c) reader_state, 't) action" where
  "query_not_equal E L r key =
     act_then (all_non_null_rows E L r) (\<lambda>rows.
       act_then (query_equal E L r key) (\<lambda>equal. act_return (treemap_sub (env_roaring E) rows equal)))"

section \<open>Scans\<close>

function scan_matching :: "('t, 'b) env \<Rightarrow> index_reader \<Rightarrow> (bytes \<Rightarrow> bool) \<Rightarrow> block_reader \<Rightarrow> nat \<Rightarrow> 't \<Rightarrow> 't result" where
  "scan_matching E r pred block offset rows =
     (if offset < length (br_data block) then
        case read_entry_at block offset of
          Inl e \<Rightarrow> Inl e
        | Inr (key, val, next_offset) \<Rightarrow>
            and_then (if pred key then add_to (env_roaring E) val (ir_file_version r) rows else Inr rows) (\<lambda>rows.
              scan_matching E r pred block next_offset rows)
      else Inr rows)"
  by pat_completeness auto
termination
  by (relation "measure (\<lambda>(E, r, pred, block, offset, rows). length (br_data block) - offset)")
     (auto dest: read_entry_at_advances)

declare scan_matching.simps [simp del]

function scan_all_blocks :: "('t, 'b) env \<Rightarrow> 'c lru \<Rightarrow> index_reader \<Rightarrow> (bytes \<Rightarrow> bool) \<Rightarrow> block_iter \<Rightarrow> 't
    \<Rightarrow> (('t, 'c) reader_state, 't) action" where
  "scan_all_blocks E L r pred index_iter rows =
     (case iter_next (ir_index_block r) index_iter of
        Inl e \<Rightarrow> lift_result (Inl e)
      | Inr (None, _) \<Rightarrow> act_return rows
      | Inr (Some (_, handle_bytes), index_iter) \<Rightarrow>
          act_then (lift_result (handle_decode handle_bytes)) (\<lambda>h.
            act_then (read_data_block E L r h) (\<lambda>block.
              act_then (lift_result (scan_matching E r pred block 0 rows)) (\<lambda>rows.
                scan_all_blocks E L r pred index_iter rows))))"
  by pat_completeness auto
termination
  by (relation "measure (\<lambda>(E, L, r, pred, it, rows). br_record_count (ir_index_block r) - bi_index it)")
     (auto dest: iter_next_advances)

declare scan_all_blocks.simps [simp del]

definition scan_entries :: "('t, 'b) env \<Rightarrow> 'c lru \<Rightarrow> index_reader \<Rightarrow> (bytes \<Rightarrow> bool) \<Rightarrow> (('t, 'c) reader_state, 't) action" where
  "scan_entries E L r pred =
     (case ir_min_key r of
        None \<Rightarrow> act_return (treemap_new (env_roaring E))
      | Some lo \<Rightarrow>
          act_then (lift_result (seek_and_iter (ir_index_block r) lo (reader_compare r))) (\<lambda>(_, index_iter).
            scan_all_blocks E L r pred index_iter (treemap_new (env_roaring E))))"

end
