(* ===== verification/Btree_Reader_Laws.thy ===== *)
theory Btree_Reader_Laws
  imports Btree_Reader
begin

text \<open>
  What the queries of an opened reader return: the row ids of exactly the groups whose key the query
  selects, from every coherent state of the shared cache.
\<close>

section \<open>Opened readers\<close>

text \<open>What opening a well-formed index file establishes, and what the queries rely on.\<close>

definition opened :: "('t, 'b) env \<Rightarrow> (bytes \<Rightarrow> bytes \<Rightarrow> ordering) \<Rightarrow> bytes set \<Rightarrow> index_reader
    \<Rightarrow> (bytes \<times> int list) list \<Rightarrow> int set \<Rightarrow> ((bytes \<times> bytes) list \<times> block_handle) list \<Rightarrow> bool" where
  "opened E ord A r gs nl bs \<longleftrightarrow> env_ok E \<and> key_order (ir_key_comparator r) ord A \<and> fst ` set gs \<subseteq> A
     \<and> int (length (ir_file r)) \<le> i32_max
     \<and> reads (ir_index_block r) (map index_entry bs) \<and> blocks_stored (env_codecs E) (ir_file r) bs
     \<and> list_all2 (posts (env_roaring E) (ir_file_version r)) (concat (map fst bs)) gs
     \<and> sorted_keys ord gs \<and> (\<forall>g \<in> set gs. list_all in_i64 (snd g))
     \<and> null_stored E (ir_file r) (ir_null_bitmap_handle r) nl
     \<and> bloom_stored E (ir_file r) (ir_bloom_filter r) (fst ` set gs)
     \<and> ir_min_key r = (if gs = [] then None else Some (fst (hd gs)))
     \<and> ir_max_key r = (if gs = [] then None else Some (fst (last gs)))"

lemma storage_read_ok:
  assumes "env_ok E" "0 \<le> a" "a \<le> b" "b \<le> int (length content)"
  shows "read_range E content a b = Inr (file_range content a (b - a))"
  using assms unfolding read_range_def env_ok_def storage_ok_def file_range_def by blast

lemma read_block_stored:
  assumes E: "env_ok E" and st: "stored (env_codecs E) content h es" and small: "int (length content) \<le> i32_max"
  shows "\<exists>br. read_block_at E content h = Inr br \<and> reads br es"
proof -
  have h: "0 \<le> handle_offset h" "0 \<le> handle_size h" "handle_offset h + handle_size h + 5 \<le> int (length content)"
    using st by (simp_all add: stored_def handle_ok_def int_range_simps)
  have f: "full_block_size h = handle_size h + 5"
    using h small by (simp add: full_block_size_def wrap_unsigned_def int_range_simps)
  have u: "u64_add (handle_offset h) (full_block_size h) = handle_offset h + (handle_size h + 5)"
    unfolding f using h small by (intro u64_add_in) (simp add: int_range_simps)
  have "read_range E content (handle_offset h) (handle_offset h + (handle_size h + 5))
      = Inr (file_range content (handle_offset h) (handle_size h + 5))"
    using storage_read_ok [OF E, of "handle_offset h" "handle_offset h + (handle_size h + 5)"] h by simp
  then show ?thesis using st unfolding read_block_at_def u by (auto simp: stored_def)
qed

lemma open_image:
  assumes E: "env_ok E" and c: "key_order c ord A" and A: "fst ` set gs \<subseteq> A"
    and img: "index_image E ord content m gs nl f bs"
  shows "\<exists>r. open_with_data_block_cache E content (int (length content)) m c path = Inr r
    \<and> opened E ord A r gs nl bs \<and> ir_file r = content \<and> ir_data_block_cache_file r = path"
proof -
  have len: "52 \<le> length content" and small: "int (length content) \<le> i32_max"
    and foot: "drop (length content - 52) content = write_footer f" and fok: "footer_ok f"
    and ix: "stored (env_codecs E) content (footer_index_block_handle f) (map index_entry bs)"
    using img by (simp_all add: index_image_def)
  have "read_range E content (int (length content) - 52) (int (length content)) = Inr (write_footer f)"
    using storage_read_ok [OF E, of "int (length content) - 52" "int (length content)" content] len foot
      length_write_footer [of f]
    by (simp add: file_range_def nat_diff_distrib)
  moreover obtain ib where ib: "read_block_at E content (footer_index_block_handle f) = Inr ib"
    "reads ib (map index_entry bs)"
    using read_block_stored [OF E ix small] by blast
  ultimately show ?thesis
    using img E c A len footer_round_trip [OF fok] ib
    by (auto simp: open_with_data_block_cache_def opened_def index_image_def)
qed

section \<open>States\<close>

text \<open>A cache that agrees with the files: what it holds under a name is the block of the file of that name.\<close>

definition cache_of :: "('t, 'b) env \<Rightarrow> 'c lru \<Rightarrow> (string \<Rightarrow> bytes) \<Rightarrow> 'c block_cache \<Rightarrow> bool" where
  "cache_of E L files c \<longleftrightarrow> lru_ok L \<and> cache_inv L c
     \<and> coherent L (\<lambda>k b. read_block_at E (files (ck_file k))
           \<lparr>handle_offset = ck_offset k, handle_size = ck_size k\<rparr> = Inr b) c"

text \<open>
  The states of a reader: its name stands for its file, the shared cache agrees with the files, and a null
  bitmap or Bloom filter that is loaded is the one of its file.
\<close>

definition reader_inv :: "('t, 'b) env \<Rightarrow> 'c lru \<Rightarrow> index_reader \<Rightarrow> int set \<Rightarrow> (string \<Rightarrow> bytes)
    \<Rightarrow> ('t, 'c) reader_state \<Rightarrow> bool" where
  "reader_inv E L r nl files s \<longleftrightarrow> files (ir_data_block_cache_file r) = ir_file r
     \<and> cache_of E L files (rs_cache s)
     \<and> (\<forall>t. rs_null_bitmap s = Some t \<longrightarrow> rows_in (env_roaring E) t = nl)
     \<and> (\<forall>f. rs_bloom s = Some f \<longrightarrow> (\<forall>h. ir_bloom_filter r = Some h \<longrightarrow> load_bloom E r h = Inr f))"

lemma read_data_block_achieves:
  assumes h: "read_block_at E (ir_file r) h = Inr br"
  shows "achieves (reader_inv E L r nl files) (read_data_block E L r h) (\<lambda>b. b = br)"
  unfolding achieves_def
proof (intro allI impI)
  fix s :: "('a, 'c) reader_state"
  assume inv: "reader_inv E L r nl files s"
  let ?good = "\<lambda>k b. read_block_at E (files (ck_file k)) \<lparr>handle_offset = ck_offset k, handle_size = ck_size k\<rparr> = Inr b"
  let ?key = "\<lparr>ck_file = ir_data_block_cache_file r, ck_offset = handle_offset h, ck_size = handle_size h\<rparr>"
  have L: "lru_ok L" and c0: "cache_inv L (rs_cache s)" "coherent L ?good (rs_cache s)"
    and fl: "files (ir_data_block_cache_file r) = ir_file r"
    using inv by (simp_all add: reader_inv_def cache_of_def)
  have good: "?good ?key b \<longleftrightarrow> b = br" for b using h fl by (cases h) auto
  obtain hit c1 where get: "cache_get L ?key (rs_cache s) = (hit, c1)" by (cases "cache_get L ?key (rs_cache s)")
  have c1: "cache_inv L c1" "coherent L ?good c1" "\<forall>b. hit = Some b \<longrightarrow> b = br"
    using cache_get_laws [OF L c0 get] good by auto
  obtain b c2 where put: "cache_put L ?key br c1 = (b, c2)" by (cases "cache_put L ?key br c1")
  have c2: "cache_inv L c2" "coherent L ?good c2" "b = br"
    using cache_put_laws [OF L c1(1,2) _ put] good by auto
  show "\<exists>x s'. run_state (read_data_block E L r h) s = (Inr x, s') \<and> reader_inv E L r nl files s' \<and> x = br"
  proof (cases hit)
    case None
    then have "run_state (read_data_block E L r h) s = (Inr br, s\<lparr>rs_cache := c2\<rparr>)"
      using get put h c2(3) by (simp add: read_data_block_def run_act_then Let_def)
    then show ?thesis using inv c2 by (simp add: reader_inv_def cache_of_def)
  next
    case (Some x)
    then have "run_state (read_data_block E L r h) s = (Inr br, s\<lparr>rs_cache := c1\<rparr>)"
      using get c1(3) by (simp add: read_data_block_def run_act_then Let_def)
    then show ?thesis using inv c1 by (simp add: reader_inv_def cache_of_def)
  qed
qed

section \<open>Entries and groups\<close>

text \<open>The rows of the groups whose key is selected.\<close>

definition rows_where :: "(bytes \<Rightarrow> bool) \<Rightarrow> (bytes \<times> int list) list \<Rightarrow> int set" where
  "rows_where P gs = \<Union> (set ` snd ` {g \<in> set gs. P (fst g)})"

lemma rows_where_simps [simp]:
  "rows_where P [] = {}"
  "rows_where P (g # gs) = (if P (fst g) then set (snd g) else {}) \<union> rows_where P gs"
  "rows_where P (xs @ ys) = rows_where P xs \<union> rows_where P ys"
  by (auto simp: rows_where_def)

lemma rows_where_cong: "(\<And>g. g \<in> set gs \<Longrightarrow> P (fst g) = Q (fst g)) \<Longrightarrow> rows_where P gs = rows_where Q gs"
  by (induction gs) auto

lemma rows_where_empty: "(\<And>g. g \<in> set gs \<Longrightarrow> \<not> P (fst g)) \<Longrightarrow> rows_where P gs = {}"
  by (induction gs) auto

lemma compare_ok: "key_order (ir_key_comparator r) ord A \<Longrightarrow> x \<in> A \<Longrightarrow> y \<in> A \<Longrightarrow> reader_compare r x y = Inr (ord x y)"
  by (simp add: key_order_def reader_compare_def key_comparison_io_error_def)

lemma add_posting:
  assumes "env_ok E" "posts (env_roaring E) v e g" "list_all in_i64 (snd g)"
  shows "\<exists>t'. add_to (env_roaring E) (snd e) v t = Inr t' \<and> rows_in (env_roaring E) t' = rows_in (env_roaring E) t \<union> set (snd g)"
  using posting_round_trip [OF _ _ assms(3)] assms(1,2) by (auto simp: posts_def env_ok_def)

lemma posts_keys: "list_all2 (posts R v) es gs \<Longrightarrow> map fst es = map fst gs"
  by (induction rule: list_all2_induct) (auto simp: posts_def)

lemma posts_dropWhile:
  "list_all2 (posts R v) es gs \<Longrightarrow>
   list_all2 (posts R v) (dropWhile (\<lambda>e. P (fst e)) es) (dropWhile (\<lambda>g. P (fst g)) gs)"
  by (induction rule: list_all2_induct) (auto simp: posts_def)

lemma sorted_keys_iff: "sorted_keys ord es \<longleftrightarrow> sorted_wrt (\<lambda>a b. ord a b = Less) (map fst es)"
  by (simp add: sorted_keys_def sorted_wrt_map)

lemma sorted_keys_map: "map fst es = map fst gs \<Longrightarrow> sorted_keys ord es = sorted_keys ord gs"
  by (simp add: sorted_keys_iff)

text \<open>A range scan over the groups: whether it passed the upper bound, and the rows it collected.\<close>

fun range_scan :: "(bytes \<Rightarrow> bytes \<Rightarrow> ordering) \<Rightarrow> bytes \<Rightarrow> bytes \<Rightarrow> bool \<Rightarrow> bool \<Rightarrow> (bytes \<times> int list) list \<Rightarrow> bool \<times> int set" where
  "range_scan ord f t fi ti [] = (False, {})"
| "range_scan ord f t fi ti ((k, rs) # gs) =
     (if \<not> fi \<and> ord k f = Equal then range_scan ord f t fi ti gs
      else if ord k t = Greater \<or> \<not> ti \<and> ord k t = Equal then (True, {})
      else (fst (range_scan ord f t fi ti gs), set rs \<union> snd (range_scan ord f t fi ti gs)))"

lemma range_scan_append:
  "range_scan ord f t fi ti (xs @ ys) =
     (if fst (range_scan ord f t fi ti xs) then range_scan ord f t fi ti xs
      else (fst (range_scan ord f t fi ti ys), snd (range_scan ord f t fi ti xs) \<union> snd (range_scan ord f t fi ti ys)))"
  by (induction xs) auto

lemma scan_block_correct:
  assumes E: "env_ok E" and c: "key_order (ir_key_comparator r) ord A" and ft: "f \<in> A" "t \<in> A"
    and br: "reads br es"
  shows "i \<le> length es \<Longrightarrow> list_all2 (posts (env_roaring E) (ir_file_version r)) (drop i es) gs \<Longrightarrow>
    fst ` set gs \<subseteq> A \<Longrightarrow> \<forall>g \<in> set gs. list_all in_i64 (snd g) \<Longrightarrow>
    \<exists>rows'. scan_block E r br f t fi ti (offset_of es i) rows = Inr (fst (range_scan ord f t fi ti gs), rows')
      \<and> rows_in (env_roaring E) rows' = rows_in (env_roaring E) rows \<union> snd (range_scan ord f t fi ti gs)"
proof (induction gs arbitrary: i rows)
  case Nil
  then have "i = length es" by simp
  then show ?case using br by (simp add: scan_block.simps [of E r br] reads_def)
next
  case (Cons g gs)
  obtain e es' where d: "drop i es = e # es'" and g: "posts (env_roaring E) (ir_file_version r) e g"
    and rest: "list_all2 (posts (env_roaring E) (ir_file_version r)) es' gs"
    using Cons.prems(2) by (auto simp: list_all2_Cons2)
  have i: "i < length es" using d Cons.prems(1) by (cases "i < length es") auto
  have e: "es ! i = e" "drop (Suc i) es = es'" using d i by (metis Cons_nth_drop_Suc list.inject)+
  obtain k rs where kr: "g = (k, rs)" by (cases g)
  have ek: "fst e = k" using g kr by (simp add: posts_def)
  have k: "k \<in> A" using Cons.prems(3) kr by simp
  note cmp = compare_ok [OF c k]
  have entry: "read_entry_at br (offset_of es i) = Inr (k, snd e, offset_of es (Suc i))"
    using reads_entry(1) [OF br i] e ek by simp
  have lt: "offset_of es i < length (br_data br)" using br offset_of_less [OF i] by (simp add: reads_def)
  note step = scan_block.simps [of E r br f t fi ti "offset_of es i" rows]
  obtain rows1 where r1: "add_to (env_roaring E) (snd e) (ir_file_version r) rows = Inr rows1"
    and r1r: "rows_in (env_roaring E) rows1 = rows_in (env_roaring E) rows \<union> set rs"
    using add_posting [OF E g, of rows] Cons.prems(4) kr by auto
  have IH: "\<exists>rows'. scan_block E r br f t fi ti (offset_of es (Suc i)) rows0 = Inr (fst (range_scan ord f t fi ti gs), rows')
      \<and> rows_in (env_roaring E) rows' = rows_in (env_roaring E) rows0 \<union> snd (range_scan ord f t fi ti gs)" for rows0
    using Cons.IH [of "Suc i" rows0] i rest Cons.prems e by simp
  show ?case
    using IH [of rows] IH [of rows1] cmp [OF ft(1)] cmp [OF ft(2)]
    by (auto simp: step lt entry kr r1 r1r Un_assoc)
qed

text \<open>On sorted groups that start at the lower bound, the scan collects the range.\<close>

definition in_key_range :: "(bytes \<Rightarrow> bytes \<Rightarrow> ordering) \<Rightarrow> bytes \<Rightarrow> bytes \<Rightarrow> bool \<Rightarrow> bool \<Rightarrow> bytes \<Rightarrow> bool" where
  "in_key_range ord f t fi ti k \<longleftrightarrow> (if fi then ord k f \<noteq> Less else ord k f = Greater)
     \<and> (if ti then ord k t \<noteq> Greater else ord k t = Less)"

lemma range_scan_sorted:
  assumes tot: "total_cmp ord A" and t: "t \<in> A"
  shows "sorted_keys ord gs \<Longrightarrow> fst ` set gs \<subseteq> A \<Longrightarrow> \<forall>g \<in> set gs. ord (fst g) f \<noteq> Less \<Longrightarrow>
    snd (range_scan ord f t fi ti gs) = rows_where (in_key_range ord f t fi ti) gs"
proof (induction gs)
  case (Cons g gs)
  obtain k rs where g: "g = (k, rs)" by (cases g)
  have IH: "snd (range_scan ord f t fi ti gs) = rows_where (in_key_range ord f t fi ti) gs"
    using Cons by (simp add: sorted_keys_def)
  show ?case
  proof (cases "ord k t = Greater \<or> \<not> ti \<and> ord k t = Equal")
    case True
    have "\<not> in_key_range ord f t fi ti (fst x)" if x: "x \<in> set gs" for x
    proof -
      have A: "k \<in> A" "fst x \<in> A" and lt: "ord k (fst x) = Less"
        using Cons.prems x by (auto simp: g sorted_keys_def)
      have "ord t k \<noteq> Greater" using True total_cmp.cmp_flip [OF tot A(1) t] by auto
      then have "ord t (fst x) = Less" using total_cmp.le_less_trans [OF tot t A] lt by blast
      then show ?thesis using total_cmp.cmp_flip [OF tot t A(2)] by (auto simp: in_key_range_def)
    qed
    then have "rows_where (in_key_range ord f t fi ti) gs = {}" by (rule rows_where_empty)
    then show ?thesis using True IH by (auto simp: g in_key_range_def [of _ _ _ _ _ k])
  next
    case False
    then show ?thesis
      using IH Cons.prems(3) by (cases "ord k t"; cases "ord k f") (auto simp: g in_key_range_def [of _ _ _ _ _ k])
  qed
qed simp

section \<open>Seeking\<close>

lemma drop_below: "drop (below ord es t) es = dropWhile (\<lambda>e. ord (fst e) t = Less) es"
  by (simp add: below_def dropWhile_eq_drop)

lemma all_less_if_last:
  assumes tot: "total_cmp ord A" and "sorted_keys ord es" "fst ` set es \<subseteq> A" "t \<in> A" "es \<noteq> []"
    "ord (fst (last es)) t = Less" "e \<in> set es"
  shows "ord (fst e) t = Less"
proof (cases "e = last es")
  case False
  have es: "es = butlast es @ [last es]" using assms(5) by simp
  have eb: "e \<in> set (butlast es)" using assms(7) False es by (metis in_set_butlast_appendI Un_iff empty_iff
      insert_iff list.set(1,2) set_append)
  have "sorted_keys ord (butlast es @ [last es])" using assms(2) es by simp
  then have "ord (fst e) (fst (last es)) = Less" using eb by (simp add: sorted_keys_def sorted_wrt_append)
  moreover have "fst e \<in> A" "fst (last es) \<in> A" using assms(3,5,7) by auto
  ultimately show ?thesis using total_cmp.less_le_trans [OF tot _ _ assms(4)] assms(6) by simp
qed (use assms in simp)

lemma seek_blocks:
  assumes tot: "total_cmp ord A" and t: "t \<in> A"
  shows "sorted_keys ord (concat (map fst bs)) \<Longrightarrow> fst ` set (concat (map fst bs)) \<subseteq> A \<Longrightarrow>
    \<forall>b \<in> set bs. fst b \<noteq> [] \<Longrightarrow> j = below ord (map index_entry bs) t \<Longrightarrow>
    dropWhile (\<lambda>e. ord (fst e) t = Less) (concat (map fst bs)) =
      (if j < length bs then dropWhile (\<lambda>e. ord (fst e) t = Less) (fst (bs ! j)) @ concat (map fst (drop (Suc j) bs))
       else [])
    \<and> (j < length bs \<longrightarrow> dropWhile (\<lambda>e. ord (fst e) t = Less) (fst (bs ! j)) \<noteq> [])"
proof (induction bs arbitrary: j)
  case (Cons b bs)
  let ?P = "\<lambda>e. ord (fst e) t = Less"
  have sb: "sorted_keys ord (fst b)" "sorted_keys ord (concat (map fst bs))"
    and bA: "fst ` set (fst b) \<subseteq> A" "fst ` set (concat (map fst bs)) \<subseteq> A" and ne: "fst b \<noteq> []"
    using Cons.prems by (auto simp: sorted_keys_def sorted_wrt_append)
  show ?case
  proof (cases "?P (last (fst b))")
    case True
    then have all: "\<forall>e \<in> set (fst b). ?P e"
      using all_less_if_last [OF tot sb(1) bA(1) t ne] by blast
    then have "dropWhile ?P (fst b @ concat (map fst bs)) = dropWhile ?P (concat (map fst bs))"
      by (simp add: dropWhile_append2)
    moreover have "j = Suc (below ord (map index_entry bs) t)"
      using Cons.prems(4) True by (simp add: below_def index_entry_def [of b])
    ultimately show ?thesis using Cons.IH [OF sb(2) bA(2) _ refl] Cons.prems(3) by simp
  next
    case False
    then have j: "j = 0" using Cons.prems(4) by (simp add: below_def index_entry_def [of b])
    have ex: "last (fst b) \<in> set (fst b)" using ne by simp
    have "dropWhile ?P (fst b @ concat (map fst bs)) = dropWhile ?P (fst b) @ concat (map fst bs)"
      using dropWhile_append1 [OF ex] False by auto
    moreover have "dropWhile ?P (fst b) \<noteq> []" using ex False by (auto simp: dropWhile_eq_Nil_conv)
    ultimately show ?thesis by (simp add: j)
  qed
qed (simp add: below_def)

section \<open>Range queries\<close>

lemma openedD:
  assumes "opened E ord A r gs nl bs"
  shows "env_ok E" "key_order (ir_key_comparator r) ord A" "total_cmp ord A" "fst ` set gs \<subseteq> A"
    "reads (ir_index_block r) (map index_entry bs)" "sorted_keys ord gs" "\<forall>g \<in> set gs. list_all in_i64 (snd g)"
    "list_all2 (posts (env_roaring E) (ir_file_version r)) (concat (map fst bs)) gs"
    "\<forall>b \<in> set bs. fst b \<noteq> []" "sorted_keys ord (concat (map fst bs))" "fst ` set (concat (map fst bs)) \<subseteq> A"
    "ir_min_key r = (if gs = [] then None else Some (fst (hd gs)))"
    "ir_max_key r = (if gs = [] then None else Some (fst (last gs)))"
proof -
  show p: "list_all2 (posts (env_roaring E) (ir_file_version r)) (concat (map fst bs)) gs"
    and A: "fst ` set gs \<subseteq> A" and s: "sorted_keys ord gs"
    using assms by (simp_all add: opened_def)
  show "sorted_keys ord (concat (map fst bs))" using s sorted_keys_map [OF posts_keys [OF p]] by simp
  have "fst ` set (concat (map fst bs)) = fst ` set gs" using posts_keys [OF p] by (metis list.set_map)
  then show "fst ` set (concat (map fst bs)) \<subseteq> A" using A by simp
  show "\<forall>b \<in> set bs. fst b \<noteq> []" using assms by (auto simp: opened_def blocks_stored_def)
qed (use assms in \<open>simp_all add: opened_def key_order_def\<close>)

lemma opened_block:
  assumes "opened E ord A r gs nl bs" "j < length bs"
  shows "handle_decode (snd (index_entry (bs ! j))) = Inr (snd (bs ! j))"
    and "\<exists>br. read_block_at E (ir_file r) (snd (bs ! j)) = Inr br \<and> reads br (fst (bs ! j))"
proof -
  obtain es h where b: "bs ! j = (es, h)" by (cases "bs ! j")
  have "(es, h) \<in> set bs" using assms(2) nth_mem [of j bs] b by simp
  then have st: "stored (env_codecs E) (ir_file r) h es" using assms(1) by (auto simp: opened_def blocks_stored_def)
  then show "handle_decode (snd (index_entry (bs ! j))) = Inr (snd (bs ! j))"
    by (simp add: b index_entry_def stored_def handle_decode_encode)
  show "\<exists>br. read_block_at E (ir_file r) (snd (bs ! j)) = Inr br \<and> reads br (fst (bs ! j))"
    using read_block_stored [OF _ st] assms(1) by (simp add: b opened_def)
qed

definition index_at :: "((bytes \<times> bytes) list \<times> block_handle) list \<Rightarrow> nat \<Rightarrow> block_iter" where
  "index_at bs j = \<lparr>bi_offset = offset_of (map index_entry bs) j, bi_index = j\<rparr>"

lemma index_next:
  assumes "opened E ord A r gs nl bs" "j \<le> length bs"
  shows "iter_next (ir_index_block r) (index_at bs j) =
    (if j < length bs then Inr (Some (index_entry (bs ! j)), index_at bs (Suc j)) else Inr (None, index_at bs j))"
  using iter_next_reads [OF openedD(5) [OF assms(1)], of j] assms(2) by (simp add: index_at_def)

lemma range_blocks_correct:
  assumes op: "opened E ord A r gs nl bs" and ft: "f \<in> A" "t \<in> A"
  shows "j \<le> length bs \<Longrightarrow> list_all2 (posts (env_roaring E) (ir_file_version r)) (concat (map fst (drop j bs))) gs' \<Longrightarrow>
    set gs' \<subseteq> set gs \<Longrightarrow>
    achieves (reader_inv E L r nl files) (range_blocks E L r f t fi ti (index_at bs j) rows)
      (\<lambda>rows'. rows_in (env_roaring E) rows' = rows_in (env_roaring E) rows \<union> snd (range_scan ord f t fi ti gs'))"
proof (induction "length bs - j" arbitrary: j gs' rows)
  case 0
  then show ?case
    using index_next [OF op, of j] by (auto simp: range_blocks.simps [of E L r])
next
  case (Suc n)
  note E = openedD(1) [OF op] and c = openedD(2) [OF op]
  have j: "j < length bs" using Suc.hyps(2) by simp
  obtain br where br: "read_block_at E (ir_file r) (snd (bs ! j)) = Inr br" "reads br (fst (bs ! j))"
    using opened_block(2) [OF op j] by blast
  have "drop j bs = bs ! j # drop (Suc j) bs" using j by (simp add: Cons_nth_drop_Suc)
  then obtain g1 g2 where g: "gs' = g1 @ g2" and p1: "list_all2 (posts (env_roaring E) (ir_file_version r)) (fst (bs ! j)) g1"
    and p2: "list_all2 (posts (env_roaring E) (ir_file_version r)) (concat (map fst (drop (Suc j) bs))) g2"
    using Suc.prems(2) by (auto simp: list_all2_append1)
  have g1A: "fst ` set g1 \<subseteq> A" "\<forall>g \<in> set g1. list_all in_i64 (snd g)"
    using openedD(4,7) [OF op] Suc.prems(3) g by auto
  obtain rows1 where s1: "scan_block E r br f t fi ti 0 rows = Inr (fst (range_scan ord f t fi ti g1), rows1)"
    and r1: "rows_in (env_roaring E) rows1 = rows_in (env_roaring E) rows \<union> snd (range_scan ord f t fi ti g1)"
    using scan_block_correct [OF E c ft br(2), of 0 g1 fi ti rows] p1 g1A by auto
  have "achieves (reader_inv E L r nl files)
      (if fst (range_scan ord f t fi ti g1) then act_return rows1
       else range_blocks E L r f t fi ti (index_at bs (Suc j)) rows1)
      (\<lambda>rows'. rows_in (env_roaring E) rows' = rows_in (env_roaring E) rows \<union> snd (range_scan ord f t fi ti gs'))"
    using Suc.hyps(1) [of "Suc j" g2 rows1] Suc.hyps(2) j p2 Suc.prems(3)
    by (auto simp: g r1 range_scan_append Un_assoc)
  then show ?case
    using j index_next [OF op, of j] opened_block(1) [OF op j]
    by (auto simp: range_blocks.simps [of E L r] s1 split: prod.split
        intro!: achieves_then [OF read_data_block_achieves [OF br(1)]])
qed

text \<open>The seeks in the index block and in a data block.\<close>

lemma index_sorted:
  assumes "sorted_keys ord (concat (map fst bs))" "\<forall>b \<in> set bs. fst b \<noteq> []"
  shows "sorted_keys ord (map index_entry bs)" "fst ` set (map index_entry bs) \<subseteq> fst ` set (concat (map fst bs))"
proof -
  show "sorted_keys ord (map index_entry bs)"
    using assms
  proof (induction bs)
    case (Cons b bs)
    have "ord (fst (last (fst b))) (fst (last (fst x))) = Less" if "x \<in> set bs" for x
      using Cons.prems that by (auto simp: sorted_keys_def sorted_wrt_append)
    then show ?case using Cons by (auto simp: sorted_keys_def sorted_wrt_append sorted_wrt_map index_entry_def)
  qed (simp add: sorted_keys_def)
  show "fst ` set (map index_entry bs) \<subseteq> fst ` set (concat (map fst bs))"
    using assms(2) by (force simp: index_entry_def)
qed

lemma seek_index:
  assumes op: "opened E ord A r gs nl bs" and k: "k \<in> A"
  shows "\<exists>found. seek_and_iter (ir_index_block r) k (reader_compare r) =
    Inr (found, index_at bs (below ord (map index_entry bs) k))"
proof -
  have "fst ` set (map index_entry bs) \<subseteq> A"
    using index_sorted(2) [OF openedD(10,9) [OF op]] openedD(11) [OF op] by blast
  from seek_sorted [where c = "reader_compare r", OF openedD(5,3) [OF op] this k
      index_sorted(1) [OF openedD(10,9) [OF op]] compare_ok [OF openedD(2) [OF op] _ k]]
  show ?thesis by (auto simp: index_at_def)
qed

lemma block_sorted:
  assumes op: "opened E ord A r gs nl bs" and j: "j < length bs"
  shows "sorted_keys ord (fst (bs ! j))" "fst ` set (fst (bs ! j)) \<subseteq> A"
proof -
  have "concat (map fst bs) = concat (map fst (take j bs)) @ fst (bs ! j) @ concat (map fst (drop (Suc j) bs))"
    using arg_cong [OF id_take_nth_drop [OF j], of "\<lambda>x. concat (map fst x)"]
    by (simp only: map_append concat_append list.map concat.simps)
  then show "sorted_keys ord (fst (bs ! j))" "fst ` set (fst (bs ! j)) \<subseteq> A"
    using openedD(10,11) [OF op] by (auto simp: sorted_keys_def sorted_wrt_append)
qed

lemma seek_block:
  assumes op: "opened E ord A r gs nl bs" and j: "j < length bs" and br: "reads br (fst (bs ! j))" and k: "k \<in> A"
  shows "seek_and_iter br k (reader_compare r) =
    (let es = fst (bs ! j); i = below ord es k in
     Inr (i < length es \<and> ord (fst (es ! i)) k = Equal, \<lparr>bi_offset = offset_of es i, bi_index = i\<rparr>))"
  using seek_sorted [where c = "reader_compare r", OF br openedD(3) [OF op] block_sorted(2) [OF op j] k block_sorted(1) [OF op j]
      compare_ok [OF openedD(2) [OF op] _ k]]
  by (simp add: Let_def)

lemma sorted_keys_dropWhile: "sorted_keys ord gs \<Longrightarrow> sorted_keys ord (dropWhile P gs)"
  unfolding dropWhile_eq_drop sorted_keys_def by (rule sorted_wrt_drop)

lemma dropWhile_from:
  assumes tot: "total_cmp ord A" and f: "f \<in> A"
  shows "sorted_keys ord gs \<Longrightarrow> fst ` set gs \<subseteq> A \<Longrightarrow>
    \<forall>g \<in> set (dropWhile (\<lambda>g. ord (fst g) f = Less) gs). ord (fst g) f \<noteq> Less"
proof (induction gs)
  case (Cons g gs)
  show ?case
  proof (cases "ord (fst g) f = Less")
    case False
    have "ord (fst x) f \<noteq> Less" if "x \<in> set gs" for x
    proof
      assume lt: "ord (fst x) f = Less"
      have "ord (fst g) (fst x) = Less" "fst g \<in> A" "fst x \<in> A"
        using Cons.prems that by (auto simp: sorted_keys_def)
      then show False using total_cmp.less_le_trans [OF tot _ _ f, of "fst g" "fst x"] lt False by simp
    qed
    then show ?thesis using False by auto
  next
    case True
    have "sorted_keys ord gs" "fst ` set gs \<subseteq> A" using Cons.prems by (auto simp: sorted_keys_def)
    then show ?thesis using Cons.IH unfolding dropWhile.simps if_P [OF True] by blast
  qed
qed simp

lemma rows_where_dropWhile:
  "(\<And>g. g \<in> set gs \<Longrightarrow> Q (fst g) \<Longrightarrow> \<not> P (fst g)) \<Longrightarrow>
   rows_where P (dropWhile (\<lambda>g. Q (fst g)) gs) = rows_where P gs"
  by (induction gs) auto

lemma range_scan_rows:
  assumes op: "opened E ord A r gs nl bs" and ft: "f \<in> A" "t \<in> A"
  shows "snd (range_scan ord f t fi ti (dropWhile (\<lambda>g. ord (fst g) f = Less) gs))
    = rows_where (in_key_range ord f t fi ti) gs"
proof -
  let ?gs = "dropWhile (\<lambda>g. ord (fst g) f = Less) gs"
  note tot = openedD(3) [OF op] and s = openedD(6) [OF op] and A = openedD(4) [OF op]
  have A': "fst ` set ?gs \<subseteq> A" using A set_dropWhileD by fast
  have "snd (range_scan ord f t fi ti ?gs) = rows_where (in_key_range ord f t fi ti) ?gs"
    by (rule range_scan_sorted [OF tot ft(2) sorted_keys_dropWhile [OF s] A' dropWhile_from [OF tot ft(1) s A]])
  also have "\<dots> = rows_where (in_key_range ord f t fi ti) gs"
    by (rule rows_where_dropWhile) (simp add: in_key_range_def)
  finally show ?thesis .
qed

text \<open>Empty ranges select nothing.\<close>

lemma empty_range:
  assumes tot: "total_cmp ord A" and A: "f \<in> A" "t \<in> A" "k \<in> A"
    and e: "ord f t = Greater \<or> ord f t = Equal \<and> (\<not> fi \<or> \<not> ti)"
  shows "\<not> in_key_range ord f t fi ti k"
proof -
  have "ord k f = Less \<or> ord k t = Greater" if "ord f t = Greater"
  proof (rule disjCI)
    assume "ord k t \<noteq> Greater"
    moreover have "ord t f = Less" using that total_cmp.cmp_flip [OF tot A(1,2)] by simp
    ultimately show "ord k f = Less" using total_cmp.le_less_trans [OF tot A(3,2,1)] by blast
  qed
  moreover have "ord k f = ord k t" if "ord f t = Equal"
    using total_cmp.equal_trans [OF tot A that] total_cmp.cmp_flip [OF tot A(3,1)] total_cmp.cmp_flip [OF tot A(3,2)]
    by (cases "ord k f"; cases "ord k t") auto
  ultimately show ?thesis using e by (auto simp: in_key_range_def)
qed

lemma empty_treemap: "env_ok E \<Longrightarrow> rows_in (env_roaring E) (treemap_new (env_roaring E)) = {}"
  unfolding env_ok_def using roaring_okD(1) by blast

lemma range_query_correct:
  assumes op: "opened E ord A r gs nl bs" and ft: "f \<in> A" "t \<in> A"
  shows "achieves (reader_inv E L r nl files) (range_query E L r f t fi ti)
    (\<lambda>rows. rows_in (env_roaring E) rows = rows_where (in_key_range ord f t fi ti) gs)"
proof (cases "ord f t = Greater \<or> ord f t = Equal \<and> (\<not> fi \<or> \<not> ti)")
  case True
  have "rows_where (in_key_range ord f t fi ti) gs = {}"
    using empty_range [OF openedD(3) [OF op] ft _ True] openedD(4) [OF op] by (intro rows_where_empty) blast
  then show ?thesis
    using True compare_ok [OF openedD(2) [OF op] ft] empty_treemap [OF openedD(1) [OF op]]
    by (auto simp: range_query_def)
next
  case False
  note E = openedD(1) [OF op] and c = openedD(2) [OF op]
  define j where "j = below ord (map index_entry bs) f"
  have jle: "j \<le> length bs" using below_le [of ord "map index_entry bs" f] by (simp add: j_def)
  obtain found where ix: "seek_and_iter (ir_index_block r) f (reader_compare r) = Inr (found, index_at bs j)"
    using seek_index [OF op ft(1)] by (auto simp: j_def)
  let ?P = "\<lambda>e. ord (fst e) f = Less" and ?posts = "posts (env_roaring E) (ir_file_version r)"
  define gs' where "gs' = dropWhile ?P gs"
  have p: "list_all2 ?posts (dropWhile ?P (concat (map fst bs))) gs'"
    using posts_dropWhile [OF openedD(8) [OF op]] by (simp add: gs'_def)
  have rows: "snd (range_scan ord f t fi ti gs') = rows_where (in_key_range ord f t fi ti) gs"
    unfolding gs'_def by (rule range_scan_rows [OF op ft])
  note sb = seek_blocks [OF openedD(3) [OF op] ft(1) openedD(10,11,9) [OF op] j_def]
  note start = range_query_def [of E L r f t fi ti] compare_ok [OF c ft] ix index_next [OF op jle]
  show ?thesis
  proof (cases "j < length bs")
    case jF: False
    then have "gs' = []" using p sb by simp
    then show ?thesis using rows empty_treemap [OF E] False jF by (auto simp: start)
  next
    case True
    let ?es = "fst (bs ! j)"
    define i where "i = below ord ?es f"
    obtain br where br: "read_block_at E (ir_file r) (snd (bs ! j)) = Inr br" "reads br ?es"
      using opened_block(2) [OF op True] by blast
    obtain g1 g2 where g: "gs' = g1 @ g2" and p1: "list_all2 ?posts (drop i ?es) g1"
      and p2: "list_all2 ?posts (concat (map fst (drop (Suc j) bs))) g2"
      using p sb True by (auto simp: list_all2_append1 i_def drop_below)
    have sub: "set gs' \<subseteq> set gs" by (auto simp: gs'_def dest: set_dropWhileD)
    have g1A: "fst ` set g1 \<subseteq> A" "\<forall>g \<in> set g1. list_all in_i64 (snd g)"
      using openedD(4,7) [OF op] sub g by auto
    obtain rows1 where s1: "scan_block E r br f t fi ti (offset_of ?es i) (treemap_new (env_roaring E))
          = Inr (fst (range_scan ord f t fi ti g1), rows1)"
      and r1: "rows_in (env_roaring E) rows1 = snd (range_scan ord f t fi ti g1)"
      using scan_block_correct [OF E c ft br(2), of i g1 fi ti "treemap_new (env_roaring E)"] p1 g1A
        below_le [of ord ?es f] empty_treemap [OF E] by (auto simp: i_def)
    obtain b where seek: "seek_and_iter br f (reader_compare r)
        = Inr (b, \<lparr>bi_offset = offset_of ?es i, bi_index = i\<rparr>)"
      using seek_block [OF op True br(2) ft(1)] by (simp add: Let_def i_def)
    have "achieves (reader_inv E L r nl files)
        (if fst (range_scan ord f t fi ti g1) then act_return rows1
         else range_blocks E L r f t fi ti (index_at bs (Suc j)) rows1)
        (\<lambda>rows. rows_in (env_roaring E) rows = rows_where (in_key_range ord f t fi ti) gs)"
      using range_blocks_correct [OF op ft, of "Suc j" g2 L files fi ti rows1] True p2 sub
      unfolding rows [symmetric] by (auto simp: g r1 range_scan_append)
    then have "achieves (reader_inv E L r nl files)
        (act_then (lift_result (seek_and_iter br f (reader_compare r))) (\<lambda>(_, seeked).
           act_then (lift_result (scan_block E r br f t fi ti (bi_offset seeked) (treemap_new (env_roaring E))))
             (\<lambda>(finished, rows). if finished then act_return rows
                else range_blocks E L r f t fi ti (index_at bs (Suc j)) rows)))
        (\<lambda>rows. rows_in (env_roaring E) rows = rows_where (in_key_range ord f t fi ti) gs)"
      by (simp add: seek s1)
    then show ?thesis
      unfolding start achieves_lift_then if_not_P [OF False] prod.case if_P [OF True] option.case
      using opened_block(1) [OF op True]
      by (cases "index_entry (bs ! j)") (auto intro!: achieves_then [OF read_data_block_achieves [OF br(1)]])
  qed
qed

section \<open>Point queries\<close>

abbreviation (input) equal_rows :: "(bytes \<Rightarrow> bytes \<Rightarrow> ordering) \<Rightarrow> (bytes \<times> int list) list \<Rightarrow> bytes \<Rightarrow> int set" where
  "equal_rows ord gs k \<equiv> rows_where (\<lambda>x. ord x k = Equal) gs"

text \<open>Among sorted groups that start at the lower bound of a key, only the first can have that key.\<close>

lemma equal_rows_first:
  assumes tot: "total_cmp ord A" and k: "k \<in> A" and "sorted_keys ord (g # gs)" "fst ` set (g # gs) \<subseteq> A"
    "ord (fst g) k \<noteq> Less"
  shows "equal_rows ord (g # gs) k = (if ord (fst g) k = Equal then set (snd g) else {})"
proof -
  have "ord (fst x) k \<noteq> Equal" if x: "x \<in> set gs" for x
  proof -
    have A: "fst g \<in> A" "fst x \<in> A" and lt: "ord (fst g) (fst x) = Less"
      using assms(3,4) x by (auto simp: sorted_keys_def)
    have "ord k (fst g) \<noteq> Greater" using assms(5) total_cmp.cmp_flip [OF tot A(1) k] by auto
    then have "ord k (fst x) = Less" using total_cmp.le_less_trans [OF tot k A] lt by blast
    then show ?thesis using total_cmp.cmp_flip [OF tot k A(2)] by simp
  qed
  then have "equal_rows ord gs k = {}" by (intro rows_where_empty) blast
  then show ?thesis by simp
qed

lemma lookup_absent:
  assumes op: "opened E ord A r gs nl bs" and k: "k \<in> A" and j: "\<not> below ord (map index_entry bs) k < length bs"
  shows "equal_rows ord gs k = {}"
proof -
  let ?P = "\<lambda>e. ord (fst e) k = Less"
  have d: "dropWhile ?P (concat (map fst bs)) = []"
    using seek_blocks [OF openedD(3) [OF op] k openedD(10,11,9) [OF op] refl] j by simp
  have "dropWhile ?P gs = []"
    using posts_dropWhile [OF openedD(8) [OF op], of "\<lambda>x. ord x k = Less"] unfolding d list_all2_Nil .
  then show ?thesis by (intro rows_where_empty) auto
qed

lemma lookup_in_block_correct:
  assumes op: "opened E ord A r gs nl bs" and k: "k \<in> A"
    and j: "j = below ord (map index_entry bs) k" "j < length bs" and br: "reads br (fst (bs ! j))"
  shows "\<exists>rows'. lookup_in_block E r br k rows = Inr rows'
    \<and> rows_in (env_roaring E) rows' = rows_in (env_roaring E) rows \<union> equal_rows ord gs k"
proof -
  let ?P = "\<lambda>e. ord (fst e) k = Less" and ?es = "fst (bs ! j)" and ?posts = "posts (env_roaring E) (ir_file_version r)"
  note tot = openedD(3) [OF op]
  define i where "i = below ord ?es k"
  define gs' where "gs' = dropWhile ?P gs"
  have sb: "dropWhile ?P (concat (map fst bs)) = drop i ?es @ concat (map fst (drop (Suc j) bs))" "drop i ?es \<noteq> []"
    using seek_blocks [OF tot k openedD(10,11,9) [OF op] j(1)] j(2) unfolding i_def drop_below by simp_all
  have i: "i < length ?es" using sb(2) by simp
  have "drop i ?es = ?es ! i # drop (Suc i) ?es" using i by (simp add: Cons_nth_drop_Suc)
  moreover have "list_all2 ?posts (dropWhile ?P (concat (map fst bs))) gs'"
    using posts_dropWhile [OF openedD(8) [OF op], of "\<lambda>x. ord x k = Less"] by (simp add: gs'_def)
  ultimately obtain g gr where g: "gs' = g # gr" and pg: "?posts (?es ! i) g"
    unfolding sb(1) by (auto simp: list_all2_Cons1)
  have sub: "set gs' \<subseteq> set gs" by (auto simp: gs'_def dest: set_dropWhileD)
  have gA: "fst ` set (g # gr) \<subseteq> A" "list_all in_i64 (snd g)" using openedD(4,7) [OF op] sub g by auto
  have ge: "ord (fst g) k \<noteq> Less"
    using dropWhile_from [OF tot k openedD(6,4) [OF op]] unfolding gs'_def [symmetric] g by simp
  have "equal_rows ord gs k = equal_rows ord gs' k"
    unfolding gs'_def using rows_where_dropWhile [of gs "\<lambda>x. ord x k = Less" "\<lambda>x. ord x k = Equal"] by simp
  also have "\<dots> = (if ord (fst g) k = Equal then set (snd g) else {})"
    using equal_rows_first [OF tot k _ gA(1) ge] sorted_keys_dropWhile [OF openedD(6) [OF op], of ?P] g
    by (simp add: gs'_def)
  finally have rows: "equal_rows ord gs k = (if ord (fst g) k = Equal then set (snd g) else {})" .
  have seek: "seek_and_iter br k (reader_compare r)
      = Inr (ord (fst g) k = Equal, \<lparr>bi_offset = offset_of ?es i, bi_index = i\<rparr>)"
    using seek_block [OF op j(2) br k] i pg by (simp add: Let_def i_def posts_def)
  have nxt: "iter_next br \<lparr>bi_offset = offset_of ?es i, bi_index = i\<rparr>
      = Inr (Some (?es ! i), \<lparr>bi_offset = offset_of ?es (Suc i), bi_index = Suc i\<rparr>)"
    using iter_next_reads [OF br, of i] i by simp
  show ?thesis
    using add_posting [OF openedD(1) [OF op] pg gA(2), of rows]
    by (cases "?es ! i") (auto simp: lookup_in_block_def seek nxt rows)
qed

section \<open>Bounds and Bloom filter\<close>

lemma keys_in_bounds:
  assumes tot: "total_cmp ord A" and "sorted_keys ord gs" "fst ` set gs \<subseteq> A" "g \<in> set gs"
  shows "ord (fst g) (fst (hd gs)) \<noteq> Less" "ord (fst g) (fst (last gs)) \<noteq> Greater"
proof -
  obtain i where i: "i < length gs" "g = gs ! i" using assms(4) by (auto simp: in_set_conv_nth)
  have A: "fst (gs ! x) \<in> A" if "x < length gs" for x using assms(3) that by force
  have lt: "ord (fst (gs ! a)) (fst (gs ! b)) = Less" if "a < b" "b < length gs" for a b
    using sorted_wrt_nth_less [of "\<lambda>a b. ord (fst a) (fst b) = Less" gs a b] assms(2) that
    by (simp add: sorted_keys_def)
  have ne: "gs \<noteq> []" "0 < length gs" using i by auto
  show "ord (fst g) (fst (hd gs)) \<noteq> Less"
    using lt [of 0 i] i A [OF i(1)] A [OF ne(2)] total_cmp.cmp_refl [OF tot] total_cmp.cmp_flip [OF tot, of "fst (gs ! 0)" "fst (gs ! i)"]
    by (cases "i = 0") (auto simp: hd_conv_nth [OF ne(1)])
  show "ord (fst g) (fst (last gs)) \<noteq> Greater"
    using lt [of i "length gs - 1"] i A [OF i(1)] total_cmp.cmp_refl [OF tot]
    by (cases "i = length gs - 1") (auto simp: last_conv_nth [OF ne(1)])
qed

lemma list_ne_if_mem: "x \<in> set xs \<Longrightarrow> xs \<noteq> []"
  by auto

lemma ends_in: "fst ` set gs \<subseteq> A \<Longrightarrow> gs \<noteq> [] \<Longrightarrow> fst (hd gs) \<in> A \<and> fst (last gs) \<in> A"
  using hd_in_set [of gs] last_in_set [of gs] by blast

lemma outside_bounds_absent:
  assumes op: "opened E ord A r gs nl bs" and k: "k \<in> A"
    and out: "gs = [] \<or> ord k (fst (hd gs)) = Less \<or> ord k (fst (last gs)) = Greater"
  shows "equal_rows ord gs k = {}"
proof (rule rows_where_empty)
  fix g assume g: "g \<in> set gs"
  note tot = openedD(3) [OF op] and A = openedD(4) [OF op]
  note b = keys_in_bounds [OF tot openedD(6,4) [OF op] g]
  have gA: "fst g \<in> A" "fst (hd gs) \<in> A" "fst (last gs) \<in> A"
    using g A ends_in [OF A] list_ne_if_mem [OF g] by auto
  show "ord (fst g) k \<noteq> Equal"
  proof
    assume "ord (fst g) k = Equal"
    then have "ord (fst g) x = ord k x" if "x \<in> A" for x using total_cmp.equal_trans [OF tot gA(1) k that] by blast
    then show False using b out gA g by auto
  qed
qed

lemma load_bloom_ok:
  assumes op: "opened E ord A r gs nl bs" and h: "ir_bloom_filter r = Some h"
  shows "\<exists>f. load_bloom E r h = Inr f \<and> (\<forall>k \<in> fst ` set gs. bf_test_hash f (hash_bytes k))"
proof -
  have st: "bloom_stored E (ir_file r) (Some h) (fst ` set gs)" and small: "int (length (ir_file r)) \<le> i32_max"
    using op h by (auto simp: opened_def)
  then have b: "0 \<le> bfh_offset h" "0 < bfh_size h" "bfh_expected_entries h \<noteq> 0"
    "bfh_offset h + bfh_size h \<le> int (length (ir_file r))"
    by (auto simp: bloom_stored_def bloom_handle_ok_def int_range_simps)
  have "checked_add_u64 (bfh_offset h) (bfh_size h) = Some (bfh_offset h + bfh_size h)"
    using b small by (simp add: checked_add_u64_def int_range_simps)
  moreover have "read_range E (ir_file r) (bfh_offset h) (bfh_offset h + bfh_size h)
      = Inr (file_range (ir_file r) (bfh_offset h) (bfh_size h))"
    using storage_read_ok [OF openedD(1) [OF op], of "bfh_offset h" "bfh_offset h + bfh_size h"] b by simp
  moreover have "int (length (file_range (ir_file r) (bfh_offset h) (bfh_size h))) = bfh_size h"
    using b by (simp add: file_range_def)
  ultimately show ?thesis
    using st b by (auto simp: load_bloom_def bloom_stored_def ok_or_def)
qed

lemma bloom_achieves:
  assumes op: "opened E ord A r gs nl bs"
  shows "achieves (reader_inv E L r nl files) (bloom_might_contain E r k) (\<lambda>b. k \<in> fst ` set gs \<longrightarrow> b)"
proof (cases "ir_bloom_filter r")
  case None
  then show ?thesis by (auto simp: bloom_might_contain_def)
next
  case (Some h)
  obtain f where f: "load_bloom E r h = Inr f" "\<forall>k \<in> fst ` set gs. bf_test_hash f (hash_bytes k)"
    using load_bloom_ok [OF op Some] by blast
  have "achieves (reader_inv E L r nl files)
      (State (\<lambda>s. case rs_bloom s of Some f \<Rightarrow> (Inr f, s)
         | None \<Rightarrow> (case load_bloom E r h of Inl e \<Rightarrow> (Inl e, s) | Inr f \<Rightarrow> (Inr f, s\<lparr>rs_bloom := Some f\<rparr>))))
      (\<lambda>x. x = f)"
    using f(1) Some by (auto simp: achieves_def reader_inv_def split: option.splits)
  then show ?thesis
    unfolding bloom_might_contain_def Some option.case by (rule achieves_then) (use f(2) in auto)
qed

lemma query_equal_correct:
  assumes op: "opened E ord A r gs nl bs" and k: "k \<in> A"
  shows "achieves (reader_inv E L r nl files) (query_equal E L r k)
    (\<lambda>rows. rows_in (env_roaring E) rows = equal_rows ord gs k)"
proof -
  note E = openedD(1) [OF op] and c = openedD(2) [OF op]
  define outside where "outside \<longleftrightarrow> gs = [] \<or> ord k (fst (hd gs)) = Less \<or> ord k (fst (last gs)) = Greater"
  have bounds: "(case ir_min_key r of None \<Rightarrow> Inr True
      | Some lo \<Rightarrow> and_then (reader_compare r k lo) (\<lambda>d. if d = Less then Inr True
          else case ir_max_key r of None \<Rightarrow> Inr True
             | Some hi \<Rightarrow> and_then (reader_compare r k hi) (\<lambda>d. Inr (d = Greater)))) = Inr outside"
    using openedD(12,13) [OF op] compare_ok [OF c k] ends_in [OF openedD(4) [OF op]] by (simp add: outside_def)
  define j where "j = below ord (map index_entry bs) k"
  have jle: "j \<le> length bs" using below_le [of ord "map index_entry bs" k] by (simp add: j_def)
  obtain found where ix: "seek_and_iter (ir_index_block r) k (reader_compare r) = Inr (found, index_at bs j)"
    using seek_index [OF op k] by (auto simp: j_def)
  have found: "achieves (reader_inv E L r nl files)
      (act_then (lift_result (iter_next (ir_index_block r) (index_at bs j))) (\<lambda>(entry, _).
         case entry of None \<Rightarrow> act_return (treemap_new (env_roaring E))
         | Some (_, handle_bytes) \<Rightarrow>
             act_then (lift_result (handle_decode handle_bytes)) (\<lambda>h.
               act_then (read_data_block E L r h) (\<lambda>block.
                 lift_result (lookup_in_block E r block k (treemap_new (env_roaring E)))))))
      (\<lambda>rows. rows_in (env_roaring E) rows = equal_rows ord gs k)"
  proof (cases "j < length bs")
    case False
    then have "equal_rows ord gs k = {}" using lookup_absent [OF op k] by (simp add: j_def)
    then show ?thesis
      using empty_treemap [OF E] False by (auto simp: index_next [OF op jle])
  next
    case True
    obtain br where br: "read_block_at E (ir_file r) (snd (bs ! j)) = Inr br" "reads br (fst (bs ! j))"
      using opened_block(2) [OF op True] by blast
    obtain rows' where "lookup_in_block E r br k (treemap_new (env_roaring E)) = Inr rows'"
      "rows_in (env_roaring E) rows' = equal_rows ord gs k"
      using lookup_in_block_correct [OF op k j_def True br(2), of "treemap_new (env_roaring E)"]
        empty_treemap [OF E] by auto
    then have "achieves (reader_inv E L r nl files)
        (act_then (read_data_block E L r (snd (bs ! j))) (\<lambda>block.
           lift_result (lookup_in_block E r block k (treemap_new (env_roaring E)))))
        (\<lambda>rows. rows_in (env_roaring E) rows = equal_rows ord gs k)"
      by (intro achieves_then [OF read_data_block_achieves [OF br(1)]]) (auto intro: achieves_lift)
    then show ?thesis
      using opened_block(1) [OF op True]
      by (cases "index_entry (bs ! j)") (simp add: index_next [OF op jle] True)
  qed
  have absent: "equal_rows ord gs k = {}" if "k \<notin> fst ` set gs"
    using that c openedD(4) [OF op] k unfolding key_order_def by (intro rows_where_empty) (metis image_eqI subsetD)
  show ?thesis
    unfolding query_equal_def bounds achieves_lift_then
    using outside_bounds_absent [OF op k] empty_treemap [OF E] found absent
    by (auto simp: outside_def ix intro!: achieves_then [OF bloom_achieves [OF op]])
qed

end
