(* ===== verification/Btree_Queries.thy ===== *)
theory Btree_Queries
  imports Btree_Reader_Laws
begin

text \<open>
  The remaining queries of an opened reader: one-sided ranges, prefixes, sets of keys, inequality, scans
  and the null bitmap.
\<close>

section \<open>One-sided ranges\<close>

lemma rows_where_opened:
  assumes "opened E ord A r gs nl bs" "\<And>k. k \<in> fst ` set gs \<Longrightarrow> P k = Q k"
  shows "rows_where P gs = rows_where Q gs"
  using assms(2) by (intro rows_where_cong) blast

lemma opened_bounds:
  assumes op: "opened E ord A r gs nl bs" and k: "k \<in> fst ` set gs"
  shows "ord k (fst (hd gs)) \<noteq> Less" "ord k (fst (last gs)) \<noteq> Greater"
  using keys_in_bounds [OF openedD(3,6,4) [OF op]] k by auto

lemma all_non_null_correct:
  assumes op: "opened E ord A r gs nl bs"
  shows "achieves (reader_inv E L r nl files) (all_non_null_rows E L r)
    (\<lambda>rows. rows_in (env_roaring E) rows = rows_where (\<lambda>_. True) gs)"
proof (cases "gs = []")
  case True
  then show ?thesis
    using openedD(12) [OF op] empty_treemap [OF openedD(1) [OF op]] by (auto simp: all_non_null_rows_def)
next
  case False
  have "rows_where (in_key_range ord (fst (hd gs)) (fst (last gs)) True True) gs = rows_where (\<lambda>_. True) gs"
    using opened_bounds [OF op] by (intro rows_where_opened [OF op]) (simp add: in_key_range_def)
  then show ?thesis
    using range_query_correct [OF op, of "fst (hd gs)" "fst (last gs)" L files True True]
      ends_in [OF openedD(4) [OF op] False] openedD(12,13) [OF op] False
    by (simp add: all_non_null_rows_def)
qed

lemma below_queries_correct:
  assumes op: "opened E ord A r gs nl bs" and k: "k \<in> A"
  shows "achieves (reader_inv E L r nl files) (query_less_than E L r k)
      (\<lambda>rows. rows_in (env_roaring E) rows = rows_where (\<lambda>x. ord x k = Less) gs)"
    and "achieves (reader_inv E L r nl files) (query_less_or_equal E L r k)
      (\<lambda>rows. rows_in (env_roaring E) rows = rows_where (\<lambda>x. ord x k \<noteq> Greater) gs)"
proof -
  have eq: "rows_where (in_key_range ord (fst (hd gs)) k True False) gs = rows_where (\<lambda>x. ord x k = Less) gs"
    "rows_where (in_key_range ord (fst (hd gs)) k True True) gs = rows_where (\<lambda>x. ord x k \<noteq> Greater) gs"
    using opened_bounds [OF op] by (intro rows_where_opened [OF op]; simp add: in_key_range_def)+
  note q = range_query_correct [OF op _ k, of "fst (hd gs)" L files]
  show "achieves (reader_inv E L r nl files) (query_less_than E L r k)
      (\<lambda>rows. rows_in (env_roaring E) rows = rows_where (\<lambda>x. ord x k = Less) gs)"
    "achieves (reader_inv E L r nl files) (query_less_or_equal E L r k)
      (\<lambda>rows. rows_in (env_roaring E) rows = rows_where (\<lambda>x. ord x k \<noteq> Greater) gs)"
    using q [of True False] q [of True True] eq ends_in [OF openedD(4) [OF op]] openedD(12) [OF op]
      empty_treemap [OF openedD(1) [OF op]]
    by (cases "gs = []"; auto simp: query_less_than_def query_less_or_equal_def)+
qed

lemma above_queries_correct:
  assumes op: "opened E ord A r gs nl bs" and k: "k \<in> A"
  shows "achieves (reader_inv E L r nl files) (query_greater_than E L r k)
      (\<lambda>rows. rows_in (env_roaring E) rows = rows_where (\<lambda>x. ord x k = Greater) gs)"
    and "achieves (reader_inv E L r nl files) (query_greater_or_equal E L r k)
      (\<lambda>rows. rows_in (env_roaring E) rows = rows_where (\<lambda>x. ord x k \<noteq> Less) gs)"
proof -
  have eq: "rows_where (in_key_range ord k (fst (last gs)) False True) gs = rows_where (\<lambda>x. ord x k = Greater) gs"
    "rows_where (in_key_range ord k (fst (last gs)) True True) gs = rows_where (\<lambda>x. ord x k \<noteq> Less) gs"
    using opened_bounds [OF op] by (intro rows_where_opened [OF op]; simp add: in_key_range_def)+
  note q = range_query_correct [OF op k, of "fst (last gs)" L files]
  show "achieves (reader_inv E L r nl files) (query_greater_than E L r k)
      (\<lambda>rows. rows_in (env_roaring E) rows = rows_where (\<lambda>x. ord x k = Greater) gs)"
    "achieves (reader_inv E L r nl files) (query_greater_or_equal E L r k)
      (\<lambda>rows. rows_in (env_roaring E) rows = rows_where (\<lambda>x. ord x k \<noteq> Less) gs)"
    using q [of False True] q [of True True] eq ends_in [OF openedD(4) [OF op]] openedD(13) [OF op]
      empty_treemap [OF openedD(1) [OF op]]
    by (cases "gs = []"; auto simp: query_greater_than_def query_greater_or_equal_def)+
qed

section \<open>Prefixes\<close>

text \<open>Keys compared as unsigned bytes: a prefix selects exactly the range up to its successor.\<close>

lemma prefix_of_max:
  "replicate n (0xFF :: byte) \<le> k \<longleftrightarrow> prefix (replicate n 0xFF) k"
proof (induction n arbitrary: k)
  case (Suc n)
  have "(0xFF :: byte) = - 1" by simp
  then have top: "b \<le> 0xFF" for b :: byte by (metis word_order.extremum)
  show ?case
  proof (cases k)
    case (Cons b k')
    then show ?thesis using Suc [of k'] top [of b] by auto
  qed simp
qed simp

lemma successor_rev_cases:
  "(successor_rev p = None \<and> p = replicate (length p) 0xFF) \<or>
   (\<exists>n b q. p = replicate n 0xFF @ b # q \<and> b \<noteq> 0xFF \<and> successor_rev p = Some (rev q @ [b + 1]))"
proof (induction p)
  case (Cons x p)
  show ?case
  proof (cases "x = 0xFF")
    case True
    from Cons show ?thesis
    proof (elim disjE exE conjE)
      fix n b q assume "p = replicate n 0xFF @ b # q" "b \<noteq> 0xFF" "successor_rev p = Some (rev q @ [b + 1])"
      then show ?thesis using True by (intro disjI2 exI [of _ "Suc n"] exI [of _ b] exI [of _ q]) simp
    qed (use True in simp)
  next
    case False
    then show ?thesis by (intro disjI2 exI [of _ 0] exI [of _ x] exI [of _ p]) simp
  qed
qed simp

lemma prefix_range:
  fixes k :: bytes
  assumes "b \<noteq> 0xFF"
  shows "q @ b # replicate n 0xFF \<le> k \<and> k < q @ [b + 1] \<longleftrightarrow> prefix (q @ b # replicate n 0xFF) k"
proof (induction q arbitrary: k)
  case Nil
  have "1 + b \<noteq> 0"
  proof
    assume "1 + b = 0"
    then have "b = - 1" by (simp add: eq_neg_iff_add_eq_0 add.commute)
    then show False using assms by simp
  qed
  then have "unat (b + 1) = Suc (unat b)" using unatSuc [of b] by (simp add: add.commute)
  then have step: "c < b + 1 \<longleftrightarrow> c \<le> b" "b < b + 1" for c
    by (auto simp: word_less_nat_alt word_le_nat_alt)
  show ?case
  proof (cases k)
    case (Cons c k')
    have "b # replicate n 0xFF \<le> k \<longleftrightarrow> b < c \<or> b = c \<and> replicate n 0xFF \<le> k'" using Cons by simp
    moreover have "k < [b + 1] \<longleftrightarrow> c \<le> b" using Cons step(1) [of c] by simp
    moreover have "prefix (b # replicate n 0xFF) k \<longleftrightarrow> b = c \<and> prefix (replicate n 0xFF) k'" using Cons by simp
    moreover have "(b < c \<or> b = c \<and> X) \<and> c \<le> b \<longleftrightarrow> b = c \<and> X" for X by auto
    ultimately show ?thesis unfolding append_Nil prefix_of_max by blast
  qed simp
next
  case (Cons x q)
  show ?case
  proof (cases k)
    case (Cons y k')
    have "(x # q) @ b # replicate n 0xFF \<le> k \<longleftrightarrow> x < y \<or> x = y \<and> q @ b # replicate n 0xFF \<le> k'"
      using Cons by simp
    moreover have "k < (x # q) @ [b + 1] \<longleftrightarrow> y < x \<or> y = x \<and> k' < q @ [b + 1]" using Cons by simp
    moreover have "prefix ((x # q) @ b # replicate n 0xFF) k \<longleftrightarrow> x = y \<and> prefix (q @ b # replicate n 0xFF) k'"
      using Cons by simp
    ultimately show ?thesis using Cons.IH [of k'] less_asym by metis
  qed simp
qed

lemma prefix_successor_correct:
  "case prefix_successor p of
     Some u \<Rightarrow> (\<forall>k. (p \<le> k \<and> k < u) \<longleftrightarrow> prefix p k)
   | None \<Rightarrow> (\<forall>k. p \<le> k \<longleftrightarrow> prefix p k)"
proof -
  from successor_rev_cases [of "rev p"] show ?thesis
  proof (elim disjE exE conjE)
    assume n: "successor_rev (rev p) = None" and "rev p = replicate (length (rev p)) 0xFF"
    then have "p = replicate (length p) 0xFF" by (metis length_rev rev_replicate rev_rev_ident)
    then show ?thesis using n prefix_of_max [of "length p"] by (simp add: prefix_successor_def)
  next
    fix n b q assume p: "rev p = replicate n 0xFF @ b # q" and b: "b \<noteq> 0xFF"
      and s: "successor_rev (rev p) = Some (rev q @ [b + 1])"
    have "p = rev q @ b # replicate n 0xFF" using arg_cong [OF p, of rev] by simp
    then show ?thesis using s prefix_range [OF b, of "rev q" n] by (simp add: prefix_successor_def)
  qed
qed

lemma query_prefix_correct:
  assumes op: "opened E cmp UNIV r gs nl bs"
  shows "achieves (reader_inv E L r nl files) (query_prefix E L r p)
    (\<lambda>rows. rows_in (env_roaring E) rows = rows_where (prefix p) gs)"
proof (cases "prefix_successor p")
  case None
  then have "p \<le> k \<longleftrightarrow> prefix p k" for k using prefix_successor_correct [of p] by simp
  then have "rows_where (\<lambda>x. cmp x p \<noteq> Less) gs = rows_where (prefix p) gs"
    by (intro rows_where_opened [OF op]) (simp add: not_less)
  then show ?thesis using above_queries_correct(2) [OF op, of p L files] None by (simp add: query_prefix_def)
next
  case (Some u)
  then have "p \<le> k \<and> k < u \<longleftrightarrow> prefix p k" for k using prefix_successor_correct [of p] by simp
  then have "in_key_range cmp p u True False k \<longleftrightarrow> prefix p k" for k
    by (simp add: in_key_range_def not_less)
  then have "rows_where (in_key_range cmp p u True False) gs = rows_where (prefix p) gs"
    by (intro rows_where_opened [OF op]) blast
  then show ?thesis using range_query_correct [OF op, of p u L files True False] Some by (simp add: query_prefix_def)
qed

section \<open>Sets of keys\<close>

lemma filter_in_bounds_eq:
  assumes c: "key_order (ir_key_comparator r) ord A" and lh: "lo \<in> A" "hi \<in> A"
  shows "set keys \<subseteq> A \<Longrightarrow>
    filter_in_bounds r lo hi keys = Inr (filter (\<lambda>k. ord k lo \<noteq> Less \<and> ord k hi \<noteq> Greater) keys)"
  by (induction keys) (use compare_ok [OF c _ lh(1)] compare_ok [OF c _ lh(2)] in auto)

lemma try_sort_by_eq:
  assumes c: "\<And>x y. x \<in> A \<Longrightarrow> y \<in> A \<Longrightarrow> c x y = Inr (ord x y)"
  shows "set xs \<subseteq> A \<Longrightarrow> try_sort_by c xs = Inr (sort_by ord xs)"
proof (induction xs)
  case (Cons x xs)
  have "set ys \<subseteq> A \<Longrightarrow> try_insort_by c x ys = Inr (insort_by ord x ys)" for ys
    using c Cons.prems by (induction ys) auto
  then show ?case using Cons by simp
qed simp

lemma dedup_keys_laws:
  assumes c: "key_order (ir_key_comparator r) ord A"
  shows "set us \<union> set ks \<subseteq> A \<Longrightarrow> sorted_wrt (\<lambda>a b. ord a b \<noteq> Greater) (us @ ks) \<Longrightarrow>
    \<exists>us'. dedup_keys r us ks = Inr us' \<and> set us' = set us \<union> set ks \<and> sorted_wrt (\<lambda>a b. ord a b \<noteq> Greater) us'"
proof (induction ks arbitrary: us)
  case (Cons k ks)
  define us1 where "us1 = (if us \<noteq> [] \<and> ord (last us) k = Equal then us else us @ [k])"
  have lastA: "us \<noteq> [] \<Longrightarrow> last us \<in> A" "k \<in> A" using Cons.prems(1) last_in_set [of us] by auto
  have "dedup_keys r us (k # ks) = dedup_keys r us1 ks"
    using compare_ok [OF c _ lastA(2)] lastA(1) by (simp add: us1_def)
  moreover have "us \<noteq> [] \<and> ord (last us) k = Equal \<Longrightarrow> k = last us"
    using c lastA unfolding key_order_def by metis
  then have "set us1 = set us \<union> {k}" using last_in_set [of us] by (auto simp: us1_def)
  moreover have "sorted_wrt (\<lambda>a b. ord a b \<noteq> Greater) (us1 @ ks)"
    using Cons.prems(2) by (auto simp: us1_def sorted_wrt_append)
  ultimately show ?case using Cons.IH [of us1] Cons.prems(1) by auto
qed simp

lemma bloom_filter_keys_achieves:
  assumes op: "opened E ord A r gs nl bs"
  shows "sorted_wrt P ks \<Longrightarrow> achieves (reader_inv E L r nl files) (bloom_filter_keys E r ks)
    (\<lambda>ks'. set ks' \<subseteq> set ks \<and> set ks \<inter> fst ` set gs \<subseteq> set ks' \<and> sorted_wrt P ks')"
proof (induction ks)
  case (Cons k ks)
  then have "achieves (reader_inv E L r nl files) (bloom_filter_keys E r ks)
    (\<lambda>ks'. set ks' \<subseteq> set ks \<and> set ks \<inter> fst ` set gs \<subseteq> set ks' \<and> sorted_wrt P ks')" by simp
  then show ?case
    unfolding bloom_filter_keys.simps
    by (rule achieves_then [OF bloom_achieves [OF op, of L files k] achieves_then])
       (use Cons.prems in \<open>(auto intro!: achieves_return), blast+\<close>)
qed auto

text \<open>A later key resolves to the same or a later block.\<close>

lemma below_mono:
  assumes tot: "total_cmp ord A" and A: "fst ` set es \<subseteq> A" "k \<in> A" "k' \<in> A" and le: "ord k k' \<noteq> Greater"
  shows "below ord es k \<le> below ord es k'"
proof -
  have "ord (fst e) k' = Less" if "e \<in> set es" "ord (fst e) k = Less" for e
    using total_cmp.less_le_trans [OF tot _ A(2,3) that(2) le] A(1) that(1) by auto
  then have "takeWhile (\<lambda>e. ord (fst e) k = Less) es
      = takeWhile (\<lambda>e. ord (fst e) k = Less) (takeWhile (\<lambda>e. ord (fst e) k' = Less) es)"
    by (induction es) auto
  then show ?thesis unfolding below_def by (metis length_takeWhile_le)
qed

text \<open>The target blocks: each key stands with the handle of the block it resolves to.\<close>

definition targets_ok :: "(bytes \<Rightarrow> bytes \<Rightarrow> ordering) \<Rightarrow> bytes set \<Rightarrow> ((bytes \<times> bytes) list \<times> block_handle) list
    \<Rightarrow> (block_handle \<times> bytes list) list \<Rightarrow> bool" where
  "targets_ok ord A bs ts \<longleftrightarrow> (\<forall>(h, ks) \<in> set ts. \<forall>k \<in> set ks. k \<in> A
     \<and> below ord (map index_entry bs) k < length bs \<and> snd (bs ! below ord (map index_entry bs) k) = h)"

definition target_keys :: "(block_handle \<times> bytes list) list \<Rightarrow> bytes set" where
  "target_keys ts = \<Union> (set ` snd ` set ts)"

lemma add_target:
  assumes ts: "targets_ok ord A bs ts" and k: "k \<in> A" "below ord (map index_entry bs) k < length bs"
    "snd (bs ! below ord (map index_entry bs) k) = h"
  shows "targets_ok ord A bs (if ts \<noteq> [] \<and> fst (last ts) = h then butlast ts @ [(h, snd (last ts) @ [k])] else ts @ [(h, [k])])
    \<and> target_keys (if ts \<noteq> [] \<and> fst (last ts) = h then butlast ts @ [(h, snd (last ts) @ [k])] else ts @ [(h, [k])])
        = insert k (target_keys ts)"
proof (cases "ts \<noteq> [] \<and> fst (last ts) = h")
  case True
  then obtain ts0 ks where t: "ts = ts0 @ [(h, ks)]" by (cases ts rule: rev_cases) auto
  then show ?thesis using ts k by (auto simp: targets_ok_def target_keys_def)
next
  case False
  then show ?thesis using ts k by (auto simp: targets_ok_def target_keys_def)
qed

lemma resolve_blocks_laws:
  assumes op: "opened E ord A r gs nl bs"
  shows "set ks \<subseteq> A \<Longrightarrow> sorted_wrt (\<lambda>a b. ord a b \<noteq> Greater) ks \<Longrightarrow> targets_ok ord A bs ts \<Longrightarrow>
    \<exists>ts'. resolve_blocks r ts ks = Inr ts' \<and> targets_ok ord A bs ts'
      \<and> target_keys ts' \<subseteq> target_keys ts \<union> set ks \<and> target_keys ts \<subseteq> target_keys ts'
      \<and> (\<forall>k \<in> set ks. k \<notin> target_keys ts' \<longrightarrow> equal_rows ord gs k = {})"
proof (induction ks arbitrary: ts)
  case (Cons k ks)
  let ?j = "below ord (map index_entry bs) k"
  have k: "k \<in> A" "set ks \<subseteq> A" using Cons.prems(1) by auto
  obtain found where ix: "seek_and_iter (ir_index_block r) k (reader_compare r) = Inr (found, index_at bs ?j)"
    using seek_index [OF op k(1)] by blast
  have jle: "?j \<le> length bs" using below_le [of ord "map index_entry bs" k] by simp
  show ?case
  proof (cases "?j < length bs")
    case True
    let ?h = "snd (bs ! ?j)"
    define ts1 where "ts1 = (if ts \<noteq> [] \<and> fst (last ts) = ?h then butlast ts @ [(?h, snd (last ts) @ [k])]
      else ts @ [(?h, [k])])"
    have t1: "targets_ok ord A bs ts1" "target_keys ts1 = insert k (target_keys ts)"
      using add_target [OF Cons.prems(3) k(1) True refl] unfolding ts1_def by blast+
    have "resolve_blocks r ts (k # ks) = resolve_blocks r ts1 ks"
      using opened_block(1) [OF op True] index_next [OF op jle] True ix
      by (cases "index_entry (bs ! ?j)") (simp add: ts1_def)
    then show ?thesis using Cons.IH [OF k(2) _ t1(1)] Cons.prems(2) t1(2) by auto
  next
    case False
    have eq: "resolve_blocks r ts (k # ks) = Inr ts" using index_next [OF op jle] False ix by simp
    have "equal_rows ord gs x = {}" if x: "x \<in> set (k # ks)" for x
    proof (rule lookup_absent [OF op])
      show xA: "x \<in> A" using x Cons.prems(1) by blast
      have "ord k x \<noteq> Greater"
        using x Cons.prems(2) total_cmp.cmp_refl [OF openedD(3) [OF op] k(1)] by auto
      moreover have "fst ` set (map index_entry bs) \<subseteq> A"
        using index_sorted(2) [OF openedD(10,9) [OF op]] openedD(11) [OF op] by blast
      ultimately have "?j \<le> below ord (map index_entry bs) x"
        using below_mono [OF openedD(3) [OF op] _ k(1) xA] by blast
      then show "\<not> below ord (map index_entry bs) x < length bs" using False by simp
    qed
    then show ?thesis using eq Cons.prems(3) by blast
  qed
qed auto

lemma lookup_all_correct:
  assumes op: "opened E ord A r gs nl bs" and b: "read_block_at E (ir_file r) h = Inr br"
  shows "\<forall>k \<in> set ks. k \<in> A \<and> below ord (map index_entry bs) k < length bs
      \<and> snd (bs ! below ord (map index_entry bs) k) = h \<Longrightarrow>
    \<exists>rows'. lookup_all E r br ks rows = Inr rows'
      \<and> rows_in (env_roaring E) rows' = rows_in (env_roaring E) rows \<union> (\<Union>k \<in> set ks. equal_rows ord gs k)"
proof (induction ks arbitrary: rows)
  case (Cons k ks)
  let ?j = "below ord (map index_entry bs) k"
  have k: "k \<in> A" "?j < length bs" "snd (bs ! ?j) = h" using Cons.prems by auto
  have "reads br (fst (bs ! ?j))" using opened_block(2) [OF op k(2)] b unfolding k(3) by simp
  then obtain rows1 where r1: "lookup_in_block E r br k rows = Inr rows1"
    "rows_in (env_roaring E) rows1 = rows_in (env_roaring E) rows \<union> equal_rows ord gs k"
    using lookup_in_block_correct [OF op k(1) refl k(2)] by blast
  obtain rows2 where "lookup_all E r br ks rows1 = Inr rows2"
    "rows_in (env_roaring E) rows2 = rows_in (env_roaring E) rows1 \<union> (\<Union>k \<in> set ks. equal_rows ord gs k)"
    using Cons.IH [of rows1] Cons.prems by auto
  then show ?case using r1 by auto
qed simp

lemma lookup_blocks_correct:
  assumes op: "opened E ord A r gs nl bs"
  shows "targets_ok ord A bs ts \<Longrightarrow> \<forall>t \<in> set ts. snd t \<noteq> [] \<Longrightarrow>
    achieves (reader_inv E L r nl files) (lookup_blocks E L r ts rows)
      (\<lambda>rows'. rows_in (env_roaring E) rows' = rows_in (env_roaring E) rows \<union> (\<Union>k \<in> target_keys ts. equal_rows ord gs k))"
proof (induction ts arbitrary: rows)
  case (Cons t ts)
  obtain h ks where t: "t = (h, ks)" by (cases t)
  have ks: "\<forall>k \<in> set ks. k \<in> A \<and> below ord (map index_entry bs) k < length bs
      \<and> snd (bs ! below ord (map index_entry bs) k) = h" and ne: "ks \<noteq> []"
    using Cons.prems by (auto simp: targets_ok_def t)
  have hd: "below ord (map index_entry bs) (hd ks) < length bs" "snd (bs ! below ord (map index_entry bs) (hd ks)) = h"
    using ks hd_in_set [OF ne] by blast+
  obtain br where br: "read_block_at E (ir_file r) h = Inr br"
    using opened_block(2) [OF op hd(1)] unfolding hd(2) by blast
  obtain rows1 where r1: "lookup_all E r br ks rows = Inr rows1"
    "rows_in (env_roaring E) rows1 = rows_in (env_roaring E) rows \<union> (\<Union>k \<in> set ks. equal_rows ord gs k)"
    using lookup_all_correct [OF op br ks] by blast
  have "achieves (reader_inv E L r nl files) (lookup_blocks E L r ts rows1)
      (\<lambda>rows'. rows_in (env_roaring E) rows' = rows_in (env_roaring E) rows \<union> (\<Union>k \<in> target_keys (t # ts). equal_rows ord gs k))"
  proof (rule achieves_weaken [OF Cons.IH])
    show "targets_ok ord A bs ts" "\<forall>t \<in> set ts. snd t \<noteq> []" using Cons.prems by (auto simp: targets_ok_def)
  qed (simp add: r1(2) t target_keys_def Un_assoc)
  then show ?case
    unfolding t lookup_blocks.simps
    by (intro achieves_then [OF read_data_block_achieves [OF br]]) (simp add: r1(1))
qed (auto simp: target_keys_def)

text \<open>Resolving keeps every target nonempty.\<close>

lemma resolve_blocks_nonempty:
  "resolve_blocks r ts ks = Inr ts' \<Longrightarrow> \<forall>t \<in> set ts. snd t \<noteq> [] \<Longrightarrow> \<forall>t \<in> set ts'. snd t \<noteq> []"
proof (induction r ts ks rule: resolve_blocks.induct)
  case (2 r ts k ks)
  obtain b it where s: "seek_and_iter (ir_index_block r) k (reader_compare r) = Inr (b, it)"
    using 2(2) by (auto simp: result_simps)
  obtain e it' where n: "iter_next (ir_index_block r) it = Inr (e, it')" using 2(2) by (auto simp: result_simps s)
  show ?case
  proof (cases e)
    case None
    then show ?thesis using 2(2,3) by (simp add: s n)
  next
    case (Some kv)
    then obtain x hb h where h: "kv = (x, hb)" "handle_decode hb = Inr h"
      using 2(2) by (cases kv) (auto simp: s n result_simps)
    let ?ts = "if ts \<noteq> [] \<and> fst (last ts) = h then butlast ts @ [(h, snd (last ts) @ [k])] else ts @ [(h, [k])]"
    have "resolve_blocks r ?ts ks = Inr ts'" using 2(2) Some h by (simp add: s n)
    moreover have "\<forall>t \<in> set ?ts. snd t \<noteq> []" using 2(3) by (auto dest: in_set_butlastD)
    ultimately show ?thesis by (rule 2(1) [OF Some h(1) [symmetric]])
  qed
qed simp

lemma in_rows_union: "rows_where (\<lambda>x. \<exists>k \<in> K. ord x k = Equal) gs = (\<Union>k \<in> K. equal_rows ord gs k)"
  by (auto simp: rows_where_def)

lemma absent_rows:
  assumes op: "opened E ord A r gs nl bs" and k: "k \<notin> fst ` set gs" "k \<in> A"
  shows "equal_rows ord gs k = {}"
  using k openedD(2,4) [OF op] unfolding key_order_def by (intro rows_where_empty) (metis image_eqI subsetD)

lemma resolved_lookup:
  assumes op: "opened E ord A r gs nl bs" and usA: "set us \<subseteq> A"
    and bm: "set bm \<subseteq> set us \<and> set us \<inter> fst ` set gs \<subseteq> set bm \<and> sorted_wrt (\<lambda>a b. ord a b \<noteq> Greater) bm"
  shows "achieves (reader_inv E L r nl files) (if bm = [] then act_return (treemap_new (env_roaring E))
        else act_then (lift_result (resolve_blocks r [] bm)) (\<lambda>ts. lookup_blocks E L r ts (treemap_new (env_roaring E))))
      (\<lambda>rows. rows_in (env_roaring E) rows = (\<Union>k \<in> set us. equal_rows ord gs k))"
proof -
  have bmA: "set bm \<subseteq> A" using bm usA by blast
  have "targets_ok ord A bs []" by (simp add: targets_ok_def)
  from resolve_blocks_laws [OF op bmA _ this] bm obtain ts where
    ts: "resolve_blocks r [] bm = Inr ts" "targets_ok ord A bs ts" "target_keys ts \<subseteq> set bm"
    "\<forall>k \<in> set bm. k \<notin> target_keys ts \<longrightarrow> equal_rows ord gs k = {}"
    by (auto simp: target_keys_def)
  have ne: "\<forall>t \<in> set ts. snd t \<noteq> []" using resolve_blocks_nonempty [OF ts(1)] by simp
  have eq: "(\<Union>k \<in> set us. equal_rows ord gs k) = (\<Union>k \<in> target_keys ts. equal_rows ord gs k)"
  proof (intro equalityI UN_least)
    fix k assume k: "k \<in> set us"
    show "equal_rows ord gs k \<subseteq> (\<Union>k \<in> target_keys ts. equal_rows ord gs k)"
    proof (cases "k \<in> target_keys ts")
      case False
      then have "equal_rows ord gs k = {}" using k bm ts(4) absent_rows [OF op] usA by (cases "k \<in> fst ` set gs") blast+
      then show ?thesis by simp
    qed blast
  qed (use ts(3) bm in blast)
  show ?thesis
  proof (cases "bm = []")
    case True
    then have "target_keys ts = {}" using ts(3) by simp
    then show ?thesis using True eq empty_treemap [OF openedD(1) [OF op]] by auto
  next
    case False
    then show ?thesis
      using lookup_blocks_correct [OF op ts(2) ne, of L files "treemap_new (env_roaring E)"] eq
        empty_treemap [OF openedD(1) [OF op]] by (simp add: ts(1))
  qed
qed

lemma query_in_correct:
  assumes op: "opened E ord A r gs nl bs" and keys: "set keys \<subseteq> A"
  shows "achieves (reader_inv E L r nl files) (query_in E L r keys)
    (\<lambda>rows. rows_in (env_roaring E) rows = rows_where (\<lambda>x. \<exists>k \<in> set keys. ord x k = Equal) gs)"
proof (cases "gs = [] \<or> keys = []")
  case True
  then show ?thesis
    using openedD(12,13) [OF op] empty_treemap [OF openedD(1) [OF op]]
    by (auto simp: query_in_def Let_def in_rows_union rows_where_def split: option.split)
next
  case False
  note c = openedD(2) [OF op] and tot = openedD(3) [OF op]
  let ?I = "reader_inv E L r nl files" and ?le = "\<lambda>a b. ord a b \<noteq> Greater"
    and ?in = "\<lambda>k. ord k (fst (hd gs)) \<noteq> Less \<and> ord k (fst (last gs)) \<noteq> Greater"
  have mm: "ir_min_key r = Some (fst (hd gs))" "ir_max_key r = Some (fst (last gs))"
    "fst (hd gs) \<in> A" "fst (last gs) \<in> A"
    using openedD(12,13) [OF op] False ends_in [OF openedD(4) [OF op]] by auto
  define ks where "ks = filter ?in keys"
  have ksA: "set ks \<subseteq> A" using keys by (auto simp: ks_def)
  have f: "filter_in_bounds r (fst (hd gs)) (fst (last gs)) keys = Inr ks"
    unfolding ks_def by (rule filter_in_bounds_eq [OF c mm(3,4) keys])
  have so: "try_sort_by (reader_compare r) ks = Inr (sort_by ord ks)"
    using try_sort_by_eq [of A "reader_compare r" ord ks] compare_ok [OF c] ksA by blast
  obtain us where us: "dedup_keys r [] (sort_by ord ks) = Inr us" "set us = set ks" "sorted_wrt ?le us"
    using dedup_keys_laws [OF c, of "[]" "sort_by ord ks"] total_cmp.sorted_sort_by [OF tot ksA] ksA by auto
  have goal: "rows_where (\<lambda>x. \<exists>k \<in> set keys. ord x k = Equal) gs = (\<Union>k \<in> set us. equal_rows ord gs k)"
    using outside_bounds_absent [OF op] keys unfolding in_rows_union us(2) ks_def by fastforce
  have "achieves ?I (act_then (bloom_filter_keys E r us) (\<lambda>bm. if bm = [] then act_return (treemap_new (env_roaring E))
        else act_then (lift_result (resolve_blocks r [] bm)) (\<lambda>ts. lookup_blocks E L r ts (treemap_new (env_roaring E)))))
      (\<lambda>rows. rows_in (env_roaring E) rows = (\<Union>k \<in> set us. equal_rows ord gs k))"
    using us(2) ksA by (intro achieves_then [OF bloom_filter_keys_achieves [OF op us(3)] resolved_lookup [OF op]]) auto
  then show ?thesis
    using False mm(1,2) empty_treemap [OF openedD(1) [OF op]] unfolding goal
    by (cases "us = []") (auto simp: query_in_def Let_def f so us(1))
qed

section \<open>Inequality, scans and nulls\<close>

lemma query_not_equal_correct:
  assumes op: "opened E ord A r gs nl bs" and k: "k \<in> A"
  shows "achieves (reader_inv E L r nl files) (query_not_equal E L r k)
    (\<lambda>rows. rows_in (env_roaring E) rows = rows_where (\<lambda>_. True) gs - equal_rows ord gs k)"
proof -
  have R: "roaring_ok (env_roaring E)" using openedD(1) [OF op] by (simp add: env_ok_def)
  show ?thesis
    unfolding query_not_equal_def
    by (rule achieves_then [OF all_non_null_correct [OF op] achieves_then [OF query_equal_correct [OF op k]]])
       (auto simp: roaring_okD(6) [OF R])
qed

lemma scan_matching_correct:
  assumes E: "env_ok E" and br: "reads br es"
  shows "i \<le> length es \<Longrightarrow> list_all2 (posts (env_roaring E) (ir_file_version r)) (drop i es) gs \<Longrightarrow>
    \<forall>g \<in> set gs. list_all in_i64 (snd g) \<Longrightarrow>
    \<exists>rows'. scan_matching E r P br (offset_of es i) rows = Inr rows'
      \<and> rows_in (env_roaring E) rows' = rows_in (env_roaring E) rows \<union> rows_where P gs"
proof (induction gs arbitrary: i rows)
  case Nil
  then have "i = length es" by simp
  then show ?case using br by (simp add: scan_matching.simps [of E r P br] reads_def)
next
  case (Cons g gs)
  obtain e es' where d: "drop i es = e # es'" and g: "posts (env_roaring E) (ir_file_version r) e g"
    and rest: "list_all2 (posts (env_roaring E) (ir_file_version r)) es' gs"
    using Cons.prems(2) by (auto simp: list_all2_Cons2)
  have i: "i < length es" using d Cons.prems(1) by (cases "i < length es") auto
  have e: "es ! i = e" "drop (Suc i) es = es'" using d i by (metis Cons_nth_drop_Suc list.inject)+
  have entry: "read_entry_at br (offset_of es i) = Inr (fst g, snd e, offset_of es (Suc i))"
    using reads_entry(1) [OF br i] e g by (simp add: posts_def)
  have lt: "offset_of es i < length (br_data br)" using br offset_of_less [OF i] by (simp add: reads_def)
  obtain rows1 where r1: "add_to (env_roaring E) (snd e) (ir_file_version r) rows = Inr rows1"
    "rows_in (env_roaring E) rows1 = rows_in (env_roaring E) rows \<union> set (snd g)"
    using add_posting [OF E g, of rows] Cons.prems(3) by auto
  have IH: "\<exists>rows'. scan_matching E r P br (offset_of es (Suc i)) rows0 = Inr rows'
      \<and> rows_in (env_roaring E) rows' = rows_in (env_roaring E) rows0 \<union> rows_where P gs" for rows0
    using Cons.IH [of "Suc i" rows0] i rest Cons.prems e by simp
  show ?case
    using IH [of rows] IH [of rows1]
    by (auto simp: scan_matching.simps [of E r P br "offset_of es i"] lt entry r1 Un_assoc)
qed

lemma scan_all_blocks_correct:
  assumes op: "opened E ord A r gs nl bs"
  shows "j \<le> length bs \<Longrightarrow> list_all2 (posts (env_roaring E) (ir_file_version r)) (concat (map fst (drop j bs))) gs' \<Longrightarrow>
    set gs' \<subseteq> set gs \<Longrightarrow>
    achieves (reader_inv E L r nl files) (scan_all_blocks E L r P (index_at bs j) rows)
      (\<lambda>rows'. rows_in (env_roaring E) rows' = rows_in (env_roaring E) rows \<union> rows_where P gs')"
proof (induction "length bs - j" arbitrary: j gs' rows)
  case 0
  then show ?case
    using index_next [OF op, of j] by (auto simp: scan_all_blocks.simps [of E L r])
next
  case (Suc n)
  have j: "j < length bs" using Suc.hyps(2) by simp
  obtain br where br: "read_block_at E (ir_file r) (snd (bs ! j)) = Inr br" "reads br (fst (bs ! j))"
    using opened_block(2) [OF op j] by blast
  have "drop j bs = bs ! j # drop (Suc j) bs" using j by (simp add: Cons_nth_drop_Suc)
  then obtain g1 g2 where g: "gs' = g1 @ g2" and p1: "list_all2 (posts (env_roaring E) (ir_file_version r)) (fst (bs ! j)) g1"
    and p2: "list_all2 (posts (env_roaring E) (ir_file_version r)) (concat (map fst (drop (Suc j) bs))) g2"
    using Suc.prems(2) by (auto simp: list_all2_append1)
  have "\<forall>g \<in> set g1. list_all in_i64 (snd g)" using openedD(7) [OF op] Suc.prems(3) g by auto
  then obtain rows1 where s1: "scan_matching E r P br 0 rows = Inr rows1"
    and r1: "rows_in (env_roaring E) rows1 = rows_in (env_roaring E) rows \<union> rows_where P g1"
    using scan_matching_correct [OF openedD(1) [OF op] br(2), of 0 r g1 P rows] p1 by auto
  have "achieves (reader_inv E L r nl files) (scan_all_blocks E L r P (index_at bs (Suc j)) rows1)
      (\<lambda>rows'. rows_in (env_roaring E) rows' = rows_in (env_roaring E) rows \<union> rows_where P gs')"
    using Suc.hyps(1) [of "Suc j" g2 rows1] Suc.hyps(2) j p2 Suc.prems(3) by (simp add: g r1 Un_assoc)
  then show ?case
    using j index_next [OF op, of j] opened_block(1) [OF op j]
    by (auto simp: scan_all_blocks.simps [of E L r] s1 split: prod.split
        intro!: achieves_then [OF read_data_block_achieves [OF br(1)]])
qed

lemma scan_entries_correct:
  assumes op: "opened E ord A r gs nl bs"
  shows "achieves (reader_inv E L r nl files) (scan_entries E L r P)
    (\<lambda>rows. rows_in (env_roaring E) rows = rows_where P gs)"
proof (cases "gs = []")
  case True
  then show ?thesis
    using openedD(12) [OF op] empty_treemap [OF openedD(1) [OF op]] by (auto simp: scan_entries_def)
next
  case False
  let ?k = "fst (hd gs)"
  have k: "?k \<in> A" using ends_in [OF openedD(4) [OF op] False] by simp
  have "ord (fst e) ?k \<noteq> Less" if "e \<in> set (map index_entry bs)" for e
  proof -
    have "fst ` set (map index_entry bs) \<subseteq> fst ` set gs"
      using index_sorted(2) [OF openedD(10,9) [OF op]] posts_keys [OF openedD(8) [OF op]] by (metis list.set_map)
    then show ?thesis using opened_bounds(1) [OF op, of "fst e"] that by blast
  qed
  then have "below ord (map index_entry bs) ?k = 0"
    by (cases "map index_entry bs") (auto simp: below_def)
  then obtain found where "seek_and_iter (ir_index_block r) ?k (reader_compare r) = Inr (found, index_at bs 0)"
    using seek_index [OF op k] by auto
  then show ?thesis
    using scan_all_blocks_correct [OF op, of 0 gs L files P "treemap_new (env_roaring E)"] openedD(8,12) [OF op] False
      empty_treemap [OF openedD(1) [OF op]]
    by (simp add: scan_entries_def)
qed

lemma null_bitmap_correct:
  assumes op: "opened E ord A r gs nl bs"
  shows "achieves (reader_inv E L r nl files) (null_bitmap E r) (\<lambda>rows. rows_in (env_roaring E) rows = nl)"
proof -
  note E = openedD(1) [OF op]
  have R: "roaring_ok (env_roaring E)" and K: "codecs_ok (env_codecs E)" using E by (simp_all add: env_ok_def)
  have st: "null_stored E (ir_file r) (ir_null_bitmap_handle r) nl" and small: "int (length (ir_file r)) \<le> i32_max"
    using op by (simp_all add: opened_def)
  have "\<exists>bm. (case ir_null_bitmap_handle r of Some h \<Rightarrow> read_null_bitmap E (ir_file r) h
      | None \<Rightarrow> Inr (treemap_new (env_roaring E))) = Inr bm \<and> rows_in (env_roaring E) bm = nl"
  proof (cases "ir_null_bitmap_handle r")
    case None
    then show ?thesis using st empty_treemap [OF E] by (simp add: null_stored_def)
  next
    case (Some h)
    let ?ser = "treemap_serialize_into (env_roaring E)"
    obtain t where t: "built (env_roaring E) t" "rows_in (env_roaring E) t = nl" "handle_size h = int (length (?ser t))"
      "file_range (ir_file r) (handle_offset h) (handle_size h + 4) = ?ser t @ to_le 4 (crc32 (env_codecs E) (?ser t))"
      and h: "0 \<le> handle_offset h" "handle_offset h + handle_size h + 4 \<le> int (length (ir_file r))"
      using st Some by (auto simp: null_stored_def handle_ok_def int_range_simps)
    have u: "u64_add (u64_add (handle_offset h) (handle_size h)) 4 = handle_offset h + (handle_size h + 4)"
      using h small t(3) by (simp add: int_range_simps)
    have rd: "read_range E (ir_file r) (handle_offset h) (handle_offset h + (handle_size h + 4))
        = Inr (?ser t @ to_le 4 (crc32 (env_codecs E) (?ser t)))"
      using storage_read_ok [OF E, of "handle_offset h" "handle_offset h + (handle_size h + 4)" "ir_file r"] h t(3,4) by simp
    have crc: "from_le (to_le 4 (crc32 (env_codecs E) (?ser t))) = crc32 (env_codecs E) (?ser t)"
      using K by (simp add: from_to_le codecs_ok_def)
    obtain t' where "treemap_deserialize_from (env_roaring E) (?ser t) = Inr t'" "rows_in (env_roaring E) t' = nl"
      using roaring_okD(11) [OF R t(1)] t(2) by auto
    then show ?thesis
      unfolding Some option.case read_null_bitmap_def u rd
      using t(3) by (simp add: verify_null_bitmap_crc_def crc Let_def)
  qed
  then show ?thesis
    by (auto simp: achieves_def null_bitmap_def reader_inv_def split: option.splits)
qed

end
