(* ===== verification/Btree_Index.thy ===== *)
theory Btree_Index
  imports Btree_Queries
begin

text \<open>
  The index as a whole: what was written is what the queries of a reader return, whatever the block size,
  compression, file version, Bloom filter setting and state of the shared cache.
\<close>

text \<open>The rows of the input whose non-null key is selected.\<close>

definition key_rows :: "(bytes \<Rightarrow> bool) \<Rightarrow> (bytes option \<times> int) list \<Rightarrow> int set" where
  "key_rows P ins = {row. \<exists>k. (Some k, row) \<in> set ins \<and> P k}"

lemma key_rows_simps [simp]:
  "key_rows P [] = {}"
  "key_rows P ((None, row) # ins) = key_rows P ins"
  "key_rows P ((Some k, row) # ins) = (if P k then insert row (key_rows P ins) else key_rows P ins)"
  by (auto simp: key_rows_def)

lemma mem_keyed: "(k, row) \<in> set (keyed ins) \<longleftrightarrow> (Some k, row) \<in> set ins"
  by (induction ins rule: induct_list012) (auto simp: keyed_def split: option.splits)

lemma mem_spread: "(k, row) \<in> set (spread gs) \<longleftrightarrow> (\<exists>rs. (k, rs) \<in> set gs \<and> row \<in> set rs)"
  by (auto simp: spread_def)

lemma rows_where_key_rows:
  assumes "spread gs = keyed ins"
  shows "rows_where P gs = key_rows P ins"
  unfolding key_rows_def mem_keyed [symmetric] assms [symmetric] mem_spread rows_where_def by force

lemma posts_list_nonempty: "list_all2 (posts R v) es gs \<Longrightarrow> \<forall>g \<in> set gs. snd g \<noteq> []"
  by (induction rule: list_all2_induct) (auto dest: posts_nonempty)

lemma cache_of_new: "lru_ok L \<Longrightarrow> 2 * max_bytes \<le> usize_max \<Longrightarrow> cache_of E L files (cache_new L max_bytes)"
  using cache_new_inv by (auto simp: cache_of_def)

lemma reader_inv_cache: "reader_inv E L r nl files s \<Longrightarrow> cache_of E L files (rs_cache s)"
  by (simp add: reader_inv_def)

lemma reader_inv_initial:
  "cache_of E L files c \<Longrightarrow> files (ir_data_block_cache_file r) = ir_file r \<Longrightarrow>
   reader_inv E L r nl files (initial_state c)"
  by (simp add: reader_inv_def initial_state_def)

lemma written_index_opens:
  assumes E: "env_ok E" and c: "key_order c ord A"
    and wr: "write_index E block_size ct lvl bloom c version ins = Inr (content, m, n)"
    and small: "int (length content) \<le> i32_max" and rows: "list_all in_i64 (map snd ins)"
    and A: "fst ` set (keyed ins) \<subseteq> A"
    and sorted: "sorted_wrt (\<lambda>a b. ord (fst a) (fst b) \<noteq> Greater) (keyed ins)"
  shows "\<exists>r gs bs. open_with_data_block_cache E content (int (length content)) m c path = Inr r
    \<and> opened E ord A r gs (set (null_rows ins)) bs \<and> spread gs = keyed ins \<and> ir_file r = content
    \<and> ir_data_block_cache_file r = path"
proof -
  obtain gs f bs where img: "index_image E ord content m gs (set (null_rows ins)) f bs" and sp: "spread gs = keyed ins"
    using write_index_image [OF assms] by blast
  have "\<forall>g \<in> set gs. snd g \<noteq> []"
    using img posts_list_nonempty unfolding index_image_def by blast
  then have "fst ` set gs \<subseteq> A" using fst_spread A sp by metis
  from open_image [OF E c this img, of path] show ?thesis using sp by blast
qed

section \<open>Properties\<close>

text \<open>C2. A B-tree index answers every query with exactly the rows that were written. Take keys in ascending order
  of a comparator, with row ids, null keys among them; write them with any block size, codec, file version
  and Bloom filter setting, and let the file be below 2 GiB. Opening the file succeeds. Its first state on a
  cache that agrees with the files is a state of the reader (\<open>reader_inv\<close>), and in all of these the cache agrees
  with the files (\<open>cache_of\<close>). From every state of the reader, whatever was queried before, each query
  succeeds, leaves a state of the reader, and returns: for a key, the rows of that key; for a range with either
  end open or closed, the rows with keys in it; for a set of keys, the rows of any of them; for inequality, the
  non-null rows without those of the key; for a scan, the rows whose key passes; and the null bitmap holds the
  rows of null keys.\<close>

theorem index_queries_correct:
  assumes "env_ok E" "key_order c ord A"
    and "write_index E block_size ct lvl bloom c version ins = Inr (content, m, n)"
    and "int (length content) \<le> i32_max" "list_all in_i64 (map snd ins)" "fst ` set (keyed ins) \<subseteq> A"
    and "sorted_wrt (\<lambda>a b. ord (fst a) (fst b) \<noteq> Greater) (keyed ins)"
    and "cache_of E L files cache" "files path = content"
  shows "\<exists>r. open_with_data_block_cache E content (int (length content)) m c path = Inr r
    \<and> (let I = reader_inv E L r (set (null_rows ins)) files in
       I (initial_state cache) \<and> (\<forall>s. I s \<longrightarrow> cache_of E L files (rs_cache s))
       \<and> (\<forall>k \<in> A. achieves I (query_equal E L r k)
            (\<lambda>rows. rows_in (env_roaring E) rows = key_rows (\<lambda>x. ord x k = Equal) ins))
       \<and> (\<forall>f \<in> A. \<forall>t \<in> A. \<forall>fi ti. achieves I (range_query E L r f t fi ti)
            (\<lambda>rows. rows_in (env_roaring E) rows = key_rows (in_key_range ord f t fi ti) ins))
       \<and> (\<forall>ks. set ks \<subseteq> A \<longrightarrow> achieves I (query_in E L r ks)
            (\<lambda>rows. rows_in (env_roaring E) rows = key_rows (\<lambda>x. \<exists>k \<in> set ks. ord x k = Equal) ins))
       \<and> (\<forall>k \<in> A. achieves I (query_not_equal E L r k)
            (\<lambda>rows. rows_in (env_roaring E) rows
               = key_rows (\<lambda>_. True) ins - key_rows (\<lambda>x. ord x k = Equal) ins))
       \<and> (\<forall>P. achieves I (scan_entries E L r P) (\<lambda>rows. rows_in (env_roaring E) rows = key_rows P ins))
       \<and> achieves I (null_bitmap E r) (\<lambda>rows. rows_in (env_roaring E) rows = set (null_rows ins)))"
proof -
  obtain r gs bs where r: "open_with_data_block_cache E content (int (length content)) m c path = Inr r"
    and op: "opened E ord A r gs (set (null_rows ins)) bs" and sp: "spread gs = keyed ins"
    and rf: "ir_file r = content" "ir_data_block_cache_file r = path"
    using written_index_opens [OF assms(1-7)] by blast
  have start: "reader_inv E L r (set (null_rows ins)) files (initial_state cache)"
    using assms(8,9) rf by (intro reader_inv_initial) simp_all
  show ?thesis
    unfolding rows_where_key_rows [OF sp, symmetric] Let_def
    by (intro exI [of _ r] conjI ballI allI impI r start query_equal_correct [OF op]
        range_query_correct [OF op] query_in_correct [OF op] query_not_equal_correct [OF op]
        scan_entries_correct [OF op] null_bitmap_correct [OF op]) (rule reader_inv_cache)
qed

text \<open>C3. One-sided comparisons and prefixes over a written index. Under the same conditions, for keys in the order of
  any comparator, the queries for smaller, smaller or equal, greater, greater or equal and all non-null rows
  succeed from every state of the reader, leave one, and return the rows whose key compares so with the literal
  in that order. When that order is the order of unsigned bytes, the prefix query returns the rows whose key
  begins with the prefix, including prefixes that end in bytes 0xFF.\<close>

theorem index_comparisons_correct:
  assumes "env_ok E" "key_order c ord A"
    and "write_index E block_size ct lvl bloom c version ins = Inr (content, m, n)"
    and "int (length content) \<le> i32_max" "list_all in_i64 (map snd ins)" "fst ` set (keyed ins) \<subseteq> A"
    and "sorted_wrt (\<lambda>a b. ord (fst a) (fst b) \<noteq> Greater) (keyed ins)"
    and "cache_of E L files cache" "files path = content"
  shows "\<exists>r. open_with_data_block_cache E content (int (length content)) m c path = Inr r
    \<and> (let I = reader_inv E L r (set (null_rows ins)) files in
       I (initial_state cache) \<and> (\<forall>s. I s \<longrightarrow> cache_of E L files (rs_cache s))
       \<and> (\<forall>k \<in> A.
            achieves I (query_less_than E L r k)
              (\<lambda>rows. rows_in (env_roaring E) rows = key_rows (\<lambda>x. ord x k = Less) ins)
          \<and> achieves I (query_less_or_equal E L r k)
              (\<lambda>rows. rows_in (env_roaring E) rows = key_rows (\<lambda>x. ord x k \<noteq> Greater) ins)
          \<and> achieves I (query_greater_than E L r k)
              (\<lambda>rows. rows_in (env_roaring E) rows = key_rows (\<lambda>x. ord x k = Greater) ins)
          \<and> achieves I (query_greater_or_equal E L r k)
              (\<lambda>rows. rows_in (env_roaring E) rows = key_rows (\<lambda>x. ord x k \<noteq> Less) ins))
       \<and> achieves I (all_non_null_rows E L r) (\<lambda>rows. rows_in (env_roaring E) rows = key_rows (\<lambda>_. True) ins)
       \<and> (ord = cmp \<and> A = UNIV \<longrightarrow> (\<forall>p. achieves I (query_prefix E L r p)
            (\<lambda>rows. rows_in (env_roaring E) rows = key_rows (prefix p) ins))))"
proof -
  obtain r gs bs where r: "open_with_data_block_cache E content (int (length content)) m c path = Inr r"
    and op: "opened E ord A r gs (set (null_rows ins)) bs" and sp: "spread gs = keyed ins"
    and rf: "ir_file r = content" "ir_data_block_cache_file r = path"
    using written_index_opens [OF assms(1-7)] by blast
  let ?I = "reader_inv E L r (set (null_rows ins)) files"
  have start: "?I (initial_state cache)" using assms(8,9) rf by (intro reader_inv_initial) simp_all
  have pre: "achieves ?I (query_prefix E L r p) (\<lambda>rows. rows_in (env_roaring E) rows = rows_where (prefix p) gs)"
    if "ord = cmp \<and> A = UNIV" for p
    using query_prefix_correct [of E r gs "set (null_rows ins)" bs] op that by blast
  show ?thesis
    unfolding rows_where_key_rows [OF sp, symmetric] Let_def
    by (intro exI [of _ r] conjI ballI allI impI r start below_queries_correct [OF op] above_queries_correct [OF op]
        all_non_null_correct [OF op] pre) (auto intro: reader_inv_cache)
qed

definition sample_input :: "(bytes option \<times> int) list" where
  "sample_input = [(Some [5], 3), (None, 4), (Some [5], 7), (Some [9, 1], 2)]"

definition sample_index :: "(bytes \<times> index_meta \<times> int) result" where
  "sample_index = write_index sample_env 8 CompressNone 0 False (\<lambda>a b. Inr (cmp a b)) 2 sample_input"

definition short_result :: "(bytes \<times> index_meta \<times> int) result \<Rightarrow> bool" where
  "short_result r = (case r of Inl _ \<Rightarrow> False | Inr (content, m, n) \<Rightarrow> length content \<le> 1000)"

lemma sample_index_short: "short_result sample_index"
  by code_simp

lemma sample_written:
  obtains content m n where
    "write_index sample_env 8 CompressNone 0 False (\<lambda>a b. Inr (cmp a b)) 2 sample_input = Inr (content, m, n)"
    "int (length content) \<le> i32_max"
  using sample_index_short
  by (auto simp: short_result_def sample_index_def int_range_simps split: sum.splits prod.splits)

lemma bytewise_order: "key_order (\<lambda>a b. Inr (cmp a b)) cmp UNIV"
  by (simp add: key_order_def linorder_cmp.total_cmp_axioms)

lemma sample_cache: "cache_of sample_env list_lru files (cache_new list_lru 64)"
  by (rule cache_of_new [OF list_lru_ok]) simp

theorem index_queries_correct_witness:
  "\<exists>content m n r rows s.
     write_index sample_env 8 CompressNone 0 False (\<lambda>a b. Inr (cmp a b)) 2 sample_input = Inr (content, m, n)
     \<and> open_with_data_block_cache sample_env content (int (length content)) m (\<lambda>a b. Inr (cmp a b)) ''f'' = Inr r
     \<and> run_state (query_in sample_env list_lru r [[9, 1], [5], [6]]) (initial_state (cache_new list_lru 64)) = (Inr rows, s)
     \<and> rows_in list_roaring rows = {2, 3, 7} \<and> cache_of sample_env list_lru (\<lambda>_. content) (rs_cache s)"
proof -
  obtain content m n where w:
    "write_index sample_env 8 CompressNone 0 False (\<lambda>a b. Inr (cmp a b)) 2 sample_input = Inr (content, m, n)"
    "int (length content) \<le> i32_max" by (rule sample_written)
  have ins: "list_all in_i64 (map snd sample_input)" "fst ` set (keyed sample_input) \<subseteq> UNIV"
    "sorted_wrt (\<lambda>a b. cmp (fst a) (fst b) \<noteq> Greater) (keyed sample_input)"
    by (simp_all add: sample_input_def int_range_simps not_less)
  obtain r where
    r: "open_with_data_block_cache sample_env content (int (length content)) m (\<lambda>a b. Inr (cmp a b)) ''f'' = Inr r"
    and I: "reader_inv sample_env list_lru r (set (null_rows sample_input)) (\<lambda>_. content) (initial_state (cache_new list_lru 64))"
    and q: "\<forall>ks. set ks \<subseteq> UNIV \<longrightarrow> achieves (reader_inv sample_env list_lru r (set (null_rows sample_input)) (\<lambda>_. content))
      (query_in sample_env list_lru r ks)
      (\<lambda>rows. rows_in (env_roaring sample_env) rows = key_rows (\<lambda>x. \<exists>k \<in> set ks. cmp x k = Equal) sample_input)"
    using index_queries_correct [OF sample_env_ok bytewise_order w ins sample_cache [of "\<lambda>_. content"] refl, of "''f''"]
    unfolding Let_def by blast
  have "key_rows (\<lambda>x. \<exists>k \<in> set [[9, 1], [5], [6]]. cmp x k = Equal) sample_input = {2, 3, 7}"
    by (auto simp: sample_input_def)
  moreover have "env_roaring sample_env = list_roaring" by (simp add: sample_env_def)
  ultimately show ?thesis
    using achievesD [OF q [rule_format, OF subset_UNIV, of "[[9, 1], [5], [6]]"] I] w(1) r reader_inv_cache by fastforce
qed

end
