(* ===== verification/Key_Serde.thy ===== *)
theory Key_Serde
  imports Variant_Binary Sst_Block_Laws
begin

text \<open>
  \<^verbatim>\<open>crates/paimon/src/btree/key_serde.rs\<close>: how a value becomes the bytes of an index key, and how two keys are
  compared. \<^verbatim>\<open>make_key_comparator\<close> picks a comparator by the type of the column; its arms for scalar types are
  \<open>scalar_key_comparator\<close> here, the arm for rows needs the codec of composite keys and follows there. Comparators
  are fallible, because the bytes of a key may have been written for another type.
\<close>

unbundle bit_operations_syntax

section \<open>Literals\<close>

definition timestamp_compact_precision :: nat where "timestamp_compact_precision = 3"
definition decimal_compact_precision :: nat where "decimal_compact_precision = 18"

text \<open>\<^verbatim>\<open>10i128.checked_pow\<close> and \<^verbatim>\<open>i128::checked_mul\<close>\<close>

definition checked_pow10 :: "nat \<Rightarrow> int option" where
  "checked_pow10 n = (if in_i128 (10 ^ n) then Some (10 ^ n) else None)"

definition checked_mul_i128 :: "int \<Rightarrow> int \<Rightarrow> int option" where
  "checked_mul_i128 a b = (if in_i128 (a * b) then Some (a * b) else None)"

text \<open>
  The rescaling of a decimal literal, \<open>None\<close> for \<^verbatim>\<open>return false\<close>. The remainder of the truncating division is zero
  exactly when the one of \<open>mod\<close> is, and the quotients then agree.
\<close>

definition rescale_literal :: "int \<Rightarrow> nat \<Rightarrow> nat \<Rightarrow> int option" where
  "rescale_literal u scale ty_scale =
     (if u \<noteq> 0 \<and> scale \<noteq> ty_scale then
        (case checked_pow10 (if scale < ty_scale then ty_scale - scale else scale - ty_scale) of
           None \<Rightarrow> None
         | Some factor \<Rightarrow>
             if scale < ty_scale then checked_mul_i128 u factor
             else if u mod factor \<noteq> 0 then None
             else Some (u div factor))
      else Some u)"

text \<open>The literal after the call, and whether the index may be used.\<close>

definition normalize_key_literal :: "datum \<Rightarrow> data_type \<Rightarrow> datum \<times> bool" where
  "normalize_key_literal literal data_type =
     (case (literal, data_type) of
        (DDecimal u p s, TDecimal _ ty_precision ty_scale) \<Rightarrow>
          (case rescale_literal u s ty_scale of
             None \<Rightarrow> (literal, False)
           | Some value \<Rightarrow>
               if ty_precision \<le> decimal_compact_precision \<and> \<not> in_i64 value
               then (DDecimal value p s, False)
               else (DDecimal value ty_precision ty_scale, True))
      | (DTimestamp _ nanos, TTimestamp _ p) \<Rightarrow>
          (literal, 0 \<le> nanos \<and> nanos < 1000000 \<and> (timestamp_compact_precision < p \<or> nanos = 0))
      | (DLocalZonedTimestamp _ nanos, TLocalZonedTimestamp _ p) \<Rightarrow>
          (literal, 0 \<le> nanos \<and> nanos < 1000000 \<and> (timestamp_compact_precision < p \<or> nanos = 0))
      | _ \<Rightarrow> (literal, True))"

section \<open>Keys of a width\<close>

definition fixed_key_bytes :: "nat \<Rightarrow> bytes \<Rightarrow> bytes result" where
  "fixed_key_bytes n key =
     (if length key = n then Inr key else Inl (DataInvalid ''Global index key of another width''))"

definition variable_key_body :: "bytes \<Rightarrow> nat \<Rightarrow> unit result" where
  "variable_key_body key min_len =
     (if length key < min_len then Inl (DataInvalid ''Global index key too short'') else Inr ())"

section \<open>Decimals as Java BigInteger bytes\<close>

text \<open>The loop that drops redundant sign bytes, on the bytes from \<^verbatim>\<open>start\<close> on.\<close>

fun strip_sign :: "bytes \<Rightarrow> bytes" where
  "strip_sign (current # next # rest) =
     (if current = 0x00 \<and> next AND 0x80 = 0 \<or> current = 0xff \<and> next AND 0x80 \<noteq> 0
      then strip_sign (next # rest) else current # next # rest)"
| "strip_sign bs = bs"

definition encode_java_big_integer_i128 :: "int \<Rightarrow> bytes" where
  "encode_java_big_integer_i128 value = strip_sign (to_be 16 value)"

fun big_integer_loop :: "int \<Rightarrow> bytes \<Rightarrow> int" where
  "big_integer_loop value [] = value"
| "big_integer_loop value (b # bs) = big_integer_loop (wrap_signed 128 (push_bit 8 value) OR uint b) bs"

definition decode_java_big_integer_i128 :: "bytes \<Rightarrow> int result" where
  "decode_java_big_integer_i128 bs =
     (if bs = [] \<or> 16 < length bs then Inl (DataInvalid ''cannot be a non-compact DECIMAL key'')
      else Inr (big_integer_loop (if hd bs AND 0x80 \<noteq> 0 then -1 else 0) bs))"

section \<open>Comparators\<close>

text \<open>\<^verbatim>\<open>iN::from_le_bytes(fixed_key_bytes::<W>(a)?).cmp(...)\<close>, the arms of the integers.\<close>

definition compare_le_ints :: "nat \<Rightarrow> key_cmp" where
  "compare_le_ints n a b =
     and_then (fixed_key_bytes n a) (\<lambda>a.
     and_then (fixed_key_bytes n b) (\<lambda>b.
     Inr (cmp (wrap_signed (8 * n) (from_le a)) (wrap_signed (8 * n) (from_le b)))))"

definition f32_of :: "bytes \<Rightarrow> 32 word" where "f32_of bs = word_of_int (from_le bs)"
definition f64_of :: "bytes \<Rightarrow> 64 word" where "f64_of bs = word_of_int (from_le bs)"

definition compare_f32 :: key_cmp where
  "compare_f32 a b =
     and_then (fixed_key_bytes 4 a) (\<lambda>a.
     and_then (fixed_key_bytes 4 b) (\<lambda>b. Inr (cmp (f_total_key (f32_of a)) (f_total_key (f32_of b)))))"

definition compare_f64 :: key_cmp where
  "compare_f64 a b =
     and_then (fixed_key_bytes 8 a) (\<lambda>a.
     and_then (fixed_key_bytes 8 b) (\<lambda>b. Inr (cmp (f_total_key (f64_of a)) (f_total_key (f64_of b)))))"

definition compare_non_compact_timestamps :: key_cmp where
  "compare_non_compact_timestamps a b =
     and_then (variable_key_body a 9) (\<lambda>_.
     and_then (variable_key_body b 9) (\<lambda>_.
     and_then (fixed_key_bytes 8 (take 8 a)) (\<lambda>a_millis.
     and_then (fixed_key_bytes 8 (take 8 b)) (\<lambda>b_millis.
     and_then (try_decode_var_int_from_slice a 8) (\<lambda>(a_nanos, _).
     and_then (try_decode_var_int_from_slice b 8) (\<lambda>(b_nanos, _).
     Inr (then_with (cmp (wrap_signed 64 (from_le a_millis)) (wrap_signed 64 (from_le b_millis)))
            (cmp a_nanos b_nanos))))))))"

definition compare_big_integers :: key_cmp where
  "compare_big_integers a b =
     and_then (decode_java_big_integer_i128 a) (\<lambda>x.
     and_then (decode_java_big_integer_i128 b) (\<lambda>y. Inr (cmp x y)))"

text \<open>The arms of \<^verbatim>\<open>make_key_comparator\<close> for types other than rows, in the order of the source.\<close>

definition scalar_key_comparator :: "data_type \<Rightarrow> key_cmp" where
  "scalar_key_comparator data_type =
     (case data_type of
        TTinyInt _ \<Rightarrow> compare_le_ints 1
      | TSmallInt _ \<Rightarrow> compare_le_ints 2
      | TInt _ \<Rightarrow> compare_le_ints 4
      | TDate _ \<Rightarrow> compare_le_ints 4
      | TTime _ _ \<Rightarrow> compare_le_ints 4
      | TBigInt _ \<Rightarrow> compare_le_ints 8
      | TFloat _ \<Rightarrow> compare_f32
      | TDouble _ \<Rightarrow> compare_f64
      | TTimestamp _ p \<Rightarrow>
          if timestamp_compact_precision < p then compare_non_compact_timestamps else compare_le_ints 8
      | TLocalZonedTimestamp _ p \<Rightarrow>
          if timestamp_compact_precision < p then compare_non_compact_timestamps else compare_le_ints 8
      | TDecimal _ p _ \<Rightarrow>
          if decimal_compact_precision < p then compare_big_integers else compare_le_ints 8
      | _ \<Rightarrow> (\<lambda>a b. Inr (cmp a b)))"

section \<open>Serialization\<close>

definition timestamp_precision_of :: "data_type \<Rightarrow> nat" where
  "timestamp_precision_of data_type =
     (case data_type of TTimestamp _ p \<Rightarrow> p | TLocalZonedTimestamp _ p \<Rightarrow> p | _ \<Rightarrow> 3)"

definition serialize_timestamp :: "int \<Rightarrow> int \<Rightarrow> data_type \<Rightarrow> bytes" where
  "serialize_timestamp millis nanos data_type =
     to_le 8 millis
     @ (if timestamp_compact_precision < timestamp_precision_of data_type then encode_var_int nanos else [])"

text \<open>The \<^verbatim>\<open>expect\<close> on a Variant payload is a panic.\<close>

definition serialize_datum :: "datum \<Rightarrow> data_type \<Rightarrow> bytes result" where
  "serialize_datum datum data_type =
     (case datum of
        DBool v \<Rightarrow> Inr [if v then 1 else 0]
      | DTinyInt v \<Rightarrow> Inr [word_of_int v]
      | DSmallInt v \<Rightarrow> Inr (to_le 2 v)
      | DInt v \<Rightarrow> Inr (to_le 4 v)
      | DDate v \<Rightarrow> Inr (to_le 4 v)
      | DTime v \<Rightarrow> Inr (to_le 4 v)
      | DLong v \<Rightarrow> Inr (to_le 8 v)
      | DFloat v \<Rightarrow> Inr (to_le 4 (uint v))
      | DDouble v \<Rightarrow> Inr (to_le 8 (uint v))
      | DString v \<Rightarrow> Inr (utf8 v)
      | DTimestamp millis nanos \<Rightarrow> Inr (serialize_timestamp millis nanos data_type)
      | DLocalZonedTimestamp millis nanos \<Rightarrow> Inr (serialize_timestamp millis nanos data_type)
      | DDecimal u p _ \<Rightarrow>
          (let key_precision = (case data_type of TDecimal _ q _ \<Rightarrow> q | _ \<Rightarrow> p) in
           if key_precision \<le> decimal_compact_precision then Inr (to_le 8 (wrap_signed 64 u))
           else Inr (encode_java_big_integer_i128 u))
      | DBytes v \<Rightarrow> Inr v
      | DVariant v m \<Rightarrow>
          (case validate_payload v m of
             Inl _ \<Rightarrow> Inl (Panic ''invalid Variant payload for BTree key'')
           | Inr _ \<Rightarrow> Inr (to_le 4 (int (length v)) @ v @ m)))"

text \<open>\<^verbatim>\<open>spec/predicate.rs\<close>: which values belong to which types.\<close>

definition validate_datum_matches_type :: "datum \<Rightarrow> data_type \<Rightarrow> unit result" where
  "validate_datum_matches_type datum data_type =
     (if (case (datum, data_type) of
            (DBool _, TBoolean _) \<Rightarrow> True
          | (DTinyInt _, TTinyInt _) \<Rightarrow> True
          | (DSmallInt _, TSmallInt _) \<Rightarrow> True
          | (DInt _, TInt _) \<Rightarrow> True
          | (DLong _, TBigInt _) \<Rightarrow> True
          | (DFloat _, TFloat _) \<Rightarrow> True
          | (DDouble _, TDouble _) \<Rightarrow> True
          | (DString _, TChar _ _) \<Rightarrow> True
          | (DString _, TVarChar _ _) \<Rightarrow> True
          | (DDate _, TDate _) \<Rightarrow> True
          | (DTime _, TTime _ _) \<Rightarrow> True
          | (DTimestamp _ _, TTimestamp _ _) \<Rightarrow> True
          | (DLocalZonedTimestamp _ _, TLocalZonedTimestamp _ _) \<Rightarrow> True
          | (DDecimal _ _ _, TDecimal _ _ _) \<Rightarrow> True
          | (DBytes _, TBinary _ _) \<Rightarrow> True
          | (DBytes _, TVarBinary _ _) \<Rightarrow> True
          | (DBytes _, TBlob _) \<Rightarrow> True
          | (DVariant _ _, TVariant _) \<Rightarrow> True
          | _ \<Rightarrow> False)
      then Inr () else Inl (ConfigInvalid ''Datum is incompatible with DataType''))"

section \<open>Big integers\<close>

text \<open>The two's complement value of big-endian bytes.\<close>

definition signed_be :: "bytes \<Rightarrow> int" where
  "signed_be bs = (if bs \<noteq> [] \<and> 128 \<le> uint (hd bs) then - (256 ^ length bs) else 0) + from_be bs"

lemma from_le_append: "from_le (xs @ ys) = from_le xs + 256 ^ length xs * from_le ys"
  by (induction xs) (auto simp: algebra_simps)

lemma from_be_Cons: "from_be (b # bs) = uint b * 256 ^ length bs + from_be bs"
  by (simp add: from_be_def from_le_append)

lemma from_be_range: "0 \<le> from_be bs" "from_be bs < 256 ^ length bs"
  using from_le_nonneg [of "rev bs"] from_le_bound [of "rev bs"] by (simp_all add: from_be_def)

lemma uint_byte_range: "0 \<le> uint (b :: byte)" "uint b \<le> 255"
  using uint_byte_lt [of b] uint_ge_0 [of b] by linarith+

lemma signed_be_Cons:
  "signed_be (b # bs) = (uint b - (if 128 \<le> uint b then 256 else 0)) * 256 ^ length bs + from_be bs"
  by (simp add: signed_be_def from_be_Cons algebra_simps)

lemma big_integer_step:
  assumes "- (2 ^ 119) \<le> v" "v < 2 ^ 119"
  shows "wrap_signed 128 (push_bit 8 v) OR uint (b :: byte) = v * 256 + uint b"
proof -
  have "wrap_signed 128 (v * 256) = v * 256" using assms by (simp add: wrap_signed_def)
  then have "wrap_signed 128 (push_bit 8 v) = push_bit 8 v" by (simp add: push_bit_eq_mult)
  then show ?thesis using int_or_shift [of "uint b" 8 v] uint_byte_lt [of b] by (simp add: or.commute)
qed

lemma big_integer_loop_eq:
  assumes "length bs \<le> 15" "- (2 ^ (127 - 8 * length bs)) \<le> v" "v < 2 ^ (127 - 8 * length bs)"
  shows "big_integer_loop v bs = v * 256 ^ length bs + from_be bs"
  using assms
proof (induction bs arbitrary: v)
  case (Cons b bs)
  define e where "e = 127 - 8 * length (b # bs)"
  have e: "127 - 8 * length bs = e + 8" "e \<le> 119" using Cons.prems(1) by (auto simp: e_def)
  have v: "- (2 ^ e) \<le> v" "v < 2 ^ e" using Cons.prems by (simp_all add: e_def)
  have "(2 :: int) ^ e \<le> 2 ^ 119" using e(2) by (intro power_increasing) auto
  then have step: "wrap_signed 128 (push_bit 8 v) OR uint b = v * 256 + uint b"
    using v by (intro big_integer_step) linarith+
  have pe: "(2 :: int) ^ (e + 8) = 256 * 2 ^ e" by (simp add: power_add)
  have "- (2 ^ (127 - 8 * length bs)) \<le> v * 256 + uint b" "v * 256 + uint b < 2 ^ (127 - 8 * length bs)"
    unfolding e(1) pe using v uint_byte_range [of b] by linarith+
  then show ?case using Cons.IH [of "v * 256 + uint b"] Cons.prems(1)
    by (simp add: step from_be_Cons algebra_simps)
qed (simp add: from_be_def)

lemma decode_big_integer_eq:
  "decode_java_big_integer_i128 bs =
     (if bs = [] \<or> 16 < length bs then Inl (DataInvalid ''cannot be a non-compact DECIMAL key'')
      else Inr (signed_be bs))"
proof (cases bs)
  case (Cons b t)
  have "big_integer_loop (if b AND 0x80 \<noteq> 0 then -1 else 0) (b # t) = signed_be (b # t)" if l: "length t \<le> 15"
  proof -
    define s :: int where "s = (if 128 \<le> uint b then -1 else 0)"
    have s: "(if b AND 0x80 \<noteq> 0 then -1 else 0) = s" by (auto simp: s_def high_bit)
    have "s = -1 \<and> 128 \<le> uint b \<or> s = 0 \<and> uint b < 128" by (auto simp: s_def)
    then have r: "-128 \<le> s * 256 + uint b" "s * 256 + uint b < 128"
      using uint_byte_range [of b] by linarith+
    have p: "128 \<le> (2 :: int) ^ (127 - 8 * length t)"
      using l power_increasing [of 7 "127 - 8 * length t" "2 :: int"] by simp
    have "big_integer_loop s (b # t) = big_integer_loop (s * 256 + uint b) t"
      using big_integer_step [of s b] by (simp add: s_def)
    also have "\<dots> = (s * 256 + uint b) * 256 ^ length t + from_be t"
      using r p l by (intro big_integer_loop_eq) linarith+
    also have "\<dots> = signed_be (b # t)" by (auto simp: signed_be_Cons s_def)
    finally show ?thesis unfolding s .
  qed
  then show ?thesis using Cons by (simp add: decode_java_big_integer_i128_def)
qed (simp add: decode_java_big_integer_i128_def)

lemma strip_sign_signed_be: "signed_be (strip_sign bs) = signed_be bs"
proof (induction bs rule: strip_sign.induct)
  case (1 c n r)
  have "signed_be (n # r) = signed_be (c # n # r)"
    if "c = 0x00 \<and> n AND 0x80 = 0 \<or> c = 0xff \<and> n AND 0x80 \<noteq> 0"
  proof -
    have "uint c = 0 \<and> uint n < 128 \<or> uint c = 255 \<and> 128 \<le> uint n" using that by (auto simp: high_bit)
    then show ?thesis by (auto simp: signed_be_Cons from_be_Cons algebra_simps)
  qed
  then show ?case using 1 by simp
qed simp_all

lemma strip_sign_length: "length (strip_sign bs) \<le> length bs" "strip_sign bs = [] \<longleftrightarrow> bs = []"
  by (induction bs rule: strip_sign.induct) auto

lemma to_be_nonempty: "to_be 16 v \<noteq> []"
  by (metis length_to_be list.size(3) zero_neq_numeral)

lemma signed_be_to_be:
  assumes "in_i128 v"
  shows "signed_be (to_be 16 v) = v"
proof -
  obtain b t where bt: "to_be 16 v = b # t" using to_be_nonempty list.exhaust by blast
  then have l: "length t = 15" using length_to_be [of 16 v] by simp
  have f: "uint b * 256 ^ 15 + from_be t = v mod 2 ^ 128"
    using from_to_be [of 16 v] by (simp add: bt from_be_Cons l)
  have r: "0 \<le> from_be t" "from_be t < 256 ^ 15" using from_be_range [of t] l by simp_all
  have m: "v mod 2 ^ 128 = (if v < 0 then v + 2 ^ 128 else v)"
  proof (cases "v < 0")
    case True
    have "v mod 2 ^ 128 = (v + 2 ^ 128) mod 2 ^ 128" by simp
    also have "\<dots> = v + 2 ^ 128" using assms True by (intro mod_pos_pos_trivial) (auto simp: in_i128_def)
    finally show ?thesis using True by simp
  qed (use assms in \<open>simp add: in_i128_def\<close>)
  have "128 \<le> uint b \<longleftrightarrow> v < 0"
    using f r assms unfolding m by (auto simp: in_i128_def split: if_splits)
  then show ?thesis using f unfolding m bt signed_be_Cons l by (auto split: if_splits)
qed

lemma decode_encode_big_integer:
  "in_i128 v \<Longrightarrow> decode_java_big_integer_i128 (encode_java_big_integer_i128 v) = Inr v"
  using strip_sign_length [of "to_be 16 v"] to_be_nonempty [of v]
  by (simp add: decode_big_integer_eq encode_java_big_integer_i128_def strip_sign_signed_be signed_be_to_be)

section \<open>What a key stands for\<close>

text \<open>
  The value a comparator reads out of the bytes of a key, \<open>None\<close> where the bytes cannot be a key of the type: one
  number, or the milliseconds and nanoseconds of a timestamp, or the bytes themselves.
\<close>

definition key_value :: "data_type \<Rightarrow> bytes \<Rightarrow> (int \<times> int \<times> bytes) option" where
  "key_value ty bs =
     (let int_key = (\<lambda>n. if length bs = n then Some (wrap_signed (8 * n) (from_le bs), 0, []) else None);
          wide_timestamp = (if length bs < 9 then None else
             case try_decode_var_int_from_slice bs 8 of
               Inl _ \<Rightarrow> None
             | Inr (nanos, _) \<Rightarrow> Some (wrap_signed 64 (from_le (take 8 bs)), nanos, []))
      in case ty of
           TTinyInt _ \<Rightarrow> int_key 1
         | TSmallInt _ \<Rightarrow> int_key 2
         | TInt _ \<Rightarrow> int_key 4
         | TDate _ \<Rightarrow> int_key 4
         | TTime _ _ \<Rightarrow> int_key 4
         | TBigInt _ \<Rightarrow> int_key 8
         | TFloat _ \<Rightarrow> if length bs = 4 then Some (f_total_key (f32_of bs), 0, []) else None
         | TDouble _ \<Rightarrow> if length bs = 8 then Some (f_total_key (f64_of bs), 0, []) else None
         | TTimestamp _ p \<Rightarrow> if 3 < p then wide_timestamp else int_key 8
         | TLocalZonedTimestamp _ p \<Rightarrow> if 3 < p then wide_timestamp else int_key 8
         | TDecimal _ p _ \<Rightarrow>
             if 18 < p then (if bs = [] \<or> 16 < length bs then None else Some (signed_be bs, 0, [])) else int_key 8
         | _ \<Rightarrow> Some (0, 0, bs))"

definition value_cmp :: "int \<times> int \<times> bytes \<Rightarrow> int \<times> int \<times> bytes \<Rightarrow> ordering" where
  "value_cmp x y = then_with (cmp (fst x) (fst y))
     (then_with (cmp (fst (snd x)) (fst (snd y))) (cmp (snd (snd x)) (snd (snd y))))"

lemma value_cmp_total: "total_cmp value_cmp A"
  unfolding value_cmp_def by (intro total_cmp_then_with total_cmp_key)

lemma value_cmp_Equal [simp]: "value_cmp x y = Equal \<longleftrightarrow> x = y"
  by (auto simp: value_cmp_def prod_eq_iff)

lemma cmp_self [simp]: "cmp x x = Equal" "then_with r Equal = r"
  by simp (cases r; simp)

lemma value_cmp_simps [simp]:
  "value_cmp (x, 0, []) (y, 0, []) = cmp x y"
  "value_cmp (x, n, []) (y, m, []) = then_with (cmp x y) (cmp n m)"
  "value_cmp (0, 0, a) (0, 0, b) = cmp a b"
  by (simp_all add: value_cmp_def cmp_def)

lemma try_decode_error: "try_decode_var_int_from_slice bs n = Inl e \<Longrightarrow> \<exists>m. e = DataInvalid m"
  by (rule slice_reader_errors)

lemmas comparator_defs = compare_le_ints_def compare_f32_def compare_f64_def
  compare_non_compact_timestamps_def compare_big_integers_def decode_big_integer_eq
  timestamp_compact_precision_def decimal_compact_precision_def fixed_key_bytes_def variable_key_body_def

text \<open>A comparator is the order of the values, or \<^verbatim>\<open>DataInvalid\<close> where one of the keys is foreign.\<close>

lemma wide_timestamp_cmp:
  "case (key_value (TTimestamp nl p) a, key_value (TTimestamp nl p) b) of
     (Some x, Some y) \<Rightarrow> compare_non_compact_timestamps a b = Inr (value_cmp x y)
   | _ \<Rightarrow> \<exists>m. compare_non_compact_timestamps a b = Inl (DataInvalid m)"
  if "3 < p"
  using that by (auto simp: key_value_def comparator_defs dest: try_decode_error split: sum.splits)

lemma scalar_comparator_value:
  "case (key_value ty a, key_value ty b) of
     (Some x, Some y) \<Rightarrow> scalar_key_comparator ty a b = Inr (value_cmp x y)
   | _ \<Rightarrow> \<exists>m. scalar_key_comparator ty a b = Inl (DataInvalid m)"
proof -
  have narrow: ?thesis if "ty = TTimestamp nl p \<or> ty = TLocalZonedTimestamp nl p" "\<not> 3 < p" for nl p
    using that by (elim disjE) (simp_all add: scalar_key_comparator_def key_value_def comparator_defs)
  have wide: ?thesis if t: "ty = TTimestamp nl p \<or> ty = TLocalZonedTimestamp nl p" and p: "3 < p" for nl p
  proof -
    have "key_value ty bs = key_value (TTimestamp nl p) bs" for bs
      using t by (elim disjE) (simp_all only: key_value_def Let_def data_type.case)
    moreover have "scalar_key_comparator ty = compare_non_compact_timestamps"
      using t p by (elim disjE) (simp_all add: scalar_key_comparator_def timestamp_compact_precision_def)
    ultimately show ?thesis using wide_timestamp_cmp [OF p, where nl = nl and a = a and b = b] by (simp only:)
  qed
  show ?thesis
  proof (cases ty)
    case (TTimestamp nl p) then show ?thesis using narrow wide by blast
  next
    case (TLocalZonedTimestamp nl p) then show ?thesis using narrow wide by blast
  qed (simp_all add: scalar_key_comparator_def key_value_def comparator_defs)
qed

lemma scalar_comparator_Inr:
  "key_value ty a = Some x \<Longrightarrow> key_value ty b = Some y \<Longrightarrow> scalar_key_comparator ty a b = Inr (value_cmp x y)"
  using scalar_comparator_value [of ty a b] by simp

section \<open>Values of a type\<close>

text \<open>The values a column of a scalar type holds: the constructor of the type, a number within its width, a
  timestamp within its precision and a decimal of the type's scale.\<close>

definition datum_fits :: "data_type \<Rightarrow> datum \<Rightarrow> bool" where
  "datum_fits ty d =
     (case d of
        DBool _ \<Rightarrow> (case ty of TBoolean _ \<Rightarrow> True | _ \<Rightarrow> False)
      | DTinyInt v \<Rightarrow> (case ty of TTinyInt _ \<Rightarrow> -128 \<le> v \<and> v < 128 | _ \<Rightarrow> False)
      | DSmallInt v \<Rightarrow> (case ty of TSmallInt _ \<Rightarrow> -32768 \<le> v \<and> v < 32768 | _ \<Rightarrow> False)
      | DInt v \<Rightarrow> (case ty of TInt _ \<Rightarrow> in_i32 v | _ \<Rightarrow> False)
      | DDate v \<Rightarrow> (case ty of TDate _ \<Rightarrow> in_i32 v | _ \<Rightarrow> False)
      | DTime v \<Rightarrow> (case ty of TTime _ _ \<Rightarrow> in_i32 v | _ \<Rightarrow> False)
      | DLong v \<Rightarrow> (case ty of TBigInt _ \<Rightarrow> in_i64 v | _ \<Rightarrow> False)
      | DFloat v \<Rightarrow> (case ty of TFloat _ \<Rightarrow> True | _ \<Rightarrow> False)
      | DDouble v \<Rightarrow> (case ty of TDouble _ \<Rightarrow> True | _ \<Rightarrow> False)
      | DString v \<Rightarrow> (case ty of TChar _ _ \<Rightarrow> valid_rstring v | TVarChar _ _ \<Rightarrow> valid_rstring v | _ \<Rightarrow> False)
      | DTimestamp m n \<Rightarrow>
          (case ty of TTimestamp _ p \<Rightarrow> in_i64 m \<and> 0 \<le> n \<and> n < 1000000 \<and> (3 < p \<or> n = 0) | _ \<Rightarrow> False)
      | DLocalZonedTimestamp m n \<Rightarrow>
          (case ty of TLocalZonedTimestamp _ p \<Rightarrow> in_i64 m \<and> 0 \<le> n \<and> n < 1000000 \<and> (3 < p \<or> n = 0) | _ \<Rightarrow> False)
      | DDecimal u _ s \<Rightarrow>
          (case ty of TDecimal _ p s' \<Rightarrow> s = s' \<and> in_i128 u \<and> (18 < p \<or> in_i64 u) | _ \<Rightarrow> False)
      | DBytes v \<Rightarrow> (case ty of TBinary _ _ \<Rightarrow> True | TVarBinary _ _ \<Rightarrow> True | TBlob _ \<Rightarrow> True | _ \<Rightarrow> False)
      | DVariant _ _ \<Rightarrow> False)"

lemma datum_fits_simps:
  "datum_fits (TBoolean nl) d \<longleftrightarrow> (\<exists>v. d = DBool v)"
  "datum_fits (TTinyInt nl) d \<longleftrightarrow> (\<exists>v. d = DTinyInt v \<and> -128 \<le> v \<and> v < 128)"
  "datum_fits (TSmallInt nl) d \<longleftrightarrow> (\<exists>v. d = DSmallInt v \<and> -32768 \<le> v \<and> v < 32768)"
  "datum_fits (TInt nl) d \<longleftrightarrow> (\<exists>v. d = DInt v \<and> in_i32 v)"
  "datum_fits (TBigInt nl) d \<longleftrightarrow> (\<exists>v. d = DLong v \<and> in_i64 v)"
  "datum_fits (TDecimal nl p s) d \<longleftrightarrow> (\<exists>u q. d = DDecimal u q s \<and> in_i128 u \<and> (18 < p \<or> in_i64 u))"
  "datum_fits (TDouble nl) d \<longleftrightarrow> (\<exists>v. d = DDouble v)"
  "datum_fits (TFloat nl) d \<longleftrightarrow> (\<exists>v. d = DFloat v)"
  "datum_fits (TBinary nl l) d \<longleftrightarrow> (\<exists>v. d = DBytes v)"
  "datum_fits (TVarBinary nl l) d \<longleftrightarrow> (\<exists>v. d = DBytes v)"
  "datum_fits (TVariant nl) d \<longleftrightarrow> False"
  "datum_fits (TBlob nl) d \<longleftrightarrow> (\<exists>v. d = DBytes v)"
  "datum_fits (TChar nl l) d \<longleftrightarrow> (\<exists>v. d = DString v \<and> valid_rstring v)"
  "datum_fits (TVarChar nl l) d \<longleftrightarrow> (\<exists>v. d = DString v \<and> valid_rstring v)"
  "datum_fits (TDate nl) d \<longleftrightarrow> (\<exists>v. d = DDate v \<and> in_i32 v)"
  "datum_fits (TTime nl p) d \<longleftrightarrow> (\<exists>v. d = DTime v \<and> in_i32 v)"
  "datum_fits (TTimestamp nl p) d
     \<longleftrightarrow> (\<exists>m n. d = DTimestamp m n \<and> in_i64 m \<and> 0 \<le> n \<and> n < 1000000 \<and> (3 < p \<or> n = 0))"
  "datum_fits (TLocalZonedTimestamp nl p) d
     \<longleftrightarrow> (\<exists>m n. d = DLocalZonedTimestamp m n \<and> in_i64 m \<and> 0 \<le> n \<and> n < 1000000 \<and> (3 < p \<or> n = 0))"
  "datum_fits (TArray nl t) d \<longleftrightarrow> False"
  "datum_fits (TMap nl t t') d \<longleftrightarrow> False"
  "datum_fits (TMultiset nl t) d \<longleftrightarrow> False"
  "datum_fits (TRow nl fs) d \<longleftrightarrow> False"
  "datum_fits (TVector nl l t) d \<longleftrightarrow> False"
  unfolding datum_fits_def by (cases d; auto)+

definition datum_value :: "datum \<Rightarrow> int \<times> int \<times> bytes" where
  "datum_value d =
     (case d of
        DBool v \<Rightarrow> (0, 0, [if v then 1 else 0])
      | DTinyInt v \<Rightarrow> (v, 0, [])
      | DSmallInt v \<Rightarrow> (v, 0, [])
      | DInt v \<Rightarrow> (v, 0, [])
      | DDate v \<Rightarrow> (v, 0, [])
      | DTime v \<Rightarrow> (v, 0, [])
      | DLong v \<Rightarrow> (v, 0, [])
      | DFloat v \<Rightarrow> (f_total_key v, 0, [])
      | DDouble v \<Rightarrow> (f_total_key v, 0, [])
      | DString v \<Rightarrow> (0, 0, utf8 v)
      | DTimestamp m n \<Rightarrow> (m, n, [])
      | DLocalZonedTimestamp m n \<Rightarrow> (m, n, [])
      | DDecimal u _ _ \<Rightarrow> (u, 0, [])
      | DBytes v \<Rightarrow> (0, 0, v)
      | DVariant v m \<Rightarrow> (0, 0, v @ m))"

lemma wrap_signed_to_le:
  assumes "0 < n" "- (2 ^ (8 * n - 1)) \<le> v" "v < 2 ^ (8 * n - 1)"
  shows "wrap_signed (8 * n) (from_le (to_le n v)) = v"
proof -
  have p: "(256 :: int) ^ n = 2 ^ (8 * n)" by (simp add: power_mult)
  have q: "(2 :: int) ^ (8 * n) = 2 * 2 ^ (8 * n - 1)" using assms(1) by (simp flip: power_Suc)
  have "wrap_signed (8 * n) (v mod 2 ^ (8 * n)) = (v + 2 ^ (8 * n - 1)) mod 2 ^ (8 * n) - 2 ^ (8 * n - 1)"
    unfolding wrap_signed_def by (simp add: mod_add_left_eq)
  also have "(v + 2 ^ (8 * n - 1)) mod 2 ^ (8 * n) = v + 2 ^ (8 * n - 1)"
    using assms unfolding q by (intro mod_pos_pos_trivial) linarith+
  finally show ?thesis by (simp add: from_to_le p)
qed

lemma f_of_to_le [simp]: "f32_of (to_le 4 (uint w)) = w" "f64_of (to_le 8 (uint x)) = x"
  using uint_lt2p [of w] uint_lt2p [of x] by (simp_all add: f32_of_def f64_of_def from_to_le)

lemma key_value_wide_timestamp:
  assumes "in_i64 m" "0 \<le> n" "n < 1000000" "3 < p" "ty = TTimestamp nl p \<or> ty = TLocalZonedTimestamp nl p"
  shows "key_value ty (serialize_timestamp m n ty) = Some (m, n, [])"
proof -
  let ?k = "to_le 8 m @ encode_var_int n"
  have k: "serialize_timestamp m n ty = ?k"
    using assms(4,5) by (auto simp: serialize_timestamp_def timestamp_compact_precision_def timestamp_precision_of_def)
  have "try_decode_var_int_from_slice ?k 8 = Inr (n, length (encode_var_int n))"
    using assms by (intro try_decode_var_int_from_slice_encode [where rest = "[]"]) (auto simp: int_range_simps)
  moreover have "wrap_signed 64 (from_le (to_le 8 m)) = m"
    using wrap_signed_to_le [of 8 m] assms(1) by (simp add: int_range_simps)
  moreover have "\<not> length ?k < 9" using length_encode_var_int(1) [of n] by (cases "encode_var_int n") simp_all
  ultimately show ?thesis using assms(4,5) unfolding k by (auto simp: key_value_def)
qed

lemma key_value_timestamp:
  assumes "in_i64 m" "0 \<le> n" "n < 1000000" "3 < p \<or> n = 0" "ty = TTimestamp nl p \<or> ty = TLocalZonedTimestamp nl p"
  shows "key_value ty (serialize_timestamp m n ty) = Some (m, n, [])"
proof (cases "3 < p")
  case True
  then show ?thesis using key_value_wide_timestamp assms by blast
next
  case False
  then show ?thesis using assms wrap_signed_to_le [of 8 m]
    by (auto simp: key_value_def serialize_timestamp_def timestamp_precision_of_def timestamp_compact_precision_def
        int_range_simps)
qed

lemmas key_value_timestamps =
  key_value_timestamp [OF _ _ _ _ disjI1 [OF refl]] key_value_timestamp [OF _ _ _ _ disjI2 [OF refl]]

lemma to_le_1: "[word_of_int v] = to_le 1 v"
  by (simp add: word_of_int_eq_iff take_bit_eq_mod)

lemma key_value_ints:
  "in_i32 v \<Longrightarrow> wrap_signed 32 (from_le (to_le 4 v)) = v"
  "in_i64 v \<Longrightarrow> wrap_signed 64 (from_le (to_le 8 v)) = v"
  "-128 \<le> v \<Longrightarrow> v < 128 \<Longrightarrow> wrap_signed 8 (from_le [word_of_int v]) = v"
  "-32768 \<le> v \<Longrightarrow> v < 32768 \<Longrightarrow> wrap_signed 16 (from_le (to_le 2 v)) = v"
proof -
  show "in_i32 v \<Longrightarrow> wrap_signed 32 (from_le (to_le 4 v)) = v"
    using wrap_signed_to_le [of 4 v] by (simp add: int_range_simps)
  show "in_i64 v \<Longrightarrow> wrap_signed 64 (from_le (to_le 8 v)) = v"
    using wrap_signed_to_le [of 8 v] by (simp add: int_range_simps)
  show "-128 \<le> v \<Longrightarrow> v < 128 \<Longrightarrow> wrap_signed 8 (from_le [word_of_int v]) = v"
    unfolding to_le_1 using wrap_signed_to_le [of 1 v] by (simp del: to_le.simps)
  show "-32768 \<le> v \<Longrightarrow> v < 32768 \<Longrightarrow> wrap_signed 16 (from_le (to_le 2 v)) = v"
    using wrap_signed_to_le [of 2 v] by simp
qed

lemma key_value_decimal:
  assumes "in_i128 u" "18 < p \<or> in_i64 u"
  shows "\<exists>k. serialize_datum (DDecimal u q s) (TDecimal nl p s') = Inr k \<and> key_value (TDecimal nl p s') k = Some (u, 0, [])"
  using assms decode_encode_big_integer [of u]
  by (auto simp: serialize_datum_def key_value_def decimal_compact_precision_def key_value_ints decode_big_integer_eq
      split: if_splits)

lemma key_value_serialize:
  assumes "datum_fits ty d"
  shows "\<exists>k. serialize_datum d ty = Inr k \<and> key_value ty k = Some (datum_value d)"
proof (cases ty)
  case TTimestamp then show ?thesis using assms key_value_timestamps(1)
    by (auto simp: datum_fits_simps serialize_datum_def datum_value_def)
next
  case TLocalZonedTimestamp then show ?thesis using assms key_value_timestamps(2)
    by (auto simp: datum_fits_simps serialize_datum_def datum_value_def)
next
  case TDecimal then show ?thesis using assms
    by (auto simp: datum_fits_simps datum_value_def key_value_decimal)
qed (use assms in \<open>auto simp: datum_fits_simps serialize_datum_def datum_value_def key_value_def key_value_ints
    simp del: to_le.simps from_le.simps\<close>)

text \<open>The value determines the key, and orders it as \<^verbatim>\<open>Datum\<close> is ordered; floats follow the total order, which
  tells the zeros apart and has a place for every NaN.\<close>

lemma mod_below_twice: "0 < p \<Longrightarrow> p \<le> u \<Longrightarrow> u < 2 * p \<Longrightarrow> u mod p = u - p" for u p :: int
  using mod_pos_pos_trivial [of "u - p" p] by simp

lemma f_parts: "uint w = f_mag w + (if f_neg w then 2 ^ (LENGTH('a) - 1) else 0)" "0 \<le> f_mag w"
  for w :: "'a::len word"
proof -
  have "(2 :: int) ^ LENGTH('a) = 2 * 2 ^ (LENGTH('a) - 1)" by (simp flip: power_Suc)
  then have "uint w < 2 * 2 ^ (LENGTH('a) - 1)" using uint_lt2p [of w] by simp
  then have "2 ^ (LENGTH('a) - 1) \<le> uint w \<Longrightarrow> uint w mod 2 ^ (LENGTH('a) - 1) = uint w - 2 ^ (LENGTH('a) - 1)"
    by (intro mod_below_twice) simp_all
  then show "uint w = f_mag w + (if f_neg w then 2 ^ (LENGTH('a) - 1) else 0)"
    by (auto simp: f_mag_def f_neg_def)
qed (simp add: f_mag_def)

lemma f_total_key_inject: "f_total_key w = f_total_key x \<longleftrightarrow> w = x"
proof
  assume "f_total_key w = f_total_key x"
  then have "f_neg w = f_neg x \<and> f_mag w = f_mag x"
    using f_parts(2) [of w] f_parts(2) [of x] by (auto simp: f_total_key_def split: if_splits)
  then show "w = x" using f_parts(1) [of w] f_parts(1) [of x] by (simp add: word_uint_eq_iff)
qed simp

lemma f_key_less: "f_key w < f_key x \<Longrightarrow> f_total_key w < f_total_key x"
  using f_parts(2) [of w] f_parts(2) [of x] by (auto simp: f_key_def f_total_key_def split: if_splits)

lemma f_key_cmp: "cmp (f_key w) (f_key x) = r \<Longrightarrow> r \<noteq> Equal \<Longrightarrow> cmp (f_total_key w) (f_total_key x) = r"
  using f_key_less [of w x] f_key_less [of x w] by (cases r) auto

lemma datum_cmp_value:
  assumes "datum_fits ty a" "datum_fits ty b" "datum_cmp a b = Some r"
  shows "value_cmp (datum_value a) (datum_value b) = r
    \<or> r = Equal \<and> ((\<exists>v w. a = DFloat v \<and> b = DFloat w) \<or> (\<exists>v w. a = DDouble v \<and> b = DDouble w))"
proof (cases ty)
  case TFloat
  then obtain v w where "a = DFloat v" "b = DFloat w" using assms by (auto simp: datum_fits_simps)
  then show ?thesis using assms(3) f_key_cmp [of v w r]
    by (auto simp: datum_cmp_def datum_value_def f32_partial_cmp_def split: if_splits)
next
  case TDouble
  then obtain v w where "a = DDouble v" "b = DDouble w" using assms by (auto simp: datum_fits_simps)
  then show ?thesis using assms(3) f_key_cmp [of v w r]
    by (auto simp: datum_cmp_def datum_value_def f64_partial_cmp_def split: if_splits)
next
  case TBoolean
  then obtain v w where "a = DBool v" "b = DBool w" using assms by (auto simp: datum_fits_simps)
  then show ?thesis using assms(3)
    by (cases v; cases w) (auto simp: datum_cmp_def datum_value_def cmp_def)
qed (use assms in \<open>(clarsimp simp: datum_fits_simps datum_cmp_def datum_value_def decimal_cmp_def)+\<close>)

lemma datum_value_serialize:
  assumes "datum_fits ty a" "datum_fits ty b" "datum_value a = datum_value b"
  shows "serialize_datum a ty = serialize_datum b ty"
  using assms
  by (cases ty) (clarsimp simp: datum_fits_simps datum_value_def serialize_datum_def f_total_key_inject split: if_splits)+

section \<open>Exact literals\<close>

lemma pow10_in_i128: "in_i128 (10 ^ n) \<longleftrightarrow> n \<le> 38"
proof
  assume r: "in_i128 (10 ^ n)"
  show "n \<le> 38"
  proof (rule ccontr)
    assume "\<not> n \<le> 38"
    then have "(10 :: int) ^ 39 \<le> 10 ^ n" by (intro power_increasing) auto
    with r show False by (simp add: in_i128_def)
  qed
next
  assume "n \<le> 38"
  then have "(10 :: int) ^ n \<le> 10 ^ 38" by (intro power_increasing) auto
  moreover have "0 \<le> (10 :: int) ^ n" by simp
  moreover have "(10 :: int) ^ 38 \<le> 2 ^ 127 - 1" "- (2 ^ 127) \<le> (0 :: int)" by simp_all
  ultimately show "in_i128 (10 ^ n)" unfolding in_i128_def by (blast intro: order_trans)
qed

lemma big_factor:
  assumes "\<not> in_i128 (10 ^ n)" "w \<noteq> (0 :: int)"
  shows "\<not> in_i128 (w * 10 ^ n)"
proof -
  have "(10 :: int) ^ 39 \<le> 10 ^ n" using assms(1) by (intro power_increasing) (auto simp: pow10_in_i128)
  moreover have "10 ^ n \<le> \<bar>w * 10 ^ n\<bar>" using assms(2) by (simp add: abs_mult)
  ultimately show ?thesis by (auto simp: in_i128_def)
qed

text \<open>\<open>w\<close> at one scale is the same number as \<open>u\<close> at another.\<close>

definition same_decimal :: "int \<Rightarrow> nat \<Rightarrow> int \<Rightarrow> nat \<Rightarrow> bool" where
  "same_decimal w ws u us \<longleftrightarrow> w * 10 ^ us = u * 10 ^ ws"

lemma same_decimal_up: "us \<le> ws \<Longrightarrow> same_decimal w ws u us \<longleftrightarrow> w = u * 10 ^ (ws - us)"
  by (auto simp: same_decimal_def power_add dest!: le_Suc_ex)

lemma same_decimal_down: "ws \<le> us \<Longrightarrow> same_decimal w ws u us \<longleftrightarrow> w * 10 ^ (us - ws) = u"
  by (auto simp: same_decimal_def power_add dest!: le_Suc_ex)

lemma in_i128_quotient:
  assumes "in_i128 u" "w * 10 ^ n = u"
  shows "in_i128 w"
proof -
  have "\<bar>w\<bar> * 1 \<le> \<bar>w\<bar> * 10 ^ n" by (intro mult_left_mono) auto
  then have "\<bar>w\<bar> \<le> \<bar>u\<bar>" unfolding assms(2) [symmetric] by (simp add: abs_mult)
  moreover have "w < 0 \<longleftrightarrow> u < 0" unfolding assms(2) [symmetric] by (simp add: mult_less_0_iff)
  ultimately show ?thesis using assms(1) unfolding in_i128_def by linarith
qed

lemma rescale_literal_exact:
  assumes u: "in_i128 u"
  shows "rescale_literal u s t = Some w \<longleftrightarrow> in_i128 w \<and> same_decimal w t u s"
proof (cases "u = 0 \<or> s = t")
  case True
  then show ?thesis using u by (auto simp: rescale_literal_def same_decimal_def)
next
  case False
  show ?thesis
  proof (cases "s < t")
    case True
    then show ?thesis using False big_factor [of "t - s" u]
      by (auto simp: rescale_literal_def checked_pow10_def checked_mul_i128_def same_decimal_up)
  next
    case down: False
    let ?f = "10 ^ (s - t) :: int"
    have "u = w * ?f \<longleftrightarrow> u mod ?f = 0 \<and> u div ?f = w" by auto
    then show ?thesis using False down big_factor [of "s - t" w] in_i128_quotient [OF u, of w "s - t"] u
      by (auto simp: rescale_literal_def checked_pow10_def same_decimal_down)
  qed
qed

section \<open>Lengths of big integers\<close>

lemma signed_byte_cases:
  fixes b :: byte
  defines "c \<equiv> uint b - (if 128 \<le> uint b then 256 else 0)"
  obtains "c = uint b" "0 \<le> uint b" "uint b < 128" | "c = uint b - 256" "128 \<le> uint b" "uint b \<le> 255"
  using uint_byte_range [of b] unfolding c_def by (cases "128 \<le> uint b") auto

lemma signed_be_range:
  assumes "bs \<noteq> []"
  shows "- (128 * 256 ^ (length bs - 1)) \<le> signed_be bs" "signed_be bs < 128 * 256 ^ (length bs - 1)"
proof -
  obtain b t where bs: "bs = b # t" using assms by (cases bs) auto
  define P :: int where "P = 256 ^ length t"
  define c where "c = uint b - (if 128 \<le> uint b then 256 else 0)"
  have P: "0 < P" by (simp add: P_def)
  have "-128 \<le> c \<and> c \<le> 127" unfolding c_def by (rule signed_byte_cases [of b]) linarith+
  then have "-128 * P \<le> c * P" "c * P \<le> 127 * P" using P by (simp_all only: mult_right_mono less_imp_le)
  moreover have "signed_be bs = c * P + from_be t" by (simp add: bs signed_be_Cons P_def c_def)
  moreover have "0 \<le> from_be t" "from_be t < P" using from_be_range [of t] by (simp_all add: P_def)
  ultimately have "- (128 * P) \<le> signed_be bs" "signed_be bs < 128 * P" by linarith+
  then show "- (128 * 256 ^ (length bs - 1)) \<le> signed_be bs" "signed_be bs < 128 * 256 ^ (length bs - 1)"
    by (simp_all add: bs P_def)
qed

lemma strip_sign_minimal:
  assumes "strip_sign bs = c # d # r"
  shows "signed_be bs < - (128 * 256 ^ length r) \<or> 128 * 256 ^ length r \<le> signed_be bs"
proof -
  have "strip_sign bs = c # d # r \<Longrightarrow> \<not> (c = 0x00 \<and> d AND 0x80 = 0 \<or> c = 0xff \<and> d AND 0x80 \<noteq> 0)" for bs
    by (induction bs rule: strip_sign.induct) (auto split: if_splits)
  then have nr: "\<not> (c = 0x00 \<and> uint d < 128 \<or> c = 0xff \<and> 128 \<le> uint d)" using assms by (auto simp: high_bit)
  have u: "uint c = 0 \<longleftrightarrow> c = 0x00" "uint c = 255 \<longleftrightarrow> c = 0xff"
    by (simp_all add: word_uint_eq_iff)
  define P :: int where "P = 256 ^ length r"
  define e where "e = uint c - (if 128 \<le> uint c then 256 else 0)"
  have P: "0 < P" by (simp add: P_def)
  have v: "signed_be bs = e * 256 * P + uint d * P + from_be r"
    using strip_sign_signed_be [of bs]
    by (simp add: assms signed_be_Cons from_be_Cons P_def e_def algebra_simps)
  have f: "0 \<le> from_be r" "from_be r < P" using from_be_range [of r] by (simp_all add: P_def)
  have d: "0 \<le> uint d * P" "uint d * P \<le> 255 * P"
    using P uint_byte_range [of d] by (simp_all add: mult_right_mono)
  have "e \<ge> 1 \<or> e \<le> -2 \<or> e = 0 \<and> 128 \<le> uint d \<or> e = -1 \<and> uint d < 128"
  proof (rule signed_byte_cases [of c])
    assume "uint c - (if 128 \<le> uint c then 256 else 0) = uint c" "0 \<le> uint c"
    then have "e = uint c" "uint c = 0 \<or> 1 \<le> uint c" unfolding e_def by linarith+
    then show ?thesis using nr u(1) by auto
  next
    assume "uint c - (if 128 \<le> uint c then 256 else 0) = uint c - 256" "uint c \<le> 255"
    then have "e = uint c - 256" "uint c = 255 \<or> uint c \<le> 254" unfolding e_def by linarith+
    then show ?thesis using nr u(2) by auto
  qed
  then consider "e \<ge> 1" | "e \<le> -2" | "e = 0" "128 \<le> uint d" | "e = -1" "uint d < 128" by blast
  then show ?thesis
  proof cases
    case 1
    then have "1 * (256 * P) \<le> e * (256 * P)" using P by (intro mult_right_mono) auto
    then show ?thesis using v f d P unfolding P_def [symmetric] by linarith
  next
    case 2
    then have "e * (256 * P) \<le> -2 * (256 * P)" using P by (intro mult_right_mono) auto
    then show ?thesis using v f d P unfolding P_def [symmetric] by linarith
  next
    case 3
    then have "128 * P \<le> uint d * P" using P by (intro mult_right_mono) auto
    then show ?thesis using v f unfolding P_def [symmetric] \<open>e = 0\<close> by linarith
  next
    case 4
    then have "uint d * P \<le> 127 * P" using P by (intro mult_right_mono) auto
    then show ?thesis using v f unfolding P_def [symmetric] \<open>e = -1\<close> by linarith
  qed
qed

lemma encode_big_integer_minimal:
  assumes "in_i128 v" "decode_java_big_integer_i128 bs = Inr v"
  shows "length (encode_java_big_integer_i128 v) \<le> length bs"
proof (rule ccontr)
  let ?e = "encode_java_big_integer_i128 v"
  assume long: "\<not> length ?e \<le> length bs"
  have bs: "bs \<noteq> []" "signed_be bs = v" using assms(2) by (auto simp: decode_big_integer_eq split: if_splits)
  have "2 \<le> length ?e" using long bs(1) by (cases bs) auto
  then obtain c d r where e: "?e = c # d # r" by (cases ?e rule: strip_sign.cases) auto
  have "length bs - 1 \<le> length r" using long e by simp
  then have p: "(256 :: int) ^ (length bs - 1) \<le> 256 ^ length r" by (intro power_increasing) auto
  have "v < - (128 * 256 ^ length r) \<or> 128 * 256 ^ length r \<le> v"
    using strip_sign_minimal [OF e [unfolded encode_java_big_integer_i128_def]] signed_be_to_be [OF assms(1)] by simp
  then show False using signed_be_range [OF bs(1)] p unfolding bs(2) by linarith
qed

section \<open>Orders on keys\<close>

text \<open>The keys a comparator accepts, the keys of the values of a type, and the order of a comparator.\<close>

definition readable_keys :: "data_type \<Rightarrow> bytes set" where
  "readable_keys ty = {k. key_value ty k \<noteq> None}"

definition datum_keys :: "data_type \<Rightarrow> bytes set" where
  "datum_keys ty = {k. \<exists>d. datum_fits ty d \<and> serialize_datum d ty = Inr k}"

definition key_ord :: "data_type \<Rightarrow> bytes \<Rightarrow> bytes \<Rightarrow> ordering" where
  "key_ord ty a b = value_cmp (the (key_value ty a)) (the (key_value ty b))"

lemma key_ord_total: "total_cmp (key_ord ty) A"
  unfolding key_ord_def by (rule total_cmp_map [OF value_cmp_total [of UNIV]]) simp

lemma comparator_readable:
  "a \<in> readable_keys ty \<Longrightarrow> b \<in> readable_keys ty \<Longrightarrow> scalar_key_comparator ty a b = Inr (key_ord ty a b)"
  using scalar_comparator_value [of ty a b] by (auto simp: readable_keys_def key_ord_def)

lemma comparator_foreign:
  assumes "\<not> (a \<in> readable_keys ty \<and> b \<in> readable_keys ty)"
  shows "\<exists>m. scalar_key_comparator ty a b = Inl (DataInvalid m)"
  using assms scalar_comparator_value [of ty a b]
  by (cases "key_value ty a"; cases "key_value ty b") (auto simp: readable_keys_def)

lemma datum_keys_readable: "datum_keys ty \<subseteq> readable_keys ty"
proof
  fix k assume "k \<in> datum_keys ty"
  then obtain d where "datum_fits ty d" "serialize_datum d ty = Inr k" by (auto simp: datum_keys_def)
  then have "key_value ty k = Some (datum_value d)" using key_value_serialize [of ty d] by simp
  then show "k \<in> readable_keys ty" by (cases "datum_value d") (simp add: readable_keys_def)
qed

lemma key_ord_serialized:
  assumes "datum_fits ty a" "serialize_datum a ty = Inr k" "datum_fits ty b" "serialize_datum b ty = Inr l"
  shows "key_ord ty k l = value_cmp (datum_value a) (datum_value b)"
  using key_value_serialize [OF assms(1)] key_value_serialize [OF assms(3)] assms(2,4) by (simp add: key_ord_def)

lemma key_ord_Equal:
  assumes "k \<in> datum_keys ty" "l \<in> datum_keys ty" "key_ord ty k l = Equal"
  shows "k = l"
proof -
  obtain a b where ab: "datum_fits ty a" "serialize_datum a ty = Inr k" "datum_fits ty b" "serialize_datum b ty = Inr l"
    using assms(1,2) by (auto simp: datum_keys_def)
  then have "datum_value a = datum_value b" using assms(3) key_ord_serialized [OF ab] by simp
  then show ?thesis using datum_value_serialize [OF ab(1,3)] ab(2,4) by simp
qed

section \<open>Properties\<close>

text \<open>C21. Index keys are ordered as the values they stand for. For two values of a scalar type, both keys are
  written, the comparator of the type answers, it answers equality exactly for equal bytes, and its answer is
  the order of the values wherever \<^verbatim>\<open>Datum\<close> has one; only the zeros of a floating-point type, which the values
  identify, are told apart.\<close>

theorem key_comparator_correct:
  assumes "datum_fits ty a" "datum_fits ty b"
  shows "\<exists>k l r. serialize_datum a ty = Inr k \<and> serialize_datum b ty = Inr l
    \<and> scalar_key_comparator ty k l = Inr r \<and> (r = Equal \<longleftrightarrow> k = l)
    \<and> (\<forall>q. datum_cmp a b = Some q \<longrightarrow> q = r
         \<or> q = Equal \<and> ((\<exists>v w. a = DFloat v \<and> b = DFloat w) \<or> (\<exists>v w. a = DDouble v \<and> b = DDouble w)))"
proof -
  obtain k l where k: "serialize_datum a ty = Inr k" "key_value ty k = Some (datum_value a)"
    and l: "serialize_datum b ty = Inr l" "key_value ty l = Some (datum_value b)"
    using key_value_serialize assms by blast
  have "datum_value a = datum_value b \<longleftrightarrow> k = l"
    using datum_value_serialize [OF assms] k l by auto
  then show ?thesis using k l scalar_comparator_Inr [OF k(2) l(2)] datum_cmp_value [OF assms] by fastforce
qed

theorem key_comparator_correct_witness:
  "serialize_datum (DDecimal (-5) 30 2) (TDecimal True 30 2) = Inr [0xFB]
   \<and> serialize_datum (DDecimal 300 30 2) (TDecimal True 30 2) = Inr [0x01, 0x2C]
   \<and> scalar_key_comparator (TDecimal True 30 2) [0xFB] [0x01, 0x2C] = Inr Less"
proof -
  have k: "serialize_datum (DDecimal (-5) 30 2) (TDecimal True 30 2) = Inr [0xFB]"
    "serialize_datum (DDecimal 300 30 2) (TDecimal True 30 2) = Inr [0x01, 0x2C]" by code_simp+
  have c: "datum_cmp (DDecimal (-5) 30 2) (DDecimal 300 30 2) = Some Less" by code_simp
  have f: "datum_fits (TDecimal True 30 2) (DDecimal (-5) 30 2)" "datum_fits (TDecimal True 30 2) (DDecimal 300 30 2)"
    by (simp_all add: datum_fits_simps in_i128_def)
  show ?thesis using key_comparator_correct [OF f] k c by auto
qed


text \<open>C25. The bytes of a wide decimal round trip and are shortest. Every 128-bit unscaled value is written in one to
  sixteen bytes, reading them gives it back, and no other bytes that read as the value are shorter.\<close>

theorem big_integer_round_trip:
  assumes "in_i128 v"
  shows "decode_java_big_integer_i128 (encode_java_big_integer_i128 v) = Inr v
    \<and> length (encode_java_big_integer_i128 v) \<in> {1..16}
    \<and> (\<forall>bs. decode_java_big_integer_i128 bs = Inr v \<longrightarrow> length (encode_java_big_integer_i128 v) \<le> length bs)"
proof (intro conjI allI impI)
  show r: "decode_java_big_integer_i128 (encode_java_big_integer_i128 v) = Inr v"
    by (rule decode_encode_big_integer [OF assms])
  show "length (encode_java_big_integer_i128 v) \<in> {1..16}"
    using r by (auto simp: decode_big_integer_eq Suc_le_eq split: if_splits)
qed (rule encode_big_integer_minimal [OF assms])

theorem big_integer_round_trip_witness:
  "decode_java_big_integer_i128 (encode_java_big_integer_i128 (-129)) = Inr (-129)
   \<and> encode_java_big_integer_i128 (-129) = [0xFF, 0x7F]"
proof -
  have "encode_java_big_integer_i128 (-129) = [0xFF, 0x7F]" by code_simp
  then show ?thesis using big_integer_round_trip [of "-129"] by (simp add: in_i128_def)
qed

text \<open>C24. Normalizing a literal to the type of an index column is exact. A decimal literal is accepted exactly when
  the column's layout can hold the same number, and then becomes that number at the column's scale; a
  timestamp literal is accepted unchanged exactly when the column's precision keeps its nanoseconds. Accepted
  literals are values of the column's type.\<close>

theorem normalize_key_literal_exact:
  assumes "in_i128 u" "in_i64 m"
  shows "(case normalize_key_literal (DDecimal u q s) (TDecimal nl p t) of
      (d, True) \<Rightarrow> datum_fits (TDecimal nl p t) d \<and> (\<exists>w. d = DDecimal w p t \<and> same_decimal w t u s)
    | (d, False) \<Rightarrow> \<not> (\<exists>w. in_i128 w \<and> (18 < p \<or> in_i64 w) \<and> same_decimal w t u s))
   \<and> normalize_key_literal (DTimestamp m n) (TTimestamp nl p)
       = (DTimestamp m n, datum_fits (TTimestamp nl p) (DTimestamp m n))
   \<and> normalize_key_literal (DLocalZonedTimestamp m n) (TLocalZonedTimestamp nl p)
       = (DLocalZonedTimestamp m n, datum_fits (TLocalZonedTimestamp nl p) (DLocalZonedTimestamp m n))"
proof (intro conjI)
  show "case normalize_key_literal (DDecimal u q s) (TDecimal nl p t) of
      (d, True) \<Rightarrow> datum_fits (TDecimal nl p t) d \<and> (\<exists>w. d = DDecimal w p t \<and> same_decimal w t u s)
    | (d, False) \<Rightarrow> \<not> (\<exists>w. in_i128 w \<and> (18 < p \<or> in_i64 w) \<and> same_decimal w t u s)"
  proof (cases "rescale_literal u s t")
    case None
    then have "\<not> (in_i128 w \<and> same_decimal w t u s)" for w
      using rescale_literal_exact [OF assms(1), of s t w] by simp
    with None show ?thesis by (auto simp: normalize_key_literal_def)
  next
    case (Some v)
    have v: "in_i128 v" "same_decimal v t u s"
      using Some rescale_literal_exact [OF assms(1), of s t v] by simp_all
    have w: "w = v" if "in_i128 w" "same_decimal w t u s" for w
      using that Some rescale_literal_exact [OF assms(1), of s t w] by simp
    show ?thesis
    proof (cases "p \<le> 18 \<and> \<not> in_i64 v")
      case True
      then have "\<not> (\<exists>w. in_i128 w \<and> (18 < p \<or> in_i64 w) \<and> same_decimal w t u s)" using w by auto
      then show ?thesis using Some True by (simp add: normalize_key_literal_def decimal_compact_precision_def)
    next
      case False
      then show ?thesis using Some v
        by (auto simp: normalize_key_literal_def decimal_compact_precision_def datum_fits_simps)
    qed
  qed
qed (use assms in \<open>auto simp: normalize_key_literal_def datum_fits_simps timestamp_compact_precision_def\<close>)

theorem normalize_key_literal_exact_witness:
  "normalize_key_literal (DDecimal 1250 4 3) (TDecimal True 10 2) = (DDecimal 125 10 2, True)
   \<and> same_decimal 125 2 1250 3
   \<and> normalize_key_literal (DTimestamp 5 7) (TTimestamp True 10) = (DTimestamp 5 7, True)"
  using normalize_key_literal_exact [where u = 1250 and m = 5 and n = 7 and q = 4 and s = 3 and p = 10 and t = 2 and nl = True]
  by (simp add: in_i128_def int_range_simps normalize_key_literal_def rescale_literal_def checked_pow10_def
      decimal_compact_precision_def datum_fits_simps timestamp_compact_precision_def same_decimal_def)

end
