(* ===== verification/Composite_Key.thy ===== *)
theory Composite_Key
  imports Key_Serde Btree_Writer
begin

text \<open>
  \<^verbatim>\<open>crates/paimon/src/btree/composite_key.rs\<close>: keys of several columns. A tuple is one byte for the row kind, a bit
  per NULL component, then the components in order, the ones of variable width with their length in front.
  A cursor walks over such a key and rejects whatever is not one; keys compare component by component, NULL
  first. \<open>make_key_comparator\<close> is completed with the arm for rows. Every slice access of the source that would panic
  out of range is a \<open>Panic\<close> here.
\<close>

unbundle bit_operations_syntax

section \<open>The codec\<close>

record key_codec =
  codec_types :: "data_type list"
  codec_comparators :: "key_cmp list"

record key_cursor =
  cur_key :: bytes
  cur_position :: nat
  cur_offset :: nat

definition invalid_key :: "string \<Rightarrow> error" where
  "invalid_key message = DataInvalid message"

definition variable_width :: "data_type \<Rightarrow> bool" where
  "variable_width ty =
     (case ty of
        TChar _ _ \<Rightarrow> True | TVarChar _ _ \<Rightarrow> True | TBinary _ _ \<Rightarrow> True | TVarBinary _ _ \<Rightarrow> True
      | TDecimal _ p _ \<Rightarrow> 18 < p
      | _ \<Rightarrow> False)"

definition supported_type :: "data_type \<Rightarrow> bool" where
  "supported_type ty \<longleftrightarrow> variable_width ty \<or>
     (case ty of
        TBoolean _ \<Rightarrow> True | TTinyInt _ \<Rightarrow> True | TSmallInt _ \<Rightarrow> True | TInt _ \<Rightarrow> True | TBigInt _ \<Rightarrow> True
      | TFloat _ \<Rightarrow> True | TDouble _ \<Rightarrow> True | TDate _ \<Rightarrow> True | TTime _ _ \<Rightarrow> True | TDecimal _ _ _ \<Rightarrow> True
      | TTimestamp _ _ \<Rightarrow> True | TLocalZonedTimestamp _ _ \<Rightarrow> True
      | _ \<Rightarrow> False)"

definition timestamp_len :: "bytes \<Rightarrow> nat \<Rightarrow> nat result" where
  "timestamp_len key offset =
     and_then (ok_or (invalid_key ''timestamp overflow'') (checked_add_usize offset 8)) (\<lambda>start.
     and_then (try_decode_var_int_from_slice key start) (\<lambda>(nanos, consumed).
       if 0 \<le> nanos \<and> nanos < 1000000 then Inr (8 + consumed)
       else Inl (invalid_key ''invalid timestamp nanoseconds'')))"

text \<open>\<^verbatim>\<open>f32::NAN\<close> and \<^verbatim>\<open>f64::NAN\<close>, the canonical positive NaN.\<close>

definition canonical_f32 :: "32 word \<Rightarrow> 32 word" where
  "canonical_f32 v = (if f32_is_nan v then 0x7fc00000 else v)"

definition canonical_f64 :: "64 word \<Rightarrow> 64 word" where
  "canonical_f64 v = (if f64_is_nan v then 0x7ff8000000000000 else v)"

definition serialize_component :: "key_codec \<Rightarrow> nat \<Rightarrow> datum \<Rightarrow> bytes result" where
  "serialize_component codec i v =
     (case v of
        DFloat f \<Rightarrow> if f32_is_nan f then Inr (to_le 4 0x7fc00000)
                    else if i < length (codec_types codec) then serialize_datum v (codec_types codec ! i)
                    else Inl (Panic ''index out of bounds'')
      | DDouble f \<Rightarrow> if f64_is_nan f then Inr (to_le 8 0x7ff8000000000000)
                    else if i < length (codec_types codec) then serialize_datum v (codec_types codec ! i)
                    else Inl (Panic ''index out of bounds'')
      | _ \<Rightarrow> if i < length (codec_types codec) then serialize_datum v (codec_types codec ! i)
             else Inl (Panic ''index out of bounds''))"

definition compare_component :: "key_codec \<Rightarrow> nat \<Rightarrow> bytes option \<Rightarrow> bytes option \<Rightarrow> ordering result" where
  "compare_component codec i a b =
     (case (a, b) of
        (None, None) \<Rightarrow> Inr Equal
      | (None, Some _) \<Rightarrow> Inr Less
      | (Some _, None) \<Rightarrow> Inr Greater
      | (Some a, Some b) \<Rightarrow>
          if length (codec_types codec) \<le> i \<or> length (codec_comparators codec) \<le> i
          then Inl (Panic ''index out of bounds'')
          else case codec_types codec ! i of
            TFloat _ \<Rightarrow>
              and_then (fixed_key_bytes 4 a) (\<lambda>a. and_then (fixed_key_bytes 4 b) (\<lambda>b.
                Inr (cmp (f_total_key (canonical_f32 (f32_of a))) (f_total_key (canonical_f32 (f32_of b))))))
          | TDouble _ \<Rightarrow>
              and_then (fixed_key_bytes 8 a) (\<lambda>a. and_then (fixed_key_bytes 8 b) (\<lambda>b.
                Inr (cmp (f_total_key (canonical_f64 (f64_of a))) (f_total_key (canonical_f64 (f64_of b))))))
          | _ \<Rightarrow> (codec_comparators codec ! i) a b)"

text \<open>\<^verbatim>\<open>1 + n.div_ceil(8)\<close>\<close>

definition header_len :: "nat \<Rightarrow> nat" where "header_len n = 1 + (n + 7) div 8"

definition codec_cursor :: "key_codec \<Rightarrow> bytes \<Rightarrow> key_cursor result" where
  "codec_cursor codec key =
     (let offset = header_len (length (codec_types codec)) in
      if length key < offset then Inl (invalid_key ''truncated header'')
      else Inr \<lparr>cur_key = key, cur_position = 0, cur_offset = offset\<rparr>)"

section \<open>The cursor\<close>

text \<open>The length of the next component and where it starts.\<close>

definition component_extent :: "data_type \<Rightarrow> bytes \<Rightarrow> nat \<Rightarrow> (nat \<times> nat) result" where
  "component_extent ty key offset =
     (if variable_width ty then
        and_then (try_decode_var_int_from_slice key offset) (\<lambda>(len, consumed).
          if len < 0 then Inl (invalid_key ''negative component length'')
          else Inr (nat len, offset + consumed))
      else
        let wide_timestamp = and_then (timestamp_len key offset) (\<lambda>len. Inr (len, offset)) in
        case ty of
          TBoolean _ \<Rightarrow> Inr (1, offset)
        | TTinyInt _ \<Rightarrow> Inr (1, offset)
        | TSmallInt _ \<Rightarrow> Inr (2, offset)
        | TInt _ \<Rightarrow> Inr (4, offset)
        | TDate _ \<Rightarrow> Inr (4, offset)
        | TTime _ _ \<Rightarrow> Inr (4, offset)
        | TFloat _ \<Rightarrow> Inr (4, offset)
        | TBigInt _ \<Rightarrow> Inr (8, offset)
        | TDouble _ \<Rightarrow> Inr (8, offset)
        | TDecimal _ _ _ \<Rightarrow> Inr (8, offset)
        | TTimestamp _ p \<Rightarrow> if 3 < p then wide_timestamp else Inr (8, offset)
        | TLocalZonedTimestamp _ p \<Rightarrow> if 3 < p then wide_timestamp else Inr (8, offset)
        | _ \<Rightarrow> Inl (invalid_key ''unsupported non-scalar component type''))"

definition next_component :: "key_codec \<Rightarrow> key_cursor \<Rightarrow> (bytes option \<times> key_cursor) result" where
  "next_component codec c =
     (let i = cur_position c; c = c\<lparr>cur_position := i + 1\<rparr> in
      if length (codec_types codec) \<le> i then Inl (invalid_key ''read past tuple arity'')
      else if length (cur_key c) \<le> 1 + i div 8 then Inl (Panic ''index out of bounds'')
      else if cur_key c ! (1 + i div 8) AND push_bit (i mod 8) 1 \<noteq> 0 then Inr (None, c)
      else
        and_then (component_extent (codec_types codec ! i) (cur_key c) (cur_offset c)) (\<lambda>(len, start).
        and_then (ok_or (invalid_key ''component length overflow'') (checked_add_usize start len)) (\<lambda>last.
          if length (cur_key c) < last then Inl (invalid_key ''truncated component'')
          else
            let component = take len (drop start (cur_key c)) in
            and_then (compare_component codec i (Some component) (Some component)) (\<lambda>_.
              Inr (Some component, c\<lparr>cur_offset := last\<rparr>)))))"

lemma next_component_position:
  "next_component codec c = Inr (x, c') \<Longrightarrow> cur_position c' = cur_position c + 1 \<and> cur_key c' = cur_key c"
  by (auto simp: next_component_def Let_def result_simps split: if_splits)

function finish :: "key_codec \<Rightarrow> key_cursor \<Rightarrow> unit result" where
  "finish codec c =
     (if cur_position c < length (codec_types codec) then
        (case next_component codec c of
           Inl e \<Rightarrow> Inl e
         | Inr (_, c') \<Rightarrow> finish codec c')
      else if cur_offset c \<noteq> length (cur_key c) then Inl (invalid_key ''trailing bytes or incompatible schema'')
      else Inr ())"
  by pat_completeness auto
termination
  by (relation "measure (\<lambda>(codec, c). length (codec_types codec) - cur_position c)")
    (auto dest: next_component_position)

declare finish.simps [simp del]

definition validate_key :: "key_codec \<Rightarrow> bytes \<Rightarrow> unit result" where
  "validate_key codec key = and_then (codec_cursor codec key) (finish codec)"

text \<open>The loop of \<^verbatim>\<open>compare_keys\<close> over the columns, with both cursors.\<close>

fun compare_loop :: "key_codec \<Rightarrow> nat list \<Rightarrow> key_cursor \<Rightarrow> key_cursor \<Rightarrow> (ordering \<times> key_cursor \<times> key_cursor) result" where
  "compare_loop codec [] a b = Inr (Equal, a, b)"
| "compare_loop codec (i # is) a b =
     and_then (next_component codec a) (\<lambda>(x, a).
     and_then (next_component codec b) (\<lambda>(y, b).
     and_then (compare_component codec i x y) (\<lambda>order.
       if order \<noteq> Equal then Inr (order, a, b) else compare_loop codec is a b)))"

definition compare_keys :: "key_codec \<Rightarrow> key_cmp" where
  "compare_keys codec a b =
     and_then (codec_cursor codec a) (\<lambda>a.
     and_then (codec_cursor codec b) (\<lambda>b.
     and_then (compare_loop codec [0..<length (codec_types codec)] a b) (\<lambda>(order, a, b).
     and_then (finish codec a) (\<lambda>_.
     and_then (finish codec b) (\<lambda>_. Inr order)))))"

section \<open>Comparators of all types\<close>

lemma field_type_size: "f \<in> set fs \<Longrightarrow> size (field_type f) < size (TRow nl fs)"
proof (induction fs)
  case (Cons g fs)
  then show ?case by (cases g) auto
qed simp

text \<open>\<^verbatim>\<open>make_key_comparator\<close>: rows compare by the codec of their fields, which \<^verbatim>\<open>CompositeKeyCodec::new\<close> builds from
  the comparators of the field types.\<close>

function (sequential) make_key_comparator :: "data_type \<Rightarrow> key_cmp" where
  "make_key_comparator (TRow nl fs) =
     compare_keys \<lparr>codec_types = map field_type fs,
       codec_comparators = map (\<lambda>f. make_key_comparator (field_type f)) fs\<rparr>"
| "make_key_comparator ty = scalar_key_comparator ty"
  by pat_completeness auto
termination
  by (relation "measure size") (auto intro: field_type_size simp del: data_type.size)

definition codec_new :: "data_field list \<Rightarrow> key_codec" where
  "codec_new fs = \<lparr>codec_types = map field_type fs,
     codec_comparators = map (\<lambda>f. make_key_comparator (field_type f)) fs\<rparr>"

section \<open>Serialization\<close>

fun serialize_loop :: "key_codec \<Rightarrow> nat \<Rightarrow> (datum option \<times> data_type) list \<Rightarrow> bytes \<Rightarrow> bytes result" where
  "serialize_loop codec i [] bytes = Inr bytes"
| "serialize_loop codec i ((v, ty) # vs) bytes =
     (if \<not> supported_type ty then Inl (invalid_key ''unsupported non-scalar component type'')
      else case v of
        None \<Rightarrow> serialize_loop codec (i + 1) vs
          (bytes[1 + i div 8 := bytes ! (1 + i div 8) OR push_bit (i mod 8) 1])
      | Some d \<Rightarrow>
          and_then (validate_datum_matches_type d ty) (\<lambda>_.
          and_then (serialize_component codec i d) (\<lambda>component.
            if variable_width ty then
              if i32_max < int (length component) then Inl (invalid_key ''component too large'')
              else serialize_loop codec (i + 1) vs
                (bytes @ encode_var_int (int (length component)) @ component)
            else serialize_loop codec (i + 1) vs (bytes @ component))))"

definition codec_serialize :: "key_codec \<Rightarrow> datum option list \<Rightarrow> bytes result" where
  "codec_serialize codec values =
     (if length values \<noteq> length (codec_types codec) \<or> values = []
      then Inl (invalid_key ''tuple arity differs from index fields'')
      else
        and_then (serialize_loop codec 0 (zip values (codec_types codec))
          (replicate (header_len (length values)) 0)) (\<lambda>bytes.
        and_then (validate_key codec bytes) (\<lambda>_. Inr bytes)))"

definition serialize_composite_key :: "datum option list \<Rightarrow> data_field list \<Rightarrow> bytes result" where
  "serialize_composite_key values fs = codec_serialize (codec_new fs) values"

end
