(* ===== verification/Composite_Key_Laws.thy ===== *)
theory Composite_Key_Laws
  imports Composite_Key
begin

text \<open>
  The bytes of a tuple, what a cursor reads from them, and the order in which tuples compare.
\<close>

unbundle bit_operations_syntax

section \<open>Components\<close>

definition canonical_datum :: "datum \<Rightarrow> datum" where
  "canonical_datum d =
     (case d of DFloat f \<Rightarrow> DFloat (canonical_f32 f) | DDouble f \<Rightarrow> DDouble (canonical_f64 f) | _ \<Rightarrow> d)"

lemma canonical_idem [simp]:
  "canonical_f32 (canonical_f32 v) = canonical_f32 v" "canonical_f64 (canonical_f64 w) = canonical_f64 w"
  by (simp_all add: canonical_f32_def canonical_f64_def f32_is_nan_def f64_is_nan_def f_mag_def)

lemma canonical_fits [simp]: "datum_fits ty (canonical_datum d) = datum_fits ty d"
  by (cases d) (simp_all add: canonical_datum_def datum_fits_def)

lemma serialize_component_canonical:
  "i < length (codec_types codec) \<Longrightarrow>
   serialize_component codec i d = serialize_datum (canonical_datum d) (codec_types codec ! i)"
  by (cases d) (simp_all add: serialize_component_def canonical_datum_def canonical_f32_def canonical_f64_def serialize_datum_def)

text \<open>The keys of the components of a type: those of its values, with one NaN.\<close>

definition component_keys :: "data_type \<Rightarrow> bytes set" where
  "component_keys ty = {k. \<exists>d. datum_fits ty d \<and> serialize_datum (canonical_datum d) ty = Inr k}"

lemma component_keys_datum: "component_keys ty \<subseteq> datum_keys ty"
  using canonical_fits unfolding component_keys_def datum_keys_def by blast

lemma component_keys_readable: "component_keys ty \<subseteq> readable_keys ty"
  using component_keys_datum datum_keys_readable by blast

definition component_value :: "data_type \<Rightarrow> bytes \<Rightarrow> int \<times> int \<times> bytes" where
  "component_value ty bs =
     (case ty of
        TFloat _ \<Rightarrow> (f_total_key (canonical_f32 (f32_of bs)), 0, [])
      | TDouble _ \<Rightarrow> (f_total_key (canonical_f64 (f64_of bs)), 0, [])
      | _ \<Rightarrow> the (key_value ty bs))"

definition component_ord :: "data_type \<Rightarrow> bytes option \<Rightarrow> bytes option \<Rightarrow> ordering" where
  "component_ord ty a b =
     then_with (cmp (a \<noteq> None) (b \<noteq> None))
       (value_cmp (component_value ty (case a of None \<Rightarrow> [] | Some k \<Rightarrow> k))
                  (component_value ty (case b of None \<Rightarrow> [] | Some k \<Rightarrow> k)))"

lemma component_ord_simps [simp]:
  "component_ord ty None None = Equal"
  "component_ord ty None (Some k) = Less"
  "component_ord ty (Some k) None = Greater"
  "component_ord ty (Some k) (Some l) = value_cmp (component_value ty k) (component_value ty l)"
  by (simp_all add: component_ord_def)

lemma component_ord_total: "total_cmp (component_ord ty) A"
  unfolding component_ord_def
  by (intro total_cmp_then_with total_cmp_key total_cmp_map [OF value_cmp_total [of UNIV]]) simp

lemma component_value_serialize:
  assumes "datum_fits ty d" "serialize_datum (canonical_datum d) ty = Inr k"
  shows "component_value ty k = datum_value (canonical_datum d)"
proof -
  have "key_value ty k = Some (datum_value (canonical_datum d))"
    using key_value_serialize [of ty "canonical_datum d"] assms by simp
  then show ?thesis using assms
    by (cases ty) (auto simp: component_value_def datum_fits_simps canonical_datum_def datum_value_def serialize_datum_def)
qed

lemma component_ord_Equal:
  assumes "case_option True (\<lambda>k. k \<in> component_keys ty) a" "case_option True (\<lambda>k. k \<in> component_keys ty) b"
    "component_ord ty a b = Equal"
  shows "a = b"
proof (cases a; cases b)
  fix k l assume ab: "a = Some k" "b = Some l"
  then obtain d e where d: "datum_fits ty d" "serialize_datum (canonical_datum d) ty = Inr k"
    and e: "datum_fits ty e" "serialize_datum (canonical_datum e) ty = Inr l"
    using assms(1,2) by (auto simp: component_keys_def)
  have "datum_value (canonical_datum d) = datum_value (canonical_datum e)"
    using assms(3) ab by (simp add: component_value_serialize [OF d] component_value_serialize [OF e])
  then show ?thesis using datum_value_serialize [of ty "canonical_datum d" "canonical_datum e"] d e ab by simp
qed (use assms(3) in auto)

section \<open>Codecs of scalar columns\<close>

definition scalar_codec :: "data_type list \<Rightarrow> key_codec" where
  "scalar_codec tys = \<lparr>codec_types = tys, codec_comparators = map make_key_comparator tys\<rparr>"

lemma codec_new_scalar: "codec_new fs = scalar_codec (map field_type fs)"
  by (simp add: codec_new_def scalar_codec_def)

lemma scalar_codec_simps [simp]:
  "codec_types (scalar_codec tys) = tys" "codec_comparators (scalar_codec tys) = map make_key_comparator tys"
  by (simp_all add: scalar_codec_def)

lemma supported_not_row: "supported_type ty \<Longrightarrow> make_key_comparator ty = scalar_key_comparator ty"
  by (cases ty) (simp_all add: supported_type_def variable_width_def)

lemma compare_component_readable:
  assumes "i < length tys" "supported_type (tys ! i)"
    "case_option True (\<lambda>k. k \<in> readable_keys (tys ! i)) a" "case_option True (\<lambda>k. k \<in> readable_keys (tys ! i)) b"
  shows "compare_component (scalar_codec tys) i a b = Inr (component_ord (tys ! i) a b)"
proof (cases a; cases b)
  fix k l assume ab: "a = Some k" "b = Some l"
  have len: "tys ! i = TFloat nl \<Longrightarrow> length k = 4 \<and> length l = 4"
    "tys ! i = TDouble nl \<Longrightarrow> length k = 8 \<and> length l = 8" for nl
    using assms(3,4) ab by (auto simp: readable_keys_def key_value_def split: if_splits)
  have "make_key_comparator (tys ! i) k l = Inr (key_ord (tys ! i) k l)"
    using assms ab by (simp add: supported_not_row comparator_readable)
  then show ?thesis using assms(1) ab len
    by (cases "tys ! i") (auto simp: compare_component_def fixed_key_bytes_def component_value_def key_ord_def)
qed (auto simp: compare_component_def)

section \<open>Layout\<close>

definition frame :: "data_type \<Rightarrow> bytes option \<Rightarrow> bytes" where
  "frame ty c = (case c of
     None \<Rightarrow> []
   | Some k \<Rightarrow> if variable_width ty then encode_var_int (int (length k)) @ k else k)"

definition frames :: "data_type list \<Rightarrow> bytes option list \<Rightarrow> bytes" where
  "frames tys cs = concat (map2 frame tys cs)"

fun mark_nulls :: "nat \<Rightarrow> bytes option list \<Rightarrow> bytes \<Rightarrow> bytes" where
  "mark_nulls i [] h = h"
| "mark_nulls i (c # cs) h = mark_nulls (i + 1) cs
     (if c = None then h[1 + i div 8 := h ! (1 + i div 8) OR push_bit (i mod 8) 1] else h)"

definition layout :: "data_type list \<Rightarrow> bytes option list \<Rightarrow> bytes" where
  "layout tys cs = mark_nulls 0 cs (replicate (header_len (length cs)) 0) @ frames tys cs"

definition component_ok :: "data_type \<Rightarrow> bytes option \<Rightarrow> bool" where
  "component_ok ty c \<longleftrightarrow> supported_type ty
     \<and> (case c of None \<Rightarrow> True | Some k \<Rightarrow> k \<in> component_keys ty \<and> int (length k) \<le> i32_max)"

text \<open>Components of a tuple whose bytes are no longer than a slice can be.\<close>

definition tuple_ok :: "data_type list \<Rightarrow> bytes option list \<Rightarrow> bool" where
  "tuple_ok tys cs \<longleftrightarrow> tys \<noteq> [] \<and> list_all2 component_ok tys cs \<and> length (layout tys cs) < 2 ^ 63"

lemma length_mark_nulls [simp]: "length (mark_nulls i cs h) = length h"
  by (induction i cs h rule: mark_nulls.induct) auto

lemma byte_bit: "(w :: byte) AND 2 ^ m = 0 \<longleftrightarrow> \<not> bit w m"
  by (rule and_exp_eq_0_iff_not_bit)

lemma byte_or_bit: "k < 8 \<Longrightarrow> bit ((w :: byte) OR 2 ^ m) k \<longleftrightarrow> bit w k \<or> k = m"
  by (auto simp: bit_or_iff bit_exp_iff)

lemma same_bit: "i div 8 = j div 8 \<Longrightarrow> i mod 8 = j mod 8 \<Longrightarrow> i = j" for i j :: nat
  by (metis div_mult_mod_eq)

lemma mark_nulls_bit:
  assumes "1 + j div 8 < length h"
  shows "bit (mark_nulls i cs h ! (1 + j div 8)) (j mod 8)
     \<longleftrightarrow> bit (h ! (1 + j div 8)) (j mod 8) \<or> (i \<le> j \<and> j < i + length cs \<and> cs ! (j - i) = None)"
  using assms
proof (induction i cs h rule: mark_nulls.induct)
  case (2 i c cs h)
  let ?h = "if c = None then h[1 + i div 8 := h ! (1 + i div 8) OR push_bit (i mod 8) 1] else h"
  have "bit (?h ! (1 + j div 8)) (j mod 8) \<longleftrightarrow> bit (h ! (1 + j div 8)) (j mod 8) \<or> (c = None \<and> i = j)"
    using 2(2) same_bit [of i j] by (cases "i div 8 = j div 8") (auto simp: byte_or_bit)
  moreover have "i + 1 \<le> j \<and> j < i + 1 + length cs \<and> cs ! (j - (i + 1)) = None \<or> (c = None \<and> i = j)
      \<longleftrightarrow> i \<le> j \<and> j < i + length (c # cs) \<and> (c # cs) ! (j - i) = None"
    by (cases "i = j") (auto simp: nth_Cons' Suc_diff_Suc not_le)
  ultimately show ?case using 2 by (auto simp del: One_nat_def)
qed auto

lemma header_byte: "i < n \<Longrightarrow> 1 + i div 8 < header_len n"
proof -
  assume "i < n"
  then have "(i + 8) div 8 \<le> (n + 7) div 8" by (intro div_le_mono) simp
  then show ?thesis by (simp add: header_len_def)
qed

lemma layout_null_bit:
  assumes "i < length cs"
  shows "(layout tys cs ! (1 + i div 8) AND push_bit (i mod 8) 1 \<noteq> 0) = (cs ! i = None)"
proof -
  let ?h = "replicate (header_len (length cs)) (0 :: byte)"
  have h: "1 + i div 8 < length ?h" using header_byte [OF assms] by simp
  then have "layout tys cs ! (1 + i div 8) = mark_nulls 0 cs ?h ! (1 + i div 8)"
    unfolding layout_def by (subst nth_append) simp
  then show ?thesis using mark_nulls_bit [OF h, of 0 cs] h assms by (simp add: byte_bit del: One_nat_def)
qed

lemma frames_Nil [simp]: "frames [] cs = []" "frames tys [] = []"
  by (simp_all add: frames_def)

lemma frames_Cons [simp]: "frames (ty # tys) (c # cs) = frame ty c @ frames tys cs"
  by (simp add: frames_def)

lemma frames_append:
  "length xs = length cs \<Longrightarrow> frames (xs @ ys) (cs @ ds) = frames xs cs @ frames ys ds"
  by (simp add: frames_def)

section \<open>Reading\<close>

lemma timestamp_component:
  assumes "k \<in> component_keys ty" "ty = TTimestamp nl p \<or> ty = TLocalZonedTimestamp nl p" "3 < p"
  shows "\<exists>m n. k = to_le 8 m @ encode_var_int n \<and> 0 \<le> n \<and> n < 1000000"
  using assms
  by (auto simp: component_keys_def datum_fits_simps canonical_datum_def serialize_datum_def serialize_timestamp_def
      timestamp_precision_of_def timestamp_compact_precision_def) blast+

lemma timestamp_len_component:
  assumes "drop off key = to_le 8 m @ encode_var_int n @ rest" "0 \<le> n" "n < 1000000" "length key < 2 ^ 63"
  shows "timestamp_len key off = Inr (length (to_le 8 m @ encode_var_int n))"
proof -
  have "off \<le> length key" using assms(1) length_encode_var_int(1) [of n] by (cases "off \<le> length key") auto
  then have "checked_add_usize off 8 = Some (off + 8)" using assms(4) by (simp add: checked_add_usize_def)
  moreover have "drop (off + 8) key = encode_var_int n @ rest"
    using arg_cong [OF assms(1), of "drop 8"] by (simp add: add.commute)
  then have "try_decode_var_int_from_slice key (off + 8) = Inr (n, length (encode_var_int n))"
    using assms(2,3) by (intro try_decode_var_int_from_slice_encode) (simp_all add: int_range_simps)
  ultimately show ?thesis using assms(2,3) by (simp add: timestamp_len_def ok_or_def)
qed

lemma component_extent_frame:
  assumes k: "k \<in> component_keys ty" "int (length k) \<le> i32_max" and ty: "supported_type ty"
    and key: "drop off key = frame ty (Some k) @ rest" "length key < 2 ^ 63"
  shows "component_extent ty key off = Inr (length k, off + (length (frame ty (Some k)) - length k))"
proof (cases "variable_width ty")
  case True
  then have "drop off key = encode_var_int (int (length k)) @ k @ rest" using key(1) by (simp add: frame_def)
  moreover have "in_i32 (int (length k))" using k(2) by (simp add: int_range_simps)
  ultimately have "try_decode_var_int_from_slice key off = Inr (int (length k), length (encode_var_int (int (length k))))"
    by (intro try_decode_var_int_from_slice_encode)
  then show ?thesis using True by (simp add: component_extent_def frame_def)
next
  case False
  then have d: "drop off key = k @ rest" and f: "frame ty (Some k) = k" using key(1) by (simp_all add: frame_def)
  have ts: ?thesis if t: "ty = TTimestamp nl p \<or> ty = TLocalZonedTimestamp nl p" for nl p
  proof (cases "3 < p")
    case True
    obtain m n where mn: "k = to_le 8 m @ encode_var_int n" "0 \<le> n" "n < 1000000"
      using timestamp_component [OF k(1) t True] by blast
    then have "timestamp_len key off = Inr (length k)"
      using timestamp_len_component [OF _ mn(2,3) key(2), of off m rest] d by simp
    then show ?thesis using t True f False by (auto simp: component_extent_def)
  next
    case p: False
    then have "length k = 8" using k(1) t
      by (auto simp: component_keys_def datum_fits_simps canonical_datum_def serialize_datum_def serialize_timestamp_def
          timestamp_precision_of_def timestamp_compact_precision_def)
    then show ?thesis using t p f False by (auto simp: component_extent_def)
  qed
  show ?thesis
  proof (cases ty)
    case TTimestamp then show ?thesis using ts by blast
  next
    case TLocalZonedTimestamp then show ?thesis using ts by blast
  qed (use k(1) ty False f in \<open>(auto simp: component_extent_def supported_type_def variable_width_def component_keys_def
      datum_fits_simps canonical_datum_def serialize_datum_def decimal_compact_precision_def)\<close>)
qed

text \<open>The cursor after \<open>i\<close> components.\<close>

definition cursor_at :: "data_type list \<Rightarrow> bytes option list \<Rightarrow> nat \<Rightarrow> key_cursor" where
  "cursor_at tys cs i = \<lparr>cur_key = layout tys cs, cur_position = i,
     cur_offset = header_len (length cs) + length (frames (take i tys) (take i cs))\<rparr>"

lemma cursor_at_simps [simp]:
  "cur_key (cursor_at tys cs i) = layout tys cs" "cur_position (cursor_at tys cs i) = i"
  by (simp_all add: cursor_at_def)

lemma layout_drop:
  assumes "length tys = length cs"
  shows "drop (cur_offset (cursor_at tys cs i)) (layout tys cs) = frames (drop i tys) (drop i cs)"
proof -
  have "frames tys cs = frames (take i tys) (take i cs) @ frames (drop i tys) (drop i cs)"
    using frames_append [of "take i tys" "take i cs" "drop i tys" "drop i cs"] assms by simp
  then show ?thesis by (simp add: layout_def cursor_at_def)
qed

lemma tuple_ok_length: "tuple_ok tys cs \<Longrightarrow> length cs = length tys"
  by (auto simp: tuple_ok_def dest: list_all2_lengthD)

lemma next_component_at:
  assumes ok: "tuple_ok tys cs" and i: "i < length tys"
  shows "next_component (scalar_codec tys) (cursor_at tys cs i) = Inr (cs ! i, cursor_at tys cs (Suc i))"
proof -
  have l: "length tys = length cs" and short: "length (layout tys cs) < 2 ^ 63" and ci: "component_ok (tys ! i) (cs ! i)"
    using ok i by (auto simp: tuple_ok_def list_all2_conv_all_nth)
  have hb: "1 + i div 8 < length (layout tys cs)"
    using header_byte [of i "length cs"] i l by (simp add: layout_def)
  have nxt: "cursor_at tys cs (Suc i)
      = (cursor_at tys cs i)\<lparr>cur_position := i + 1,
           cur_offset := cur_offset (cursor_at tys cs i) + length (frame (tys ! i) (cs ! i))\<rparr>"
    using i l by (simp add: cursor_at_def take_Suc_conv_app_nth frames_append)
  show ?thesis
  proof (cases "cs ! i")
    case None
    then have "layout tys cs ! (1 + i div 8) AND push_bit (i mod 8) 1 \<noteq> 0" using layout_null_bit [of i cs tys] i l by simp
    then show ?thesis using None hb i unfolding nxt by (simp add: next_component_def Let_def frame_def del: One_nat_def)
  next
    case (Some k)
    define off where "off = cur_offset (cursor_at tys cs i)"
    have "drop off (layout tys cs) = frames (drop i tys) (drop i cs)" unfolding off_def by (rule layout_drop [OF l])
    also have "\<dots> = frame (tys ! i) (Some k) @ frames (drop (Suc i) tys) (drop (Suc i) cs)"
      using i l Some by (simp add: Cons_nth_drop_Suc [symmetric])
    finally have d: "drop off (layout tys cs) = frame (tys ! i) (Some k) @ frames (drop (Suc i) tys) (drop (Suc i) cs)" .
    have kk: "k \<in> component_keys (tys ! i)" "int (length k) \<le> i32_max" "supported_type (tys ! i)"
      using ci Some by (simp_all add: component_ok_def)
    define start where "start = off + (length (frame (tys ! i) (Some k)) - length k)"
    have ext: "component_extent (tys ! i) (layout tys cs) off = Inr (length k, start)"
      unfolding start_def by (rule component_extent_frame [OF kk d short])
    have fl: "length k \<le> length (frame (tys ! i) (Some k))" by (simp add: frame_def)
    then have last: "start + length k = off + length (frame (tys ! i) (Some k))" by (simp add: start_def)
    have "frame (tys ! i) (Some k) \<noteq> [] \<or> length k = 0" by (auto simp: frame_def)
    moreover have "off \<le> length (layout tys cs)"
      unfolding off_def cursor_at_def layout_def
      using l frames_append [of "take i tys" "take i cs" "drop i tys" "drop i cs"] by simp
    ultimately have inside: "start + length k \<le> length (layout tys cs)"
      using arg_cong [OF d, of length] last by simp
    have "drop (length (frame (tys ! i) (Some k)) - length k) (frame (tys ! i) (Some k)) = k" by (simp add: frame_def)
    moreover have "drop start (layout tys cs)
        = drop (length (frame (tys ! i) (Some k)) - length k) (drop off (layout tys cs))"
      unfolding start_def by (simp add: add.commute)
    ultimately have comp: "take (length k) (drop start (layout tys cs)) = k" by (simp add: d)
    have cc: "compare_component (scalar_codec tys) i (Some k) (Some k) = Inr (component_ord (tys ! i) (Some k) (Some k))"
      using i kk component_keys_readable by (intro compare_component_readable) auto
    have nb: "\<not> layout tys cs ! (1 + i div 8) AND push_bit (i mod 8) 1 \<noteq> 0"
      using layout_null_bit [of i cs tys] i l Some by simp
    show ?thesis using i hb nb ext inside comp cc short last Some unfolding nxt off_def [symmetric]
      by (simp add: next_component_def Let_def checked_add_usize_def ok_or_def del: One_nat_def flip: off_def)
  qed
qed

lemma codec_cursor_layout:
  assumes "tuple_ok tys cs"
  shows "codec_cursor (scalar_codec tys) (layout tys cs) = Inr (cursor_at tys cs 0)"
proof -
  have "length tys = length cs" using assms tuple_ok_length by simp
  then show ?thesis by (simp add: codec_cursor_def cursor_at_def layout_def Let_def)
qed

lemma finish_at:
  assumes "tuple_ok tys cs" "i \<le> length tys"
  shows "finish (scalar_codec tys) (cursor_at tys cs i) = Inr ()"
  using assms(2)
proof (induction "length tys - i" arbitrary: i)
  case 0
  have "length tys = length cs" using assms(1) tuple_ok_length by simp
  with 0 show ?case by (subst finish.simps) (simp add: cursor_at_def layout_def)
next
  case (Suc n)
  then have "i < length tys" by simp
  then show ?case using Suc next_component_at [OF assms(1)] by (subst finish.simps) simp
qed

lemma validate_layout: "tuple_ok tys cs \<Longrightarrow> validate_key (scalar_codec tys) (layout tys cs) = Inr ()"
  by (simp add: validate_key_def codec_cursor_layout finish_at)

section \<open>Order of tuples\<close>

fun tuple_ord :: "data_type list \<Rightarrow> bytes option list \<Rightarrow> bytes option list \<Rightarrow> ordering" where
  "tuple_ord (ty # tys) (c # cs) (d # ds) = then_with (component_ord ty c d) (tuple_ord tys cs ds)"
| "tuple_ord tys cs ds = Equal"

lemma tuple_ord_total: "total_cmp (tuple_ord tys) {cs. length cs = length tys}"
proof (induction tys)
  case Nil
  show ?case by (rule total_cmp_cong [OF total_cmp_const]) simp
next
  case (Cons ty tys)
  let ?A = "{cs :: bytes option list. length cs = length (ty # tys)}"
  have "total_cmp (\<lambda>cs ds. then_with (component_ord ty (hd cs) (hd ds)) (tuple_ord tys (tl cs) (tl ds))) ?A"
    by (intro total_cmp_then_with total_cmp_map [OF component_ord_total [of ty UNIV]] total_cmp_map [OF Cons]) auto
  then show ?case by (rule total_cmp_cong) (auto simp: length_Suc_conv)
qed

lemma tuple_ord_Equal:
  assumes "list_all2 component_ok tys cs" "list_all2 component_ok tys ds" "tuple_ord tys cs ds = Equal"
  shows "cs = ds"
  using assms
proof (induction tys cs ds rule: tuple_ord.induct)
  case (1 ty tys c cs d ds)
  have "c = d" using 1(2,3,4) by (intro component_ord_Equal [of ty]) (auto simp: component_ok_def split: option.splits)
  then show ?case using 1 by auto
qed auto

lemma compare_at:
  assumes "tuple_ok tys cs" "tuple_ok tys ds" "i < length tys"
  shows "compare_component (scalar_codec tys) i (cs ! i) (ds ! i) = Inr (component_ord (tys ! i) (cs ! i) (ds ! i))"
proof -
  have "component_ok (tys ! i) (cs ! i)" "component_ok (tys ! i) (ds ! i)"
    using assms by (auto simp: tuple_ok_def list_all2_conv_all_nth)
  then show ?thesis using assms(3) component_keys_readable [of "tys ! i"]
    by (intro compare_component_readable) (auto simp: component_ok_def split: option.splits)
qed

lemma compare_loop_at:
  assumes ok: "tuple_ok tys cs" "tuple_ok tys ds" and i: "i \<le> length tys"
  shows "\<exists>j \<le> length tys. compare_loop (scalar_codec tys) [i..<length tys] (cursor_at tys cs i) (cursor_at tys ds i)
    = Inr (tuple_ord (drop i tys) (drop i cs) (drop i ds), cursor_at tys cs j, cursor_at tys ds j)"
  using i
proof (induction "length tys - i" arbitrary: i)
  case 0
  then show ?case by auto
next
  case (Suc n)
  then have i: "i < length tys" by simp
  have l: "length cs = length tys" "length ds = length tys"
    using ok tuple_ok_length by simp_all
  have o: "tuple_ord (drop i tys) (drop i cs) (drop i ds)
      = then_with (component_ord (tys ! i) (cs ! i) (ds ! i)) (tuple_ord (drop (Suc i) tys) (drop (Suc i) cs) (drop (Suc i) ds))"
    using i l by (simp add: Cons_nth_drop_Suc [symmetric])
  have up: "[i..<length tys] = i # [Suc i..<length tys]" using i by (rule upt_conv_Cons)
  note step = next_component_at [OF ok(1) i] next_component_at [OF ok(2) i] compare_at [OF ok i]
  show ?case
  proof (cases "component_ord (tys ! i) (cs ! i) (ds ! i) = Equal")
    case True
    then show ?thesis unfolding up o using Suc i by (simp add: step)
  next
    case False
    then have "then_with (component_ord (tys ! i) (cs ! i) (ds ! i)) r = component_ord (tys ! i) (cs ! i) (ds ! i)" for r
      by (cases "component_ord (tys ! i) (cs ! i) (ds ! i)") auto
    then show ?thesis unfolding up o using False i by (auto simp: step intro: exI [of _ "Suc i"])
  qed
qed

lemma compare_keys_layout:
  assumes "tuple_ok tys cs" "tuple_ok tys ds"
  shows "compare_keys (scalar_codec tys) (layout tys cs) (layout tys ds) = Inr (tuple_ord tys cs ds)"
  using compare_loop_at [OF assms, of 0] assms by (auto simp: compare_keys_def codec_cursor_layout finish_at)

section \<open>Tuples of values\<close>

text \<open>The component a value becomes, and the tuples a row of scalar columns holds.\<close>

definition component_of :: "data_type \<Rightarrow> datum option \<Rightarrow> bytes option" where
  "component_of ty v = (case v of None \<Rightarrow> None | Some d \<Rightarrow> ok (serialize_datum (canonical_datum d) ty))"

definition components_of :: "data_type list \<Rightarrow> datum option list \<Rightarrow> bytes option list" where
  "components_of tys vs = map2 component_of tys vs"

definition value_fits :: "data_type \<Rightarrow> datum option \<Rightarrow> bool" where
  "value_fits ty v \<longleftrightarrow> supported_type ty
     \<and> (case v of None \<Rightarrow> True
        | Some d \<Rightarrow> datum_fits ty d \<and> (case component_of ty v of None \<Rightarrow> False | Some k \<Rightarrow> int (length k) \<le> i32_max))"

definition tuple_fits :: "data_type list \<Rightarrow> datum option list \<Rightarrow> bool" where
  "tuple_fits tys vs \<longleftrightarrow> tys \<noteq> [] \<and> list_all2 value_fits tys vs \<and> length (layout tys (components_of tys vs)) < 2 ^ 63"

lemma components_of_Nil [simp]: "components_of [] vs = []" "components_of tys [] = []"
  by (simp_all add: components_of_def)

lemma components_of_Cons [simp]:
  "components_of (ty # tys) (v # vs) = component_of ty v # components_of tys vs"
  by (simp add: components_of_def)

lemma value_fits_component: "value_fits ty v \<Longrightarrow> component_ok ty (component_of ty v)"
  by (cases v) (auto simp: value_fits_def component_ok_def component_of_def component_keys_def split: option.splits)

lemma components_of_ok: "list_all2 value_fits tys vs \<Longrightarrow> list_all2 component_ok tys (components_of tys vs)"
  by (induction rule: list_all2_induct) (simp_all add: value_fits_component)

lemma tuple_fits_ok: "tuple_fits tys vs \<Longrightarrow> tuple_ok tys (components_of tys vs)"
  by (simp add: tuple_fits_def tuple_ok_def components_of_ok)

lemma fits_validates: "datum_fits ty d \<Longrightarrow> validate_datum_matches_type d ty = Inr ()"
  by (cases ty) (auto simp: datum_fits_simps validate_datum_matches_type_def)

lemma tl_drop_Suc: "drop (Suc i) xs = tl (drop i xs)"
  by (simp add: drop_Suc tl_drop)

lemma serialize_loop_eq:
  assumes "list_all2 value_fits tys' vs" "drop i tys = tys'" "i + length tys' = length tys"
    "length h = header_len (length tys)"
  shows "serialize_loop (scalar_codec tys) i (zip vs tys') (h @ b)
    = Inr (mark_nulls i (components_of tys' vs) h @ b @ frames tys' (components_of tys' vs))"
  using assms
proof (induction arbitrary: i h b rule: list_all2_induct)
  case (Cons ty tys' v vs)
  have i: "i < length tys" "tys ! i = ty" "drop (i + 1) tys = tys'" "i + 1 + length tys' = length tys"
    using Cons.prems(1,2) nth_via_drop [of i tys ty tys'] tl_drop_Suc [of i tys] by auto
  have hb: "1 + i div 8 < length h" using header_byte [OF i(1)] Cons.prems(3) by simp
  have su: "supported_type ty" using Cons.hyps(1) by (simp add: value_fits_def)
  show ?case
  proof (cases v)
    case None
    let ?h = "h[1 + i div 8 := h ! (1 + i div 8) OR push_bit (i mod 8) 1]"
    have "(h @ b)[1 + i div 8 := (h @ b) ! (1 + i div 8) OR push_bit (i mod 8) 1] = ?h @ b"
      using hb by (simp add: nth_append list_update_append1 del: One_nat_def)
    then show ?thesis using Cons.IH [OF i(3,4), of ?h b] Cons.prems(3) None su
      by (simp add: component_of_def frame_def del: One_nat_def push_bit_of_1)
  next
    case (Some d)
    then obtain k where k: "serialize_datum (canonical_datum d) ty = Inr k" "int (length k) \<le> i32_max" "datum_fits ty d"
      using Cons.hyps(1) by (auto simp: value_fits_def component_of_def split: option.splits)
    have "serialize_component (scalar_codec tys) i d = Inr k"
      using serialize_component_canonical [of i "scalar_codec tys" d] i(1,2) k(1) by simp
    then show ?thesis
      using Some su k fits_validates [OF k(3)] Cons.IH [OF i(3,4) Cons.prems(3), of "b @ frame ty (Some k)"]
      by (cases "variable_width ty") (simp_all add: component_of_def frame_def ok_def)
  qed
qed simp

lemma codec_serialize_eq:
  assumes "tuple_fits tys vs"
  shows "codec_serialize (scalar_codec tys) vs = Inr (layout tys (components_of tys vs))"
proof -
  have vs: "list_all2 value_fits tys vs" "tys \<noteq> []" using assms by (simp_all add: tuple_fits_def)
  then have l: "length vs = length tys" by (simp add: list_all2_lengthD)
  have "serialize_loop (scalar_codec tys) 0 (zip vs tys) (replicate (header_len (length vs)) 0 @ [])
      = Inr (layout tys (components_of tys vs))"
    using serialize_loop_eq [OF vs(1), of 0 tys "replicate (header_len (length vs)) 0" "[]"] l
    by (simp add: layout_def components_of_def)
  then show ?thesis using l vs(2) validate_layout [OF tuple_fits_ok [OF assms]] by (auto simp: codec_serialize_def)
qed

text \<open>Tuples are ordered by their first difference, NULL below every value.\<close>

definition value_ord :: "datum option \<Rightarrow> datum option \<Rightarrow> ordering" where
  "value_ord a b =
     (case (a, b) of
        (None, None) \<Rightarrow> Equal
      | (None, Some _) \<Rightarrow> Less
      | (Some _, None) \<Rightarrow> Greater
      | (Some d, Some e) \<Rightarrow> value_cmp (datum_value (canonical_datum d)) (datum_value (canonical_datum e)))"

fun values_ord :: "datum option list \<Rightarrow> datum option list \<Rightarrow> ordering" where
  "values_ord (a # as) (b # bs) = then_with (value_ord a b) (values_ord as bs)"
| "values_ord as bs = Equal"

lemma component_ord_values:
  assumes "value_fits ty a" "value_fits ty b"
  shows "component_ord ty (component_of ty a) (component_of ty b) = value_ord a b"
proof (cases a; cases b)
  fix d e assume ab: "a = Some d" "b = Some e"
  then obtain k l where k: "datum_fits ty d" "serialize_datum (canonical_datum d) ty = Inr k"
    and l: "datum_fits ty e" "serialize_datum (canonical_datum e) ty = Inr l"
    using assms by (auto simp: value_fits_def component_of_def split: option.splits)
  then show ?thesis using ab
    by (simp add: component_of_def value_ord_def component_value_serialize [OF k] component_value_serialize [OF l] ok_def)
qed (use assms in \<open>auto simp: value_ord_def component_of_def value_fits_def ok_def split: option.splits\<close>)

lemma tuple_ord_values:
  "list_all2 value_fits tys as \<Longrightarrow> list_all2 value_fits tys bs \<Longrightarrow>
   tuple_ord tys (components_of tys as) (components_of tys bs) = values_ord as bs"
proof (induction arbitrary: bs rule: list_all2_induct)
  case (Cons ty tys a as)
  then show ?case by (cases bs) (auto simp: component_ord_values)
qed simp

section \<open>Reading a key back\<close>

function components_from :: "key_codec \<Rightarrow> key_cursor \<Rightarrow> bytes option list result" where
  "components_from codec c =
     (if cur_position c < length (codec_types codec) then
        (case next_component codec c of
           Inl e \<Rightarrow> Inl e
         | Inr (x, c') \<Rightarrow> and_then (components_from codec c') (\<lambda>xs. Inr (x # xs)))
      else Inr [])"
  by pat_completeness auto
termination
  by (relation "measure (\<lambda>(codec, c). length (codec_types codec) - cur_position c)")
    (auto dest: next_component_position)

declare components_from.simps [simp del]

definition key_components :: "data_type list \<Rightarrow> bytes \<Rightarrow> bytes option list" where
  "key_components tys key =
     (case and_then (codec_cursor (scalar_codec tys) key) (components_from (scalar_codec tys)) of
        Inl _ \<Rightarrow> replicate (length tys) None
      | Inr cs \<Rightarrow> cs)"

lemma components_from_at:
  assumes "tuple_ok tys cs" "i \<le> length tys"
  shows "components_from (scalar_codec tys) (cursor_at tys cs i) = Inr (drop i cs)"
  using assms(2)
proof (induction "length tys - i" arbitrary: i)
  case 0
  then show ?case using tuple_ok_length [OF assms(1)] by (subst components_from.simps) simp
next
  case (Suc n)
  then have "i < length tys" by simp
  then show ?case using Suc next_component_at [OF assms(1)] tuple_ok_length [OF assms(1)]
    by (subst components_from.simps) (simp add: Cons_nth_drop_Suc)
qed

lemma key_components_layout: "tuple_ok tys cs \<Longrightarrow> key_components tys (layout tys cs) = cs"
  by (simp add: key_components_def codec_cursor_layout components_from_at)

definition tuple_keys :: "data_type list \<Rightarrow> bytes set" where
  "tuple_keys tys = layout tys ` {cs. tuple_ok tys cs}"

definition row_ord :: "data_type list \<Rightarrow> bytes \<Rightarrow> bytes \<Rightarrow> ordering" where
  "row_ord tys a b = tuple_ord tys (key_components tys a) (key_components tys b)"

lemma row_ord_layout: "tuple_ok tys cs \<Longrightarrow> tuple_ok tys ds \<Longrightarrow> row_ord tys (layout tys cs) (layout tys ds) = tuple_ord tys cs ds"
  by (simp add: row_ord_def key_components_layout)

lemma row_key_order: "key_order (compare_keys (scalar_codec tys)) (row_ord tys) (tuple_keys tys)"
proof -
  have "total_cmp (row_ord tys) (tuple_keys tys)"
    unfolding row_ord_def
    by (rule total_cmp_map [OF tuple_ord_total]) (auto simp: tuple_keys_def key_components_layout tuple_ok_length)
  moreover have "compare_keys (scalar_codec tys) x y = Inr (row_ord tys x y) \<and> (row_ord tys x y = Equal \<longrightarrow> x = y)"
    if xy: "x \<in> tuple_keys tys" "y \<in> tuple_keys tys" for x y
  proof -
    obtain cs ds where "tuple_ok tys cs" "x = layout tys cs" "tuple_ok tys ds" "y = layout tys ds"
      using xy by (auto simp: tuple_keys_def)
    then show ?thesis using tuple_ord_Equal [of tys cs ds]
      by (auto simp: compare_keys_layout row_ord_layout) (simp add: tuple_ok_def)
  qed
  ultimately show ?thesis by (simp add: key_order_def)
qed

text \<open>The keys and the order of a column of any type an index can have.\<close>

definition type_keys :: "data_type \<Rightarrow> bytes set" where
  "type_keys ty = (case ty of TRow _ fs \<Rightarrow> tuple_keys (map field_type fs) | _ \<Rightarrow> datum_keys ty)"

definition type_ord :: "data_type \<Rightarrow> bytes \<Rightarrow> bytes \<Rightarrow> ordering" where
  "type_ord ty = (case ty of TRow _ fs \<Rightarrow> row_ord (map field_type fs) | _ \<Rightarrow> key_ord ty)"

lemma scalar_key_order: "key_order (scalar_key_comparator ty) (key_ord ty) (datum_keys ty)"
  unfolding key_order_def
proof (intro conjI ballI impI)
  show "total_cmp (key_ord ty) (datum_keys ty)" by (rule key_ord_total)
  fix x y assume "x \<in> datum_keys ty" "y \<in> datum_keys ty"
  then show "scalar_key_comparator ty x y = Inr (key_ord ty x y)"
    using datum_keys_readable comparator_readable by blast
qed (rule key_ord_Equal)

lemma comparator_key_order: "key_order (make_key_comparator ty) (type_ord ty) (type_keys ty)"
proof (cases ty)
  case (TRow nl fs)
  have "make_key_comparator ty = compare_keys (scalar_codec (map field_type fs))"
    by (simp add: TRow scalar_codec_def comp_def)
  then show ?thesis using row_key_order TRow by (simp add: type_keys_def type_ord_def)
qed (simp_all add: type_keys_def type_ord_def scalar_key_order)

section \<open>Properties\<close>

text \<open>C22. Composite keys round trip and order tuples. Every tuple of scalar values, NULLs among them, is written as
  one key; a cursor over the key reads back the component of each value and the NULL where there is one, and
  accepts the key as complete. Two such keys compare as the tuples do: by the first column in which they
  differ, NULL before every value, all NaNs alike; the keys are equal exactly when the comparison is.\<close>

theorem composite_keys_correct:
  assumes "tuple_fits (map field_type fs) as" "tuple_fits (map field_type fs) bs"
  shows "\<exists>k l. serialize_composite_key as fs = Inr k \<and> serialize_composite_key bs fs = Inr l
    \<and> key_components (map field_type fs) k = components_of (map field_type fs) as
    \<and> validate_key (codec_new fs) k = Inr ()
    \<and> make_key_comparator (TRow nl fs) k l = Inr (values_ord as bs)
    \<and> (values_ord as bs = Equal \<longleftrightarrow> k = l)"
proof -
  let ?T = "map field_type fs"
  let ?a = "components_of ?T as" and ?b = "components_of ?T bs"
  have ok: "tuple_ok ?T ?a" "tuple_ok ?T ?b" using assms by (simp_all add: tuple_fits_ok)
  have o: "tuple_ord ?T ?a ?b = values_ord as bs"
    using assms by (intro tuple_ord_values) (simp_all add: tuple_fits_def)
  have c: "make_key_comparator (TRow nl fs) = compare_keys (scalar_codec ?T)"
    by (simp add: scalar_codec_def comp_def)
  have "values_ord as bs = Equal \<longleftrightarrow> layout ?T ?a = layout ?T ?b"
  proof
    assume "values_ord as bs = Equal"
    then show "layout ?T ?a = layout ?T ?b"
      using tuple_ord_Equal [of ?T ?a ?b] ok o by (simp add: tuple_ok_def)
  next
    assume "layout ?T ?a = layout ?T ?b"
    from arg_cong [OF this, of "key_components ?T"] have "?a = ?b"
      unfolding key_components_layout [OF ok(1)] key_components_layout [OF ok(2)] .
    then show "values_ord as bs = Equal"
      using o total_cmp.cmp_refl [OF tuple_ord_total, of ?a ?T] tuple_ok_length [OF ok(1)] by simp
  qed
  then show ?thesis unfolding serialize_composite_key_def codec_new_scalar c
    using assms ok by (simp add: codec_serialize_eq key_components_layout validate_layout compare_keys_layout o)
qed

definition sample_fields :: "data_field list" where
  "sample_fields = [DataField 0 ''a'' (TInt True) None None, DataField 1 ''b'' (TVarChar True 20) None None]"

theorem composite_keys_correct_witness:
  "serialize_composite_key [Some (DInt 7), None] sample_fields = Inr [0, 2, 7, 0, 0, 0]
   \<and> serialize_composite_key [Some (DInt 7), Some (DString [97])] sample_fields = Inr [0, 0, 7, 0, 0, 0, 1, 97]
   \<and> make_key_comparator (TRow True sample_fields) [0, 2, 7, 0, 0, 0] [0, 0, 7, 0, 0, 0, 1, 97] = Inr Less"
proof -
  let ?as = "[Some (DInt 7), None]" and ?bs = "[Some (DInt 7), Some (DString [97])]"
  have o: "values_ord ?as ?bs = Less" by (simp add: value_ord_def)
  have c: "components_of (map field_type sample_fields) ?as = [Some [7, 0, 0, 0], None]"
    "components_of (map field_type sample_fields) ?bs = [Some [7, 0, 0, 0], Some [97]]" by code_simp+
  have t: "map field_type sample_fields = [TInt True, TVarChar True 20]" by (simp add: sample_fields_def)
  have l: "layout [TInt True, TVarChar True 20] [Some [7, 0, 0, 0], None] = [0, 2, 7, 0, 0, 0]"
    "layout [TInt True, TVarChar True 20] [Some [7, 0, 0, 0], Some [97]] = [0, 0, 7, 0, 0, 0, 1, 97]" by code_simp+
  have f: "tuple_fits (map field_type sample_fields) ?as" "tuple_fits (map field_type sample_fields) ?bs"
    using c l unfolding t
    by (auto simp: tuple_fits_def value_fits_def supported_type_def variable_width_def datum_fits_simps int_range_simps
        valid_rstring_def is_scalar_def)
  have k: "serialize_composite_key ?as sample_fields = Inr [0, 2, 7, 0, 0, 0]"
    "serialize_composite_key ?bs sample_fields = Inr [0, 0, 7, 0, 0, 0, 1, 97]"
    using codec_serialize_eq [OF f(1)] codec_serialize_eq [OF f(2)] c l
    by (simp_all add: t serialize_composite_key_def codec_new_scalar)
  show ?thesis using composite_keys_correct [OF f, of True] k o by auto
qed

end
