(* ===== verification/Predicates.thy ===== *)
theory Predicates
  imports Rust_Strings
begin

text \<open>
  Evaluation of filter predicates, from \<^verbatim>\<open>crates/paimon/src/spec/predicate.rs\<close>: \<open>eval_leaf\<close> on one value, the LIKE
  matcher and the shapes of LIKE patterns that have a cheaper operator. An \<^verbatim>\<open>unreachable!\<close> of the source is a
  \<open>Panic\<close>. \<open>likes\<close> is the meaning of LIKE as a relation, against which the matcher and the shapes are proved.
\<close>

section \<open>LIKE\<close>

abbreviation (input) percent :: nat where "percent \<equiv> 37"
abbreviation (input) underscore :: nat where "underscore \<equiv> 95"
abbreviation (input) backslash :: nat where "backslash \<equiv> 92"

text \<open>The loop \<^verbatim>\<open>while vi <= value.len()\<close>: some suffix of the value passes.\<close>

fun some_suffix :: "(rstring \<Rightarrow> bool) \<Rightarrow> rstring \<Rightarrow> bool" where
  "some_suffix f [] = f []"
| "some_suffix f (c # v) = (f (c # v) \<or> some_suffix f v)"

lemma some_suffix_iff: "some_suffix f v \<longleftrightarrow> (\<exists>u s. v = u @ s \<and> f s)"
  by (induction v) (auto simp: Cons_eq_append_conv)

lemma some_suffix_cong [fundef_cong]:
  "v = w \<Longrightarrow> (\<And>s. length s \<le> length w \<Longrightarrow> f s = g s) \<Longrightarrow> some_suffix f v = some_suffix g w"
  by (induction w arbitrary: v) auto

text \<open>\<^verbatim>\<open>like_match_chars\<close>, with the positions into value and pattern replaced by what is left of them.\<close>

function like_match_chars :: "rstring \<Rightarrow> rstring \<Rightarrow> bool" where
  "like_match_chars v [] = (v = [])"
| "like_match_chars v (p # ps) =
     (if p = percent then
        let ps = dropWhile (\<lambda>c. c = percent) ps in
        if ps = [] then True else some_suffix (\<lambda>s. like_match_chars s ps) v
      else if p = underscore then
        (case v of [] \<Rightarrow> False | _ # v \<Rightarrow> like_match_chars v ps)
      else if p = backslash then
        (case ps of
           next # ps \<Rightarrow> (case v of [] \<Rightarrow> False | c # v \<Rightarrow> if c \<noteq> next then False else like_match_chars v ps)
         | [] \<Rightarrow> (case v of [] \<Rightarrow> False | c # v \<Rightarrow> if c \<noteq> backslash then False else like_match_chars v []))
      else (case v of [] \<Rightarrow> False | c # v \<Rightarrow> if c \<noteq> p then False else like_match_chars v ps))"
  by pat_completeness auto
termination
  by (relation "measure (\<lambda>(v, p). length p)") (auto simp: less_Suc_eq_le length_dropWhile_le)

declare like_match_chars.simps(2) [simp del]

definition like_match :: "rstring \<Rightarrow> rstring \<Rightarrow> bool" where
  "like_match v pattern = like_match_chars v pattern"

datatype like_shape =
    LikeLiteral rstring
  | LikeStartsWith rstring
  | LikeEndsWith rstring
  | LikeContains rstring
  | LikeResidual

text \<open>The lengths are of the UTF-8 bytes, and the byte of \<^verbatim>\<open>%\<close> occurs in an encoding only as that character.\<close>

definition optimize_like_pattern :: "rstring \<Rightarrow> like_shape" where
  "optimize_like_pattern pattern =
     (if pattern = [] \<or> backslash \<in> set pattern \<or> underscore \<in> set pattern then LikeResidual
      else
        let percent_count = length (filter (\<lambda>b. b = 37) (utf8 pattern)) in
        if percent_count = 0 then LikeLiteral pattern
        else if percent_count = 1 \<and> length (utf8 pattern) > 1 then
          (if last pattern = percent then LikeStartsWith (butlast pattern)
           else if hd pattern = percent then LikeEndsWith (tl pattern)
           else LikeResidual)
        else if percent_count = 2 \<and> length (utf8 pattern) > 2 \<and> hd pattern = percent \<and> last pattern = percent
        then LikeContains (butlast (tl pattern))
        else LikeResidual)"

section \<open>Leaves\<close>

text \<open>\<^verbatim>\<open>str::starts_with\<close>, \<^verbatim>\<open>str::ends_with\<close>, \<^verbatim>\<open>str::contains\<close>\<close>

definition str_starts_with :: "rstring \<Rightarrow> rstring \<Rightarrow> bool" where "str_starts_with s t = prefix t s"
definition str_ends_with :: "rstring \<Rightarrow> rstring \<Rightarrow> bool" where "str_ends_with s t = suffix t s"
definition str_contains :: "rstring \<Rightarrow> rstring \<Rightarrow> bool" where "str_contains s t = sublist t s"

definition eval_between :: "datum \<Rightarrow> datum list \<Rightarrow> bool result" where
  "eval_between v literals =
     (case literals of
        low # high # _ \<Rightarrow>
          let above_low = (datum_cmp v low = Some Greater \<or> datum_cmp v low = Some Equal);
              below_high = (datum_cmp v high = Some Less \<or> datum_cmp v high = Some Equal)
          in Inr (above_low \<and> below_high)
      | _ \<Rightarrow> Inl (Panic ''BETWEEN must have 2 literals''))"

definition first_cmp :: "datum \<Rightarrow> datum list \<Rightarrow> ordering option" where
  "first_cmp v literals = (case literals of [] \<Rightarrow> None | lit # _ \<Rightarrow> datum_cmp v lit)"

definition eval_strings :: "(rstring \<Rightarrow> rstring \<Rightarrow> bool) \<Rightarrow> datum \<Rightarrow> datum list \<Rightarrow> bool result" where
  "eval_strings f v literals =
     (case (v, literals) of
        (DString haystack, DString needle # _) \<Rightarrow> Inr (f haystack needle)
      | _ \<Rightarrow> Inl (Panic ''must have Datum::String value and literal''))"

definition eval_leaf :: "predicate_operator \<Rightarrow> datum option \<Rightarrow> datum list \<Rightarrow> bool result" where
  "eval_leaf op datum literals =
     (case op of
        OpIsNull \<Rightarrow> Inr (datum = None)
      | OpIsNotNull \<Rightarrow> Inr (datum \<noteq> None)
      | _ \<Rightarrow>
         (case datum of
            None \<Rightarrow> Inr False
          | Some v \<Rightarrow>
             (case op of
                OpEq \<Rightarrow> Inr (case literals of [] \<Rightarrow> False | lit # _ \<Rightarrow> datum_eq v lit)
              | OpNotEq \<Rightarrow> Inr (case literals of [] \<Rightarrow> False | lit # _ \<Rightarrow> \<not> datum_eq v lit)
              | OpLt \<Rightarrow> Inr (first_cmp v literals = Some Less)
              | OpLtEq \<Rightarrow> Inr (first_cmp v literals = Some Less \<or> first_cmp v literals = Some Equal)
              | OpGt \<Rightarrow> Inr (first_cmp v literals = Some Greater)
              | OpGtEq \<Rightarrow> Inr (first_cmp v literals = Some Greater \<or> first_cmp v literals = Some Equal)
              | OpIn \<Rightarrow> Inr (list_ex (datum_eq v) literals)
              | OpNotIn \<Rightarrow> Inr (\<not> list_ex (datum_eq v) literals)
              | OpStartsWith \<Rightarrow> eval_strings str_starts_with v literals
              | OpEndsWith \<Rightarrow> eval_strings str_ends_with v literals
              | OpContains \<Rightarrow> eval_strings str_contains v literals
              | OpLike \<Rightarrow> eval_strings like_match v literals
              | OpBetween \<Rightarrow> eval_between v literals
              | OpNotBetween \<Rightarrow> and_then (eval_between v literals) (\<lambda>b. Inr (\<not> b))
              | _ \<Rightarrow> Inl (Panic ''array predicates are evaluated against Arrow list arrays''))))"

section \<open>The meaning of LIKE\<close>

inductive likes :: "rstring \<Rightarrow> rstring \<Rightarrow> bool" where
  end_of_pattern: "likes [] []"
| many: "likes s ps \<Longrightarrow> likes (u @ s) (percent # ps)"
| one: "likes v ps \<Longrightarrow> likes (c # v) (underscore # ps)"
| escape: "likes v ps \<Longrightarrow> likes (c # v) (backslash # c # ps)"
| final_escape: "likes [backslash] [backslash]"
| char: "likes v ps \<Longrightarrow> c \<notin> {percent, underscore, backslash} \<Longrightarrow> likes (c # v) (c # ps)"

inductive_cases likes_NilE [elim!]: "likes v []"
inductive_cases likes_ConsE: "likes v (p # ps)"

lemma likes_Nil [simp]: "likes v [] \<longleftrightarrow> v = []"
  by (auto intro: likes.intros)

lemma likes_percent: "likes v (percent # ps) \<longleftrightarrow> (\<exists>u s. v = u @ s \<and> likes s ps)"
  by (auto intro: likes.intros elim!: likes_ConsE)

lemma likes_underscore: "likes v (underscore # ps) \<longleftrightarrow> (\<exists>c w. v = c # w \<and> likes w ps)"
  by (auto intro: likes.intros elim!: likes_ConsE)

lemma likes_backslash:
  "likes v (backslash # c # ps) \<longleftrightarrow> (\<exists>w. v = c # w \<and> likes w ps)"
  "likes v [backslash] \<longleftrightarrow> v = [backslash]"
  by (auto intro: likes.intros elim!: likes_ConsE)

lemma likes_char: "c \<notin> {percent, underscore, backslash} \<Longrightarrow> likes v (c # ps) \<longleftrightarrow> (\<exists>w. v = c # w \<and> likes w ps)"
  by (auto intro: likes.intros elim!: likes_ConsE)

lemma likes_percents: "likes v (percent # ps) \<longleftrightarrow> likes v (percent # dropWhile (\<lambda>c. c = percent) ps)"
proof (induction ps arbitrary: v)
  case (Cons p ps)
  have "likes v (percent # percent # ps) \<longleftrightarrow> likes v (percent # ps)" for v
    unfolding likes_percent by (metis append.assoc append_Nil)
  then show ?case using Cons by auto
qed simp

lemma like_match_likes: "like_match_chars v p \<longleftrightarrow> likes v p"
proof (induction v p rule: like_match_chars.induct)
  case (2 v p ps)
  consider "p = percent" | "p = underscore" | "p = backslash" | "p \<notin> {percent, underscore, backslash}" by auto
  then show ?case
  proof cases
    case 1
    define q where "q = dropWhile (\<lambda>c. c = percent) ps"
    have "some_suffix (\<lambda>s. like_match_chars s q) v = some_suffix (\<lambda>s. likes s q) v" if "q \<noteq> []"
      using 1 that by (intro some_suffix_cong refl "2.IH"(1)) (simp_all add: q_def)
    then have "like_match_chars v (p # ps) \<longleftrightarrow> q = [] \<or> (\<exists>u s. v = u @ s \<and> likes s q)"
      using 1 unfolding like_match_chars.simps(2) Let_def some_suffix_iff q_def [symmetric] by auto
    also have "\<dots> \<longleftrightarrow> likes v (percent # q)" unfolding likes_percent by (cases q) simp_all
    finally show ?thesis using 1 likes_percents [of v ps] by (simp add: q_def)
  next
    case 2
    then show ?thesis using "2.IH"(2)
      by (auto simp: like_match_chars.simps(2) likes_underscore split: list.splits)
  next
    case 3
    then show ?thesis using "2.IH"(3,4)
      by (cases ps) (auto simp: like_match_chars.simps(2) likes_backslash split: list.splits)
  next
    case 4
    then show ?thesis using "2.IH"(5)
      by (auto simp: like_match_chars.simps(2) likes_char split: list.splits)
  qed
qed simp

lemma likes_plain:
  assumes "percent \<notin> set p" "underscore \<notin> set p" "backslash \<notin> set p"
  shows "likes v (p @ q) \<longleftrightarrow> (\<exists>w. v = p @ w \<and> likes w q)"
  using assms
proof (induction p arbitrary: v)
  case (Cons c p)
  then show ?case using likes_char [of c v "p @ q"] by auto
qed simp

lemma utf8_percent_count:
  assumes "valid_rstring p"
  shows "length (filter (\<lambda>b. b = 37) (utf8 p)) = count_list p percent"
  using assms
proof (induction p)
  case (Cons c p)
  have "filter (\<lambda>b. b = 37) (utf8_char c) = (if c = 37 then [37] else [])"
  proof (cases "c < 0x80")
    case True
    then show ?thesis using of_nat_byte_eq [of c 37] by (auto simp: utf8_char_def)
  next
    case False
    have "n < 256 \<and> 128 \<le> n" if "n \<in> set (utf8_nats c)" for n
      using that False Cons.prems by (auto simp: utf8_nats_def is_scalar_def split: if_splits)
    then have "(of_nat n :: byte) \<noteq> 37" if "n \<in> set (utf8_nats c)" for n
      using that of_nat_byte_eq [of n 37] by fastforce
    then show ?thesis using False by (auto simp: utf8_char_nats filter_empty_conv)
  qed
  then show ?case using Cons by simp
qed simp

lemma no_percent: "count_list p percent = 0 \<longleftrightarrow> percent \<notin> set p"
  by (simp add: count_list_0_iff)

lemma suffix_iff: "suffix s v \<longleftrightarrow> (\<exists>u. v = u @ s)"
  by (auto simp: suffix_def)

lemma likes_shapes:
  assumes "underscore \<notin> set m" "backslash \<notin> set m" "percent \<notin> set m"
  shows "likes v m \<longleftrightarrow> v = m" "likes v (m @ [percent]) \<longleftrightarrow> prefix m v"
    "likes v (percent # m) \<longleftrightarrow> suffix m v" "likes v (percent # m @ [percent]) \<longleftrightarrow> sublist m v"
proof -
  have t: "likes w [percent]" for w using likes_percent [of w "[]"] by simp
  show "likes v m \<longleftrightarrow> v = m" for v using likes_plain [of m v "[]"] assms by simp
  then show "likes v (percent # m) \<longleftrightarrow> suffix m v" by (simp add: likes_percent suffix_iff)
  show pre: "likes v (m @ [percent]) \<longleftrightarrow> prefix m v" for v
    using likes_plain [of m v "[percent]"] assms t by (simp add: prefix_def)
  show "likes v (percent # m @ [percent]) \<longleftrightarrow> sublist m v"
    by (auto simp: likes_percent pre prefix_def sublist_def)
qed

definition shape_matches :: "like_shape \<Rightarrow> rstring \<Rightarrow> rstring \<Rightarrow> bool" where
  "shape_matches shape pattern v =
     (case shape of
        LikeLiteral s \<Rightarrow> v = s
      | LikeStartsWith s \<Rightarrow> str_starts_with v s
      | LikeEndsWith s \<Rightarrow> str_ends_with v s
      | LikeContains s \<Rightarrow> str_contains v s
      | LikeResidual \<Rightarrow> like_match v pattern)"

lemma shape_likes:
  assumes "valid_rstring p"
  shows "shape_matches (optimize_like_pattern p) p v \<longleftrightarrow> likes v p"
proof (cases "optimize_like_pattern p = LikeResidual")
  case True
  then show ?thesis by (simp add: shape_matches_def like_match_def like_match_likes)
next
  case False
  then have p: "p \<noteq> []" "backslash \<notin> set p" "underscore \<notin> set p"
    by (auto simp: optimize_like_pattern_def split: if_splits)
  define n where "n = count_list p percent"
  have opt: "optimize_like_pattern p =
     (if n = 0 then LikeLiteral p
      else if n = 1 \<and> length (utf8 p) > 1 then
        (if last p = percent then LikeStartsWith (butlast p)
         else if hd p = percent then LikeEndsWith (tl p) else LikeResidual)
      else if n = 2 \<and> length (utf8 p) > 2 \<and> hd p = percent \<and> last p = percent
      then LikeContains (butlast (tl p)) else LikeResidual)"
    using p unfolding optimize_like_pattern_def Let_def utf8_percent_count [OF assms] n_def by simp
  note match = shape_matches_def str_starts_with_def str_ends_with_def str_contains_def
  consider (none) "n = 0"
    | (last) "n = 1" "last p = percent" "length (utf8 p) > 1"
    | (first) "n = 1" "last p \<noteq> percent" "hd p = percent" "length (utf8 p) > 1"
    | (both) "n = 2" "hd p = percent" "last p = percent" "length (utf8 p) > 2"
    using False unfolding opt by (auto split: if_splits)
  then show ?thesis
  proof cases
    case none
    then show ?thesis using p likes_shapes(1) [of p v] unfolding opt by (simp add: match n_def no_percent)
  next
    case last
    obtain m where m: "p = m @ [percent]" using p(1) last(2) by (metis append_butlast_last_id)
    then show ?thesis using last p likes_shapes(2) [of m v] unfolding opt n_def by (simp add: match no_percent)
  next
    case first
    obtain m where m: "p = percent # m" using p(1) first(3) by (cases p) auto
    then show ?thesis using first p likes_shapes(3) [of m v] unfolding opt n_def by (simp add: match no_percent)
  next
    case both
    obtain q where q: "p = percent # q" using p(1) both(2) by (cases p) auto
    then have "q \<noteq> []" using both(1) by (auto simp: n_def)
    then obtain m where m: "p = percent # m @ [percent]" using q both(3) by (metis append_butlast_last_id last_ConsR)
    then show ?thesis using both p likes_shapes(4) [of m v] unfolding opt n_def by (simp add: match no_percent)
  qed
qed

section \<open>Strings and their bytes\<close>

text \<open>An encoded string occurs in another only at a character boundary, because the first byte of a character is
  never a continuation byte.\<close>

lemma utf8_char_bytes:
  assumes "is_scalar c"
  shows "\<exists>b bs. utf8_char c = b # bs \<and> \<not> is_cont b \<and> list_all is_cont bs"
proof -
  have "c < 0x110000" using assms by (simp add: is_scalar_def)
  then have small: "n < 256" if "n \<in> set (utf8_nats c)" for n using that utf8_nats_small by blast
  obtain n ns where ns: "utf8_nats c = n # ns" by (cases "utf8_nats c") (auto simp: utf8_nats_def split: if_splits)
  have "n < 0x80 \<or> 0xC0 \<le> n" using ns by (auto simp: utf8_nats_def split: if_splits)
  moreover have "0x80 \<le> m \<and> m \<le> 0xBF" if "m \<in> set ns" for m
    using that ns mod_less_divisor [of 64 c] mod_less_divisor [of 64 "c div 64"] mod_less_divisor [of 64 "c div 4096"]
    by (auto simp: utf8_nats_def split: if_splits)
  ultimately show ?thesis using small ns
    by (auto simp: utf8_char_nats is_cont_def list_all_iff)
qed

lemma utf8_boundary:
  assumes "valid_rstring t" "utf8 t = a @ x" "x = [] \<or> \<not> is_cont (hd x)"
  shows "\<exists>t1 t2. t = t1 @ t2 \<and> a = utf8 t1 \<and> x = utf8 t2"
  using assms
proof (induction t arbitrary: a)
  case (Cons c t)
  obtain b bs where b: "utf8_char c = b # bs" "\<not> is_cont b" "list_all is_cont bs"
    using utf8_char_bytes [of c] Cons.prems(1) by auto
  show ?case
  proof (cases a)
    case Nil
    then have "c # t = [] @ (c # t) \<and> a = utf8 [] \<and> x = utf8 (c # t)" using Cons.prems(2) by simp
    then show ?thesis by blast
  next
    case (Cons b' a')
    then have eq: "bs @ utf8 t = a' @ x" "b' = b" using Cons.prems(2) b(1) by simp_all
    then obtain us where "bs = a' @ us \<and> us @ utf8 t = x \<or> bs @ us = a' \<and> utf8 t = us @ x"
      by (auto simp: append_eq_append_conv2)
    then show ?thesis
    proof
      assume u: "bs = a' @ us \<and> us @ utf8 t = x"
      have "us = []"
      proof (rule ccontr)
        assume "us \<noteq> []"
        then have "x \<noteq> []" "hd x = hd us" "is_cont (hd us)" using u b(3) by (auto simp: hd_append neq_Nil_conv)
        then show False using Cons.prems(3) by simp
      qed
      then have "c # t = [c] @ t \<and> a = utf8 [c] \<and> x = utf8 t" using u b(1) eq(2) Cons by simp
      then show ?thesis by blast
    next
      assume u: "bs @ us = a' \<and> utf8 t = us @ x"
      then obtain t1 t2 where "t = t1 @ t2" "us = utf8 t1" "x = utf8 t2"
        using Cons.IH [of us] Cons.prems(1,3) by auto
      then have "c # t = (c # t1) @ t2 \<and> a = utf8 (c # t1) \<and> x = utf8 t2" using u b(1) eq(2) Cons by simp
      then show ?thesis by blast
    qed
  qed
qed simp

lemma utf8_hd: "valid_rstring s \<Longrightarrow> s \<noteq> [] \<Longrightarrow> utf8 s \<noteq> [] \<and> \<not> is_cont (hd (utf8 s))"
  using utf8_char_bytes [of "hd s"] by (cases s) auto

lemma utf8_eq_Nil [simp]: "utf8 s = [] \<longleftrightarrow> s = []"
  by (cases s) simp_all

lemma utf8_tail_boundary:
  "valid_rstring t \<Longrightarrow> utf8 t = a @ utf8 s \<Longrightarrow> valid_rstring s \<Longrightarrow> \<exists>t1. t = t1 @ s \<and> a = utf8 t1"
  using utf8_boundary [of t a "utf8 s"] utf8_hd [of s] by (metis utf8_eq_Nil utf8_inject valid_rstring_simps(3))

lemma utf8_prefix:
  assumes "valid_rstring s" "valid_rstring t"
  shows "prefix (utf8 s) (utf8 t) \<longleftrightarrow> prefix s t"
proof
  assume "prefix (utf8 s) (utf8 t)"
  then show "prefix s t" using assms
  proof (induction s arbitrary: t)
    case (Cons c s)
    then obtain d t' where t: "t = d # t'" by (cases t) auto
    obtain r where "utf8_char d @ utf8 t' = utf8_char c @ utf8 s @ r" using Cons.prems(1) t by (auto simp: prefix_def)
    then have "utf8_next (utf8_char d @ utf8 t') = utf8_next (utf8_char c @ utf8 s @ r)" by simp
    then have "d = c" "utf8 t' = utf8 s @ r" using Cons.prems(2,3) t by (simp_all add: utf8_next_utf8_char)
    then show ?case using Cons t by simp
  qed simp
qed (auto simp: prefix_def)

lemma utf8_suffix:
  assumes "valid_rstring s" "valid_rstring t"
  shows "suffix (utf8 s) (utf8 t) \<longleftrightarrow> suffix s t"
  using utf8_tail_boundary [OF assms(2) _ assms(1)] by (auto simp: suffix_def)

lemma utf8_sublist:
  assumes "valid_rstring s" "valid_rstring t" "s \<noteq> []"
  shows "sublist (utf8 s) (utf8 t) \<longleftrightarrow> sublist s t"
proof
  assume "sublist (utf8 s) (utf8 t)"
  then obtain a r where ar: "utf8 t = a @ utf8 s @ r" by (auto simp: sublist_def)
  then have "utf8 s @ r = [] \<or> \<not> is_cont (hd (utf8 s @ r))" using utf8_hd [OF assms(1,3)] by simp
  then obtain t1 t2 where t: "t = t1 @ t2" "utf8 s @ r = utf8 t2" using utf8_boundary [OF assms(2) ar] by blast
  then have "prefix (utf8 s) (utf8 t2)" by (metis prefixI)
  then have "prefix s t2" using utf8_prefix assms t(1) by auto
  then show "sublist s t" using t(1) by (auto simp: prefix_def sublist_def)
next
  assume "sublist s t"
  then obtain a r where "t = a @ s @ r" by (auto simp: sublist_def)
  then have "utf8 t = utf8 a @ utf8 s @ utf8 r" by simp
  then show "sublist (utf8 s) (utf8 t)" unfolding sublist_def by blast
qed

section \<open>Properties\<close>

text \<open>C26. The LIKE matcher decides LIKE, and the shortcuts taken for simple patterns agree with it. A value matches a
  pattern when it is its characters in order, with any text for a percent sign, one character for an
  underscore and the next character itself after a backslash. The backtracking matcher returns exactly that;
  and where a pattern is recognized as a literal, a prefix, a suffix or a substring test, that test accepts
  the same values.\<close>

theorem like_correct:
  assumes "valid_rstring pattern"
  shows "(like_match v pattern \<longleftrightarrow> likes v pattern)
    \<and> (shape_matches (optimize_like_pattern pattern) pattern v \<longleftrightarrow> likes v pattern)"
  using shape_likes [OF assms] by (simp add: like_match_def like_match_likes)

theorem like_correct_witness:
  "like_match [97, 98, 99] [37, 98, 37] \<and> optimize_like_pattern [37, 98, 37] = LikeContains [98]
   \<and> likes [97, 98, 99] [37, 98, 37]"
proof -
  have v: "valid_rstring [37, 98, 37]" by (simp add: is_scalar_def)
  have o: "optimize_like_pattern [37, 98, 37] = LikeContains [98]" by code_simp
  have "sublist [98 :: nat] [97, 98, 99]" by (rule sublist_def [THEN iffD2]) (rule exI [of _ "[97]"], simp)
  then show ?thesis using like_correct [OF v, of "[97, 98, 99]"] o by (simp add: shape_matches_def str_contains_def)
qed

end
