(* ===== verification/Btree_Query.thy ===== *)
theory Btree_Query
  imports Btree_Index Composite_Key_Laws Predicates
begin

text \<open>
  \<^verbatim>\<open>crates/paimon/src/btree/query.rs\<close>: how a filter predicate becomes queries of an index reader, and how the bounds
  that several predicates put on one column are merged into a single range. The index is tied to the values of
  the column here: its keys are the serialized values, and the rows a predicate selects are those on whose
  value it evaluates to true.
\<close>

section \<open>Dispatch\<close>

definition literal_at :: "datum list \<Rightarrow> nat \<Rightarrow> datum result" where
  "literal_at literals i =
     (if i < length literals then Inr (literals ! i) else Inl (Panic ''index out of bounds''))"

definition literal_key :: "datum list \<Rightarrow> nat \<Rightarrow> data_type \<Rightarrow> bytes result" where
  "literal_key literals i data_type = and_then (literal_at literals i) (\<lambda>d. serialize_datum d data_type)"

definition ensure_character_string :: "data_type \<Rightarrow> unit result" where
  "ensure_character_string data_type =
     (case data_type of
        TChar _ _ \<Rightarrow> Inr ()
      | TVarChar _ _ \<Rightarrow> Inr ()
      | _ \<Rightarrow> Inl (IoError ''BTree index operator only supports string columns''))"

definition string_literal :: "datum list \<Rightarrow> rstring result" where
  "string_literal literals =
     (case literals of
        DString v # _ \<Rightarrow> Inr v
      | _ # _ \<Rightarrow> Inl (IoError ''BTree index operator requires a string literal'')
      | [] \<Rightarrow> Inl (IoError ''BTree index operator requires one literal''))"

text \<open>\<^verbatim>\<open>haystack.windows(n).any(..)\<close>; there is no window when \<open>n\<close> exceeds the length.\<close>

definition contains_bytes :: "bytes \<Rightarrow> bytes \<Rightarrow> bool" where
  "contains_bytes haystack needle \<longleftrightarrow> needle \<noteq> []
     \<and> list_ex (\<lambda>i. take (length needle) (drop i haystack) = needle) [0..<length haystack + 1 - length needle]"

definition index_query :: "('t, 'b) env \<Rightarrow> 'c lru \<Rightarrow> index_reader \<Rightarrow> predicate_operator \<Rightarrow> datum list \<Rightarrow> data_type
    \<Rightarrow> (('t, 'c) reader_state, 't) action" where
  "index_query E L r op literals data_type =
     (let key = (\<lambda>i f. act_then (lift_result (literal_key literals i data_type)) f);
          keys = (\<lambda>f. act_then (lift_result (collect_res (map (\<lambda>lit. serialize_datum lit data_type) literals))) f);
          character = (\<lambda>f. act_then (lift_result (ensure_character_string data_type)) (\<lambda>_. f));
          sub = (\<lambda>rows excluded. act_return (treemap_sub (env_roaring E) rows excluded))
      in case op of
           OpEq \<Rightarrow> key 0 (query_equal E L r)
         | OpLt \<Rightarrow> key 0 (query_less_than E L r)
         | OpLtEq \<Rightarrow> key 0 (query_less_or_equal E L r)
         | OpGt \<Rightarrow> key 0 (query_greater_than E L r)
         | OpGtEq \<Rightarrow> key 0 (query_greater_or_equal E L r)
         | OpIn \<Rightarrow> keys (query_in E L r)
         | OpIsNull \<Rightarrow> null_bitmap E r
         | OpIsNotNull \<Rightarrow> all_non_null_rows E L r
         | OpNotEq \<Rightarrow> key 0 (query_not_equal E L r)
         | OpNotIn \<Rightarrow> act_then (all_non_null_rows E L r) (\<lambda>all_non_null.
             keys (\<lambda>ks. act_then (query_in E L r ks) (\<lambda>excluded. sub all_non_null excluded)))
         | OpBetween \<Rightarrow> key 0 (\<lambda>from. key 1 (\<lambda>to. range_query E L r from to True True))
         | OpNotBetween \<Rightarrow> act_then (all_non_null_rows E L r) (\<lambda>all_non_null.
             key 0 (\<lambda>from. key 1 (\<lambda>to.
               act_then (range_query E L r from to True True) (\<lambda>inside. sub all_non_null inside))))
         | OpStartsWith \<Rightarrow> key 0 (query_prefix E L r)
         | OpEndsWith \<Rightarrow> character (key 0 (\<lambda>tail.
             if tail = [] then all_non_null_rows E L r else scan_entries E L r (\<lambda>k. suffix tail k)))
         | OpContains \<Rightarrow> character (key 0 (\<lambda>needle.
             if needle = [] then all_non_null_rows E L r else scan_entries E L r (\<lambda>k. contains_bytes k needle)))
         | OpLike \<Rightarrow> character (act_then (lift_result (string_literal literals)) (\<lambda>pattern.
             scan_entries E L r (\<lambda>k. case from_utf8 k of None \<Rightarrow> False | Some v \<Rightarrow> like_match v pattern)))
         | OpArrayContains \<Rightarrow> lift_result (Inl (IoError ''BTree index does not support operator''))
         | OpArraysOverlap \<Rightarrow> lift_result (Inl (IoError ''BTree index does not support operator''))
         | OpArrayContainsAll \<Rightarrow> lift_result (Inl (IoError ''BTree index does not support operator'')))"

section \<open>Merging bounds\<close>

record between_info =
  bi_from :: datum
  bi_to :: datum
  bi_from_inclusive :: bool
  bi_to_inclusive :: bool
  bi_data_type :: data_type

type_synonym leaf = "predicate_operator \<times> datum list \<times> data_type"
type_synonym bound = "datum \<times> bytes \<times> bool"

text \<open>Only an \<^verbatim>\<open>Err\<close> of the comparator is caught; a panic of the serialization is not.\<close>

definition between_is_empty :: "between_info \<Rightarrow> bool result" where
  "between_is_empty b =
     and_then (serialize_datum (bi_from b) (bi_data_type b)) (\<lambda>from.
     and_then (serialize_datum (bi_to b) (bi_data_type b)) (\<lambda>to.
       case make_key_comparator (bi_data_type b) from to of
         Inr Greater \<Rightarrow> Inr True
       | Inr Equal \<Rightarrow> Inr (\<not> bi_from_inclusive b \<or> \<not> bi_to_inclusive b)
       | Inr Less \<Rightarrow> Inr False
       | Inl (Panic m) \<Rightarrow> Inl (Panic m)
       | Inl _ \<Rightarrow> Inr False))"

text \<open>The bounds a leaf contributes, \<open>None\<close> for the leaves that are kept.\<close>

definition leaf_bounds :: "predicate_operator \<Rightarrow> datum list \<Rightarrow> ((datum \<times> bool) option \<times> (datum \<times> bool) option) option" where
  "leaf_bounds op literals =
     (case (op, literals) of
        (OpGtEq, [v]) \<Rightarrow> Some (Some (v, True), None)
      | (OpGt, [v]) \<Rightarrow> Some (Some (v, False), None)
      | (OpLtEq, [v]) \<Rightarrow> Some (None, Some (v, True))
      | (OpLt, [v]) \<Rightarrow> Some (None, Some (v, False))
      | (OpBetween, [from, to]) \<Rightarrow> Some (Some (from, True), Some (to, True))
      | _ \<Rightarrow> None)"

definition tighten :: "data_type \<Rightarrow> ordering \<Rightarrow> (datum \<times> bool) option \<Rightarrow> bound option \<Rightarrow> bound option result" where
  "tighten data_type tighter candidate bound =
     (case candidate of
        None \<Rightarrow> Inr bound
      | Some (v, inclusive) \<Rightarrow>
          and_then (serialize_datum v data_type) (\<lambda>key.
            case bound of
              None \<Rightarrow> Inr (Some (v, key, inclusive))
            | Some (w, existing, current) \<Rightarrow>
                and_then (make_key_comparator data_type key existing) (\<lambda>order.
                  if order = Equal then Inr (Some (w, existing, current \<and> inclusive))
                  else if order = tighter then Inr (Some (v, key, inclusive))
                  else Inr bound)))"

fun extract_loop :: "data_type \<Rightarrow> leaf list \<Rightarrow> bound option \<Rightarrow> bound option \<Rightarrow> leaf list
    \<Rightarrow> (bound option \<times> bound option \<times> leaf list) result" where
  "extract_loop data_type [] lower upper remaining = Inr (lower, upper, remaining)"
| "extract_loop data_type ((op, literals, ty) # ps) lower upper remaining =
     (if ty \<noteq> data_type then extract_loop data_type ps lower upper (remaining @ [(op, literals, ty)])
      else case leaf_bounds op literals of
        None \<Rightarrow> extract_loop data_type ps lower upper (remaining @ [(op, literals, ty)])
      | Some (from, to) \<Rightarrow>
          and_then (tighten data_type Greater from lower) (\<lambda>lower.
          and_then (tighten data_type Less to upper) (\<lambda>upper.
            extract_loop data_type ps lower upper remaining)))"

definition try_extract_between :: "leaf list \<Rightarrow> (between_info option \<times> leaf list) result" where
  "try_extract_between ps =
     (case ps of
        [] \<Rightarrow> Inr (None, [])
      | (op, _, data_type) # _ \<Rightarrow>
          if length ps = 1 \<and> op \<noteq> OpBetween then Inr (None, ps)
          else
            and_then (extract_loop data_type ps None None []) (\<lambda>(lower, upper, remaining).
              case (lower, upper) of
                (Some (from, _, from_inclusive), Some (to, _, to_inclusive)) \<Rightarrow>
                  Inr (Some \<lparr>bi_from = from, bi_to = to, bi_from_inclusive = from_inclusive,
                             bi_to_inclusive = to_inclusive, bi_data_type = data_type\<rparr>, remaining)
              | _ \<Rightarrow> Inr (None, ps)))"

definition extract_between :: "leaf list \<Rightarrow> (between_info option \<times> leaf list) result" where
  "extract_between ps =
     (case try_extract_between ps of
        Inl (Panic m) \<Rightarrow> Inl (Panic m)
      | Inl _ \<Rightarrow> Inr (None, ps)
      | Inr x \<Rightarrow> Inr x)"

section \<open>Columns\<close>

text \<open>The input of the index of a column, its values with their row ids, and the rows a predicate selects.\<close>

type_synonym column = "(datum option \<times> int) list"

definition index_input :: "data_type \<Rightarrow> column \<Rightarrow> (bytes option \<times> int) list" where
  "index_input ty data =
     map (\<lambda>(v, row). (case v of None \<Rightarrow> None | Some d \<Rightarrow> ok (serialize_datum d ty), row)) data"

definition column_fits :: "data_type \<Rightarrow> column \<Rightarrow> bool" where
  "column_fits ty data \<longleftrightarrow>
     list_all (\<lambda>(v, row). in_i64 row \<and> (case v of None \<Rightarrow> True | Some d \<Rightarrow> datum_fits ty d)) data"

definition matching_rows :: "predicate_operator \<Rightarrow> datum list \<Rightarrow> column \<Rightarrow> int set" where
  "matching_rows op literals data = {row. \<exists>v. (v, row) \<in> set data \<and> eval_leaf op v literals = Inr True}"

definition selected :: "column \<Rightarrow> (datum \<Rightarrow> bool) \<Rightarrow> int set" where
  "selected data Q = {row. \<exists>d. (Some d, row) \<in> set data \<and> Q d}"

text \<open>What the predicate builder checks: the number of literals, their type, and strings for the string operators.\<close>

definition character_type :: "data_type \<Rightarrow> bool" where
  "character_type ty = (case ty of TChar _ _ \<Rightarrow> True | TVarChar _ _ \<Rightarrow> True | _ \<Rightarrow> False)"

definition float_type :: "data_type \<Rightarrow> bool" where
  "float_type ty = (case ty of TFloat _ \<Rightarrow> True | TDouble _ \<Rightarrow> True | _ \<Rightarrow> False)"

definition literals_ok :: "data_type \<Rightarrow> predicate_operator \<Rightarrow> datum list \<Rightarrow> bool" where
  "literals_ok ty op literals \<longleftrightarrow> list_all (datum_fits ty) literals
     \<and> (if op \<in> {OpEq, OpNotEq, OpLt, OpLtEq, OpGt, OpGtEq} then length literals = 1
        else if op \<in> {OpBetween, OpNotBetween} then length literals = 2
        else if op \<in> {OpStartsWith, OpEndsWith, OpContains, OpLike} then length literals = 1 \<and> character_type ty
        else op \<in> {OpIsNull, OpIsNotNull, OpIn, OpNotIn})"

lemma datum_cmp_exact:
  assumes "datum_fits ty a" "datum_fits ty b" "\<not> float_type ty"
  shows "datum_cmp a b = Some (value_cmp (datum_value a) (datum_value b))"
proof (cases ty)
  case TBoolean
  then obtain v w where "a = DBool v" "b = DBool w" using assms by (auto simp: datum_fits_simps)
  then show ?thesis by (cases v; cases w) (auto simp: datum_cmp_def datum_value_def cmp_def)
qed (use assms in \<open>(clarsimp simp: datum_fits_simps datum_cmp_def datum_value_def decimal_cmp_def float_type_def)+\<close>)

lemma matching_selected:
  "op \<noteq> OpIsNull \<Longrightarrow> matching_rows op literals data = selected data (\<lambda>d. eval_leaf op (Some d) literals = Inr True)"
proof -
  assume "op \<noteq> OpIsNull"
  then have "eval_leaf op None literals \<noteq> Inr True" by (cases op) (simp_all add: eval_leaf_def)
  then have "v \<noteq> None" if "eval_leaf op v literals = Inr True" for v using that by (cases v) simp_all
  then show ?thesis unfolding matching_rows_def selected_def by fast
qed

lemma selected_diff:
  assumes "distinct (map snd data)"
  shows "selected data (\<lambda>_. True) - selected data Q = selected data (\<lambda>d. \<not> Q d)"
proof -
  have "v = w" if "(v, row) \<in> set data" "(w, row) \<in> set data" for v w row
    using assms that inj_onD [of snd "set data" "(v, row)" "(w, row)"] by (simp add: distinct_map)
  then show ?thesis unfolding selected_def by blast
qed

lemma Some_eq_ok [simp]: "Some k = ok x \<longleftrightarrow> x = Inr k"
  by (cases x) (auto simp: ok_def)

lemma mem_index_input:
  "(Some k, row) \<in> set (index_input ty data) \<longleftrightarrow> (\<exists>d. (Some d, row) \<in> set data \<and> serialize_datum d ty = Inr k)"
  by (induction data) (auto simp: index_input_def split: option.splits)

lemma column_fitsD: "column_fits ty data \<Longrightarrow> (Some d, row) \<in> set data \<Longrightarrow> datum_fits ty d"
  by (auto simp: column_fits_def list_all_iff)

lemma selected_cong:
  assumes "column_fits ty data" "\<And>d. datum_fits ty d \<Longrightarrow> P d = Q d"
  shows "selected data P = selected data Q"
  using column_fitsD [OF assms(1)] assms(2) unfolding selected_def by blast

lemma rows_where_selected:
  assumes "spread gs = keyed (index_input ty data)" "column_fits ty data"
    "\<And>d k. datum_fits ty d \<Longrightarrow> serialize_datum d ty = Inr k \<Longrightarrow> P k = Q d"
  shows "rows_where P gs = selected data Q"
proof -
  have "rows_where P gs = {row. \<exists>k d. (Some d, row) \<in> set data \<and> serialize_datum d ty = Inr k \<and> P k}"
    unfolding rows_where_key_rows [OF assms(1)] key_rows_def mem_index_input by blast
  also have "\<dots> = selected data Q"
    unfolding selected_def
  proof (intro Collect_cong iffI; elim exE conjE)
    fix row k d assume "(Some d, row) \<in> set data" "serialize_datum d ty = Inr k" "P k"
    then show "\<exists>d. (Some d, row) \<in> set data \<and> Q d" using assms(3) column_fitsD [OF assms(2)] by metis
  next
    fix row d assume d: "(Some d, row) \<in> set data" "Q d"
    then obtain k where "serialize_datum d ty = Inr k"
      using key_value_serialize column_fitsD [OF assms(2)] by metis
    then show "\<exists>k d. (Some d, row) \<in> set data \<and> serialize_datum d ty = Inr k \<and> P k"
      using d assms(3) column_fitsD [OF assms(2)] by metis
  qed
  finally show ?thesis .
qed

section \<open>Queries of a column\<close>

lemma contains_bytes_sublist: "needle \<noteq> [] \<Longrightarrow> contains_bytes haystack needle \<longleftrightarrow> sublist needle haystack"
proof
  assume "contains_bytes haystack needle"
  then obtain i where "take (length needle) (drop i haystack) = needle"
    by (auto simp: contains_bytes_def list_ex_iff)
  then have "haystack = take i haystack @ needle @ drop (length needle) (drop i haystack)"
    by (metis append_take_drop_id)
  then show "sublist needle haystack" unfolding sublist_def by blast
next
  assume n: "needle \<noteq> []" "sublist needle haystack"
  then obtain ps ss where h: "haystack = ps @ needle @ ss" by (auto simp: sublist_def)
  then have "length ps \<in> set [0..<length haystack + 1 - length needle]" by simp
  then show "contains_bytes haystack needle" using n(1) h unfolding contains_bytes_def list_ex_iff
    by (intro conjI bexI [of _ "length ps"]) simp_all
qed

lemma key_ord_datum:
  assumes "datum_fits ty d" "serialize_datum d ty = Inr k" "datum_fits ty l" "serialize_datum l ty = Inr kl"
    "\<not> float_type ty"
  shows "datum_cmp d l = Some (key_ord ty k kl)"
  using key_ord_serialized [OF assms(1-4)] datum_cmp_exact [OF assms(1,3,5)] by simp

lemma character_keys:
  assumes "character_type ty" "datum_fits ty d" "serialize_datum d ty = Inr k"
  shows "\<exists>v. d = DString v \<and> valid_rstring v \<and> k = utf8 v"
  using assms by (cases ty) (auto simp: character_type_def datum_fits_simps serialize_datum_def)

lemma character_ord: "character_type ty \<Longrightarrow> key_ord ty = cmp \<and> make_key_comparator ty = (\<lambda>a b. Inr (cmp a b))"
  by (cases ty) (auto simp: character_type_def key_ord_def key_value_def scalar_key_comparator_def fun_eq_iff)

lemma column_query:
  assumes "achieves I m (\<lambda>rows. rows_in R rows = rows_where P gs)"
    "spread gs = keyed (index_input ty data)" "column_fits ty data"
    "\<And>d k. datum_fits ty d \<Longrightarrow> serialize_datum d ty = Inr k \<Longrightarrow> P k \<longleftrightarrow> Q d"
  shows "achieves I m (\<lambda>rows. rows_in R rows = selected data Q)"
  using assms(1) rows_where_selected [OF assms(2,3), of P Q] assms(4) by simp

text \<open>The comparisons of a column that is not of a floating-point type.\<close>

lemma comparison_queries:
  assumes op: "opened E (key_ord ty) (datum_keys ty) r gs nl bs" and sp: "spread gs = keyed (index_input ty data)"
    and fits: "column_fits ty data" and nf: "\<not> float_type ty"
    and l: "datum_fits ty l" "serialize_datum l ty = Inr kl"
  shows "achieves (reader_inv E L r nl files) (query_equal E L r kl)
      (\<lambda>rows. rows_in (env_roaring E) rows = selected data (\<lambda>d. datum_cmp d l = Some Equal))"
    and "achieves (reader_inv E L r nl files) (query_less_than E L r kl)
      (\<lambda>rows. rows_in (env_roaring E) rows = selected data (\<lambda>d. datum_cmp d l = Some Less))"
    and "achieves (reader_inv E L r nl files) (query_less_or_equal E L r kl)
      (\<lambda>rows. rows_in (env_roaring E) rows = selected data (\<lambda>d. datum_cmp d l = Some Less \<or> datum_cmp d l = Some Equal))"
    and "achieves (reader_inv E L r nl files) (query_greater_than E L r kl)
      (\<lambda>rows. rows_in (env_roaring E) rows = selected data (\<lambda>d. datum_cmp d l = Some Greater))"
    and "achieves (reader_inv E L r nl files) (query_greater_or_equal E L r kl)
      (\<lambda>rows. rows_in (env_roaring E) rows = selected data (\<lambda>d. datum_cmp d l = Some Greater \<or> datum_cmp d l = Some Equal))"
proof -
  have A: "kl \<in> datum_keys ty" using l by (auto simp: datum_keys_def)
  have o: "r \<noteq> Greater \<longleftrightarrow> r = Less \<or> r = Equal" "r \<noteq> Less \<longleftrightarrow> r = Greater \<or> r = Equal" for r
    by (cases r; simp)+
  note c = key_ord_datum [OF _ _ l nf] and q = column_query [OF _ sp fits]
  show "achieves (reader_inv E L r nl files) (query_equal E L r kl)
      (\<lambda>rows. rows_in (env_roaring E) rows = selected data (\<lambda>d. datum_cmp d l = Some Equal))"
    by (rule q [OF query_equal_correct [OF op A]]) (simp add: c)
  show "achieves (reader_inv E L r nl files) (query_less_than E L r kl)
      (\<lambda>rows. rows_in (env_roaring E) rows = selected data (\<lambda>d. datum_cmp d l = Some Less))"
    by (rule q [OF below_queries_correct(1) [OF op A]]) (simp add: c)
  show "achieves (reader_inv E L r nl files) (query_less_or_equal E L r kl)
      (\<lambda>rows. rows_in (env_roaring E) rows = selected data (\<lambda>d. datum_cmp d l = Some Less \<or> datum_cmp d l = Some Equal))"
    by (rule q [OF below_queries_correct(2) [OF op A]]) (simp add: c o)
  show "achieves (reader_inv E L r nl files) (query_greater_than E L r kl)
      (\<lambda>rows. rows_in (env_roaring E) rows = selected data (\<lambda>d. datum_cmp d l = Some Greater))"
    by (rule q [OF above_queries_correct(1) [OF op A]]) (simp add: c)
  show "achieves (reader_inv E L r nl files) (query_greater_or_equal E L r kl)
      (\<lambda>rows. rows_in (env_roaring E) rows = selected data (\<lambda>d. datum_cmp d l = Some Greater \<or> datum_cmp d l = Some Equal))"
    by (rule q [OF above_queries_correct(2) [OF op A]]) (simp add: c o)
qed

lemma literal_key_ok:
  assumes "list_all (datum_fits ty) literals" "i < length literals"
  shows "\<exists>k. literal_key literals i ty = Inr k \<and> serialize_datum (literals ! i) ty = Inr k \<and> k \<in> datum_keys ty"
proof -
  have f: "datum_fits ty (literals ! i)" using assms by (simp add: list_all_length)
  then obtain k where "serialize_datum (literals ! i) ty = Inr k" using key_value_serialize by blast
  then show ?thesis using assms(2) f by (auto simp: literal_key_def literal_at_def datum_keys_def)
qed

lemma literal_keys_ok:
  assumes "list_all (datum_fits ty) literals"
  shows "\<exists>ks. collect_res (map (\<lambda>l. serialize_datum l ty) literals) = Inr ks
    \<and> list_all2 (\<lambda>l k. serialize_datum l ty = Inr k) literals ks \<and> set ks \<subseteq> datum_keys ty"
  using assms
proof (induction literals)
  case (Cons l ls)
  then obtain ks where ks: "collect_res (map (\<lambda>l. serialize_datum l ty) ls) = Inr ks"
    "list_all2 (\<lambda>l k. serialize_datum l ty = Inr k) ls ks" "set ks \<subseteq> datum_keys ty" by auto
  obtain k where k: "serialize_datum l ty = Inr k" using key_value_serialize Cons.prems by fastforce
  then have "k \<in> datum_keys ty" using Cons.prems by (auto simp: datum_keys_def)
  then show ?case using ks k by (intro exI [of _ "k # ks"]) auto
qed auto

lemma in_query:
  assumes op: "opened E (key_ord ty) (datum_keys ty) r gs nl bs" and sp: "spread gs = keyed (index_input ty data)"
    and fits: "column_fits ty data" and nf: "\<not> float_type ty"
    and l: "list_all (datum_fits ty) literals" "list_all2 (\<lambda>l k. serialize_datum l ty = Inr k) literals ks"
      "set ks \<subseteq> datum_keys ty"
  shows "achieves (reader_inv E L r nl files) (query_in E L r ks)
    (\<lambda>rows. rows_in (env_roaring E) rows = selected data (\<lambda>d. list_ex (datum_eq d) literals))"
proof (rule column_query [OF query_in_correct [OF op l(3)] sp fits])
  fix d k assume d: "datum_fits ty d" "serialize_datum d ty = Inr k"
  show "(\<exists>x \<in> set ks. key_ord ty k x = Equal) \<longleftrightarrow> list_ex (datum_eq d) literals"
    using l(2,1)
  proof (induction rule: list_all2_induct)
    case (Cons l ls x xs)
    then show ?case using key_ord_datum [OF d _ _ nf, of l x] by (auto simp: datum_eq_def)
  qed simp
qed

lemma between_query:
  assumes op: "opened E (key_ord ty) (datum_keys ty) r gs nl bs" and sp: "spread gs = keyed (index_input ty data)"
    and fits: "column_fits ty data" and nf: "\<not> float_type ty"
    and a: "datum_fits ty a" "serialize_datum a ty = Inr ka" and b: "datum_fits ty b" "serialize_datum b ty = Inr kb"
  shows "achieves (reader_inv E L r nl files) (range_query E L r ka kb True True)
    (\<lambda>rows. rows_in (env_roaring E) rows = selected data (\<lambda>d. eval_between d [a, b] = Inr True))"
proof -
  have A: "ka \<in> datum_keys ty" "kb \<in> datum_keys ty" using a b by (auto simp: datum_keys_def)
  have o: "r \<noteq> Greater \<longleftrightarrow> r = Less \<or> r = Equal" "r \<noteq> Less \<longleftrightarrow> r = Greater \<or> r = Equal" for r
    by (cases r; simp)+
  show ?thesis
    by (rule column_query [OF range_query_correct [OF op A] sp fits])
      (simp add: in_key_range_def eval_between_def key_ord_datum [OF _ _ a nf] key_ord_datum [OF _ _ b nf] o)
qed

text \<open>The difference of all non-null rows and a query that keeps the invariant.\<close>

lemma complement_query:
  assumes E: "env_ok E" and d: "distinct (map snd data)"
    and all: "achieves I m (\<lambda>rows. rows_in (env_roaring E) rows = selected data (\<lambda>_. True))"
    and q: "achieves I q (\<lambda>rows. rows_in (env_roaring E) rows = selected data Q)"
  shows "achieves I (act_then m (\<lambda>rows. act_then q (\<lambda>ex. act_return (treemap_sub (env_roaring E) rows ex))))
    (\<lambda>rows. rows_in (env_roaring E) rows = selected data (\<lambda>d. \<not> Q d))"
proof -
  have R: "roaring_ok (env_roaring E)" using E by (simp add: env_ok_def)
  have sub: "rows_in (env_roaring E) (treemap_sub (env_roaring E) s t)
      = rows_in (env_roaring E) s - rows_in (env_roaring E) t" for s t
    using R by (simp add: roaring_ok_def)
  show ?thesis
    by (rule achieves_then [OF all], rule achieves_then [OF q], rule achieves_return)
      (simp add: sub selected_diff [OF d])
qed

text \<open>String operators work on the bytes, and select the same rows as on the characters.\<close>

lemma string_queries:
  assumes op: "opened E cmp UNIV r gs nl bs" and sp: "spread gs = keyed (index_input ty data)"
    and fits: "column_fits ty data" and ch: "character_type ty" and v: "valid_rstring n"
  shows "achieves (reader_inv E L r nl files) (query_prefix E L r (utf8 n))
      (\<lambda>rows. rows_in (env_roaring E) rows = selected data (\<lambda>d. eval_strings str_starts_with d [DString n] = Inr True))"
    and "n \<noteq> [] \<Longrightarrow> achieves (reader_inv E L r nl files) (scan_entries E L r (\<lambda>k. suffix (utf8 n) k))
      (\<lambda>rows. rows_in (env_roaring E) rows = selected data (\<lambda>d. eval_strings str_ends_with d [DString n] = Inr True))"
    and "n \<noteq> [] \<Longrightarrow> achieves (reader_inv E L r nl files) (scan_entries E L r (\<lambda>k. contains_bytes k (utf8 n)))
      (\<lambda>rows. rows_in (env_roaring E) rows = selected data (\<lambda>d. eval_strings str_contains d [DString n] = Inr True))"
    and "achieves (reader_inv E L r nl files)
      (scan_entries E L r (\<lambda>k. case from_utf8 k of None \<Rightarrow> False | Some w \<Rightarrow> like_match w n))
      (\<lambda>rows. rows_in (env_roaring E) rows = selected data (\<lambda>d. eval_strings like_match d [DString n] = Inr True))"
proof -
  note key = character_keys [OF ch] and scan = column_query [OF scan_entries_correct [OF op] sp fits]
  show "achieves (reader_inv E L r nl files) (query_prefix E L r (utf8 n))
      (\<lambda>rows. rows_in (env_roaring E) rows = selected data (\<lambda>d. eval_strings str_starts_with d [DString n] = Inr True))"
    by (rule column_query [OF query_prefix_correct [OF op] sp fits])
      (auto dest!: key simp: eval_strings_def str_starts_with_def utf8_prefix v)
  show "achieves (reader_inv E L r nl files) (scan_entries E L r (\<lambda>k. suffix (utf8 n) k))
      (\<lambda>rows. rows_in (env_roaring E) rows = selected data (\<lambda>d. eval_strings str_ends_with d [DString n] = Inr True))"
    by (rule scan) (auto dest!: key simp: eval_strings_def str_ends_with_def utf8_suffix v)
  show "achieves (reader_inv E L r nl files) (scan_entries E L r (\<lambda>k. contains_bytes k (utf8 n)))
      (\<lambda>rows. rows_in (env_roaring E) rows = selected data (\<lambda>d. eval_strings str_contains d [DString n] = Inr True))"
    if "n \<noteq> []"
    by (rule scan) (auto dest!: key simp: eval_strings_def str_contains_def contains_bytes_sublist utf8_sublist v that)
  show "achieves (reader_inv E L r nl files)
      (scan_entries E L r (\<lambda>k. case from_utf8 k of None \<Rightarrow> False | Some w \<Rightarrow> like_match w n))
      (\<lambda>rows. rows_in (env_roaring E) rows = selected data (\<lambda>d. eval_strings like_match d [DString n] = Inr True))"
    by (rule scan) (auto dest!: key simp: eval_strings_def from_utf8_utf8)
qed

lemma string_literals:
  assumes "character_type ty" "list_all (datum_fits ty) literals" "length literals = 1"
  obtains n where "literals = [DString n]" "valid_rstring n" "literal_key literals 0 ty = Inr (utf8 n)"
    "ensure_character_string ty = Inr ()" "string_literal literals = Inr n"
proof -
  obtain l where l: "literals = [l]" using assms(3) by (auto simp: length_Suc_conv)
  then obtain n where "l = DString n" "valid_rstring n" "serialize_datum l ty = Inr (utf8 n)"
    using assms by (cases ty) (auto simp: character_type_def datum_fits_simps serialize_datum_def)
  moreover have "ensure_character_string ty = Inr ()"
    using assms(1) by (cases ty) (auto simp: character_type_def ensure_character_string_def)
  ultimately show ?thesis using that l
    by (auto simp: literal_key_def literal_at_def string_literal_def)
qed

lemma all_rows_query:
  assumes "opened E ord A r gs nl bs" "spread gs = keyed (index_input ty data)" "column_fits ty data"
  shows "achieves (reader_inv E L r nl files) (all_non_null_rows E L r)
    (\<lambda>rows. rows_in (env_roaring E) rows = selected data (\<lambda>_. True))"
  by (rule column_query [OF all_non_null_correct [OF assms(1)] assms(2,3)]) simp

lemma null_rows_input: "column_fits ty data \<Longrightarrow> set (null_rows (index_input ty data)) = {row. (None, row) \<in> set data}"
proof (induction data)
  case (Cons x data)
  obtain v row where x: "x = (v, row)" by (cases x)
  have IH: "set (null_rows (index_input ty data)) = {row. (None, row) \<in> set data}"
    using Cons by (simp add: column_fits_def)
  show ?case
  proof (cases v)
    case (Some d)
    then have "datum_fits ty d" using Cons.prems x by (simp add: column_fits_def)
    then obtain k where "serialize_datum d ty = Inr k" using key_value_serialize by blast
    then show ?thesis using IH x Some by (simp add: index_input_def null_rows_def ok_def)
  qed (use IH x in \<open>auto simp: index_input_def null_rows_def\<close>)
qed (simp add: index_input_def null_rows_def)

lemma one_literal:
  assumes "list_all (datum_fits ty) literals" "length literals = 1"
  obtains l kl where "literals = [l]" "datum_fits ty l" "serialize_datum l ty = Inr kl" "literal_key literals 0 ty = Inr kl"
  using assms literal_key_ok [OF assms(1), of 0] by (auto simp: length_Suc_conv)

lemma two_literals:
  assumes "list_all (datum_fits ty) literals" "length literals = 2"
  obtains a b ka kb where "literals = [a, b]" "datum_fits ty a" "serialize_datum a ty = Inr ka"
    "datum_fits ty b" "serialize_datum b ty = Inr kb"
    "literal_key literals 0 ty = Inr ka" "literal_key literals 1 ty = Inr kb"
proof -
  obtain a b where ab: "literals = [a, b]" using assms(2) by (auto simp: numeral_2_eq_2 length_Suc_conv)
  then show ?thesis using that assms literal_key_ok [OF assms(1), of 0] literal_key_ok [OF assms(1), of 1] by auto
qed

text \<open>The rows a comparison operator selects, as \<open>eval_leaf\<close> decides it on the values.\<close>

lemma eval_leaf_simps:
  "eval_leaf OpEq (Some d) [l] = Inr (datum_cmp d l = Some Equal)"
  "eval_leaf OpNotEq (Some d) [l] = Inr (datum_cmp d l \<noteq> Some Equal)"
  "eval_leaf OpLt (Some d) [l] = Inr (datum_cmp d l = Some Less)"
  "eval_leaf OpLtEq (Some d) [l] = Inr (datum_cmp d l = Some Less \<or> datum_cmp d l = Some Equal)"
  "eval_leaf OpGt (Some d) [l] = Inr (datum_cmp d l = Some Greater)"
  "eval_leaf OpGtEq (Some d) [l] = Inr (datum_cmp d l = Some Greater \<or> datum_cmp d l = Some Equal)"
  "eval_leaf OpIn (Some d) ls = Inr (list_ex (datum_eq d) ls)"
  "eval_leaf OpNotIn (Some d) ls = Inr (\<not> list_ex (datum_eq d) ls)"
  "eval_leaf OpBetween (Some d) ls = eval_between d ls"
  "eval_leaf OpIsNotNull (Some d) ls = Inr True"
  "eval_leaf OpStartsWith (Some d) ls = eval_strings str_starts_with d ls"
  "eval_leaf OpEndsWith (Some d) ls = eval_strings str_ends_with d ls"
  "eval_leaf OpContains (Some d) ls = eval_strings str_contains d ls"
  "eval_leaf OpLike (Some d) ls = eval_strings like_match d ls"
  by (simp_all add: eval_leaf_def datum_eq_def first_cmp_def)

lemma eval_not_between: "eval_leaf OpNotBetween (Some d) [a, b] = Inr True \<longleftrightarrow> eval_between d [a, b] \<noteq> Inr True"
  by (auto simp: eval_leaf_def eval_between_def Let_def)

lemma index_query_correct:
  assumes op: "opened E (key_ord ty) (datum_keys ty) r gs nl bs" and sp: "spread gs = keyed (index_input ty data)"
    and strs: "character_type ty \<Longrightarrow> \<exists>gs bs. opened E cmp UNIV r gs nl bs \<and> spread gs = keyed (index_input ty data)"
    and nl: "nl = set (null_rows (index_input ty data))"
    and fits: "column_fits ty data" and nf: "\<not> float_type ty" and dist: "distinct (map snd data)"
    and lits: "literals_ok ty oper literals"
  shows "achieves (reader_inv E L r nl files) (index_query E L r oper literals ty)
    (\<lambda>rows. rows_in (env_roaring E) rows = matching_rows oper literals data)"
proof -
  have E: "env_ok E" using openedD(1) [OF op] .
  have f: "list_all (datum_fits ty) literals" using lits by (simp add: literals_ok_def)
  note cq = comparison_queries [OF op sp fits nf] and all = all_rows_query [OF op sp fits]
  note iq = index_query_def Let_def
  have unary: ?thesis if o: "oper \<in> {OpEq, OpNotEq, OpLt, OpLtEq, OpGt, OpGtEq}"
  proof -
    obtain l kl where l: "literals = [l]" "datum_fits ty l" "serialize_datum l ty = Inr kl" "literal_key literals 0 ty = Inr kl"
      using one_literal [OF f] lits o by (auto simp: literals_ok_def)
    have ne: "achieves (reader_inv E L r nl files) (query_not_equal E L r kl)
        (\<lambda>rows. rows_in (env_roaring E) rows = selected data (\<lambda>d. \<not> datum_cmp d l = Some Equal))"
      unfolding query_not_equal_def by (rule complement_query [OF E dist all cq(1) [OF l(2,3)]])
    show ?thesis using o cq [OF l(2,3)] ne l(4)
      by (auto simp: iq matching_selected eval_leaf_simps l(1))
  qed
  have sets: ?thesis if o: "oper = OpIn \<or> oper = OpNotIn"
  proof -
    obtain ks where ks: "collect_res (map (\<lambda>l. serialize_datum l ty) literals) = Inr ks"
      "list_all2 (\<lambda>l k. serialize_datum l ty = Inr k) literals ks" "set ks \<subseteq> datum_keys ty"
      using literal_keys_ok [OF f] by blast
    note inq = in_query [OF op sp fits nf f ks(2,3)]
    show ?thesis using o inq complement_query [OF E dist all inq]
      by (auto simp: iq matching_selected eval_leaf_simps ks(1))
  qed
  have ranges: ?thesis if o: "oper = OpBetween \<or> oper = OpNotBetween"
  proof -
    obtain a b ka kb where l: "literals = [a, b]" "datum_fits ty a" "serialize_datum a ty = Inr ka"
      "datum_fits ty b" "serialize_datum b ty = Inr kb"
      "literal_key literals 0 ty = Inr ka" "literal_key literals 1 ty = Inr kb"
    proof (rule two_literals [OF f])
      show "length literals = 2" using lits o by (auto simp: literals_ok_def)
    qed
    note bq = between_query [OF op sp fits nf l(2-5)]
    show ?thesis using o bq complement_query [OF E dist all bq] l(6,7)
      by (auto simp: iq matching_selected eval_leaf_simps eval_not_between l(1) simp del: One_nat_def)
  qed
  have strings: ?thesis if o: "oper \<in> {OpStartsWith, OpEndsWith, OpContains, OpLike}"
  proof -
    have ch: "character_type ty" "length literals = 1" using lits o by (auto simp: literals_ok_def)
    obtain gs' bs' where op': "opened E cmp UNIV r gs' nl bs'" "spread gs' = keyed (index_input ty data)"
      using strs [OF ch(1)] by blast
    obtain n where n: "literals = [DString n]" "valid_rstring n" "literal_key literals 0 ty = Inr (utf8 n)"
      "ensure_character_string ty = Inr ()" "string_literal literals = Inr n"
      using string_literals [OF ch(1) f ch(2)] by blast
    have empty: "selected data (\<lambda>d. eval_strings g d [DString []] = Inr True) = selected data (\<lambda>_. True)"
      if "g = str_ends_with \<or> g = str_contains" for g
      using that character_keys [OF ch(1)] key_value_serialize
      by (intro selected_cong [OF fits]) (force simp: eval_strings_def str_ends_with_def str_contains_def)
    show ?thesis using o string_queries [OF op' fits ch(1) n(2)] n(3-5) all
      by (auto simp: iq matching_selected eval_leaf_simps n(1) empty)
  qed
  have nulls: ?thesis if o: "oper = OpIsNull \<or> oper = OpIsNotNull"
    using o all null_bitmap_correct [OF op] null_rows_input [OF fits] nl
    by (auto simp: iq matching_selected eval_leaf_simps) (simp add: matching_rows_def eval_leaf_def)
  show ?thesis using lits unary sets ranges strings nulls by (auto simp: literals_ok_def split: if_splits)
qed

section \<open>Merged bounds\<close>

text \<open>A bound as a condition on keys, in the direction of the comparison that tightens it; no bound is no condition.\<close>

definition within :: "data_type \<Rightarrow> ordering \<Rightarrow> bound option \<Rightarrow> bytes \<Rightarrow> bool" where
  "within ty t b k = (case b of None \<Rightarrow> True
     | Some (_, l, inclusive) \<Rightarrow> if inclusive then type_ord ty k l \<noteq> reverse_ord t else type_ord ty k l = t)"

text \<open>The bound a leaf's literal stands for.\<close>

definition candidate_bound :: "data_type \<Rightarrow> (datum \<times> bool) option \<Rightarrow> bound option" where
  "candidate_bound ty c = (case c of None \<Rightarrow> None
     | Some (v, inclusive) \<Rightarrow> (case serialize_datum v ty of Inl _ \<Rightarrow> None | Inr k \<Rightarrow> Some (v, k, inclusive)))"

text \<open>
  What a leaf means on a key of the column: the comparison operators compare the key with the keys of their
  literals in the order of the type; for every other operator, and for leaves of another type, \<open>H\<close> stands for
  any meaning.
\<close>

definition literal_ord :: "data_type \<Rightarrow> bytes \<Rightarrow> datum \<Rightarrow> ordering" where
  "literal_ord ty k v = (case serialize_datum v ty of Inl _ \<Rightarrow> Equal | Inr l \<Rightarrow> type_ord ty k l)"

definition leaf_holds :: "(leaf \<Rightarrow> bytes \<Rightarrow> bool) \<Rightarrow> data_type \<Rightarrow> leaf \<Rightarrow> bytes \<Rightarrow> bool" where
  "leaf_holds H ty p k =
     (case p of (op, literals, t) \<Rightarrow>
        if t \<noteq> ty then H p k
        else case literals of
          [v] \<Rightarrow>
            (case op of
               OpLt \<Rightarrow> literal_ord ty k v = Less
             | OpLtEq \<Rightarrow> literal_ord ty k v = Less \<or> literal_ord ty k v = Equal
             | OpGt \<Rightarrow> literal_ord ty k v = Greater
             | OpGtEq \<Rightarrow> literal_ord ty k v = Greater \<or> literal_ord ty k v = Equal
             | _ \<Rightarrow> H p k)
        | [v, w] \<Rightarrow>
            if op = OpBetween then literal_ord ty k v \<noteq> Less \<and> literal_ord ty k w \<noteq> Greater else H p k
        | _ \<Rightarrow> H p k)"

text \<open>What a leaf means on a value of the column, as \<^verbatim>\<open>eval_leaf\<close> decides it.\<close>

definition leaf_true :: "leaf \<Rightarrow> datum \<Rightarrow> bool" where
  "leaf_true p d = (case p of (op, literals, _) \<Rightarrow> eval_leaf op (Some d) literals = Inr True)"

definition leaf_fits :: "leaf \<Rightarrow> bool" where
  "leaf_fits p = (case p of (op, literals, t) \<Rightarrow> list_all (datum_fits t) literals)"

definition bound_ok :: "data_type \<Rightarrow> bound option \<Rightarrow> bool" where
  "bound_ok ty b = (case b of None \<Rightarrow> True | Some (v, k, _) \<Rightarrow> serialize_datum v ty = Inr k \<and> k \<in> type_keys ty)"

definition candidate_ok :: "data_type \<Rightarrow> (datum \<times> bool) option \<Rightarrow> bool" where
  "candidate_ok ty c = (case c of None \<Rightarrow> True | Some (v, _) \<Rightarrow> datum_fits ty v)"

lemma datum_type_key:
  assumes "datum_fits ty d"
  shows "\<exists>k \<in> type_keys ty. serialize_datum d ty = Inr k"
proof -
  obtain k where k: "serialize_datum d ty = Inr k" using key_value_serialize [OF assms] by blast
  then have "k \<in> datum_keys ty" using assms by (auto simp: datum_keys_def)
  moreover have "type_keys ty = datum_keys ty" using assms by (cases ty) (simp_all add: type_keys_def datum_fits_simps)
  ultimately show ?thesis using k by blast
qed

lemma type_cmp:
  assumes "x \<in> type_keys ty" "y \<in> type_keys ty"
  shows "make_key_comparator ty x y = Inr (type_ord ty x y)"
  using comparator_key_order [of ty] assms by (simp add: key_order_def)

lemma type_total: "total_cmp (type_ord ty) (type_keys ty)"
  using comparator_key_order [of ty] by (simp add: key_order_def)

lemma type_ord_Equal: "x \<in> type_keys ty \<Longrightarrow> y \<in> type_keys ty \<Longrightarrow> type_ord ty x y = Equal \<Longrightarrow> x = y"
  using comparator_key_order [of ty] by (simp add: key_order_def)

lemma type_flip: "x \<in> type_keys ty \<Longrightarrow> y \<in> type_keys ty \<Longrightarrow> type_ord ty y x = reverse_ord (type_ord ty x y)"
  using total_cmp.cmp_flip [OF type_total] by blast

lemma type_trans:
  assumes K: "x \<in> type_keys ty" "y \<in> type_keys ty" "z \<in> type_keys ty"
    and t: "t \<noteq> Equal" "type_ord ty x y \<noteq> reverse_ord t" "type_ord ty y z = t"
  shows "type_ord ty x z = t"
proof (cases t)
  case Less
  then show ?thesis using total_cmp.le_less_trans [OF type_total K] t by simp
next
  case Greater
  then have "type_ord ty z y = Less" "type_ord ty y x \<noteq> Greater"
    using t type_flip [OF K(2,3)] type_flip [OF K(1,2)] by simp_all
  then have "type_ord ty z x = Less" using total_cmp.less_le_trans [OF type_total K(3,2,1)] by simp
  then show ?thesis using Greater type_flip [OF K(3,1)] by simp
qed (use t in simp)

lemma tighten_correct:
  assumes t: "t \<noteq> Equal" and c: "candidate_ok ty c" and b: "bound_ok ty b"
  shows "\<exists>b'. tighten ty t c b = Inr b' \<and> bound_ok ty b'
    \<and> (\<forall>k \<in> type_keys ty. within ty t b' k \<longleftrightarrow> within ty t b k \<and> within ty t (candidate_bound ty c) k)"
proof (cases c)
  case (Some vi)
  then obtain v i where c': "c = Some (v, i)" by (cases vi) auto
  obtain key where key: "serialize_datum v ty = Inr key" "key \<in> type_keys ty"
    using datum_type_key [of ty v] c c' by (auto simp: candidate_ok_def)
  have cb: "candidate_bound ty c = Some (v, key, i)" using c' key by (simp add: candidate_bound_def)
  show ?thesis
  proof (cases b)
    case None
    then show ?thesis using c' key unfolding cb by (simp add: tighten_def bound_ok_def within_def)
  next
    case (Some wec)
    then obtain w e cur where b': "b = Some (w, e, cur)" by (cases wec) auto
    have e: "e \<in> type_keys ty" "serialize_datum w ty = Inr e" using b b' by (simp_all add: bound_ok_def)
    note cmp = type_cmp [OF key(2) e(1)]
    have rev: "reverse_ord t \<noteq> t" "reverse_ord t \<noteq> Equal" using t by (cases t; simp)+
    consider (eq) "type_ord ty key e = Equal" | (tighter) "type_ord ty key e = t"
      | (looser) "type_ord ty e key = t" "type_ord ty key e \<noteq> t" "type_ord ty key e \<noteq> Equal"
      using type_flip [OF key(2) e(1)] t by (cases t; cases "type_ord ty key e") auto
    then show ?thesis
    proof cases
      case eq
      then have "key = e" by (rule type_ord_Equal [OF key(2) e(1)])
      then show ?thesis using c' key b' e eq cmp rev unfolding cb
        by (auto simp: tighten_def bound_ok_def within_def)
    next
      case tighter
      have "type_ord ty k e = t" if "k \<in> type_keys ty" "type_ord ty k key \<noteq> reverse_ord t" for k
        using type_trans [OF that(1) key(2) e(1) t that(2) tighter] .
      then show ?thesis using c' key b' e tighter cmp rev t unfolding cb
        by (auto simp: tighten_def bound_ok_def within_def)
    next
      case looser
      have "type_ord ty k key = t" if "k \<in> type_keys ty" "type_ord ty k e \<noteq> reverse_ord t" for k
        using type_trans [OF that(1) e(1) key(2) t that(2) looser(1)] .
      then show ?thesis using c' key b' e looser cmp rev t unfolding cb
        by (auto simp: tighten_def bound_ok_def within_def)
    qed
  qed
qed (use b in \<open>simp add: tighten_def candidate_bound_def within_def\<close>)

lemma leaf_bounds_fit:
  assumes "list_all (datum_fits ty) literals" "leaf_bounds op literals = Some (from, to)"
  shows "candidate_ok ty from" "candidate_ok ty to"
  using assms by (auto simp: leaf_bounds_def candidate_ok_def split: predicate_operator.splits list.splits)

lemma leaf_holds_None:
  "leaf_bounds op literals = None \<Longrightarrow> leaf_holds H ty (op, literals, ty) k = H (op, literals, ty) k"
  by (auto simp: leaf_bounds_def leaf_holds_def split: predicate_operator.splits list.splits)

lemma candidate_within:
  assumes "datum_fits ty v"
  shows "within ty Greater (candidate_bound ty (Some (v, True))) k \<longleftrightarrow> literal_ord ty k v \<noteq> Less"
    "within ty Greater (candidate_bound ty (Some (v, False))) k \<longleftrightarrow> literal_ord ty k v = Greater"
    "within ty Less (candidate_bound ty (Some (v, True))) k \<longleftrightarrow> literal_ord ty k v \<noteq> Greater"
    "within ty Less (candidate_bound ty (Some (v, False))) k \<longleftrightarrow> literal_ord ty k v = Less"
    "within ty t (candidate_bound ty None) k"
  using datum_type_key [OF assms] by (auto simp: within_def candidate_bound_def literal_ord_def)

lemma leaf_holds_Some:
  assumes "list_all (datum_fits ty) literals" "leaf_bounds op literals = Some (fr, to)"
  shows "leaf_holds H ty (op, literals, ty) k
    \<longleftrightarrow> within ty Greater (candidate_bound ty fr) k \<and> within ty Less (candidate_bound ty to) k"
proof -
  have o: "r \<noteq> Less \<longleftrightarrow> r = Greater \<or> r = Equal" "r \<noteq> Greater \<longleftrightarrow> r = Less \<or> r = Equal" for r
    by (cases r; simp)+
  consider v where "literals = [v]" "op \<in> {OpGtEq, OpGt, OpLtEq, OpLt}" | v w where "literals = [v, w]" "op = OpBetween"
    using assms(2) by (auto simp: leaf_bounds_def split: predicate_operator.splits list.splits)
  then show ?thesis
  proof cases
    case 1
    then show ?thesis using assms
      by (auto simp: leaf_bounds_def leaf_holds_def candidate_within o)
  next
    case 2
    then show ?thesis using assms by (auto simp: leaf_bounds_def leaf_holds_def candidate_within)
  qed
qed

lemma extract_loop_correct:
  assumes "list_all leaf_fits ps" "bound_ok ty lower" "bound_ok ty upper"
  shows "\<exists>lo up rest. extract_loop ty ps lower upper remaining = Inr (lo, up, rest) \<and> bound_ok ty lo \<and> bound_ok ty up
    \<and> (\<forall>k \<in> type_keys ty. within ty Greater lo k \<and> within ty Less up k \<and> list_all (\<lambda>p. leaf_holds H ty p k) rest
        \<longleftrightarrow> within ty Greater lower k \<and> within ty Less upper k
          \<and> list_all (\<lambda>p. leaf_holds H ty p k) remaining \<and> list_all (\<lambda>p. leaf_holds H ty p k) ps)"
  using assms
proof (induction ty ps lower upper remaining rule: extract_loop.induct)
  case (2 ty op literals t ps lower upper remaining)
  show ?case
  proof (cases "t = ty \<and> leaf_bounds op literals \<noteq> None")
    case False
    have run: "extract_loop ty ((op, literals, t) # ps) lower upper remaining
        = extract_loop ty ps lower upper (remaining @ [(op, literals, t)])"
      using False by (cases "leaf_bounds op literals") auto
    have "t \<noteq> ty \<or> t = ty \<and> leaf_bounds op literals = None" using False by blast
    then show ?thesis unfolding run using 2 by (elim disjE) (simp_all add: conj_ac)
  next
    case True
    then obtain fr to where ft: "leaf_bounds op literals = Some (fr, to)" by auto
    have c: "candidate_ok ty fr" "candidate_ok ty to"
      using leaf_bounds_fit [OF _ ft, of ty] 2(4) True by (simp_all add: leaf_fits_def)
    obtain lower' where l: "tighten ty Greater fr lower = Inr lower'" "bound_ok ty lower'"
      "\<forall>k \<in> type_keys ty. within ty Greater lower' k \<longleftrightarrow> within ty Greater lower k \<and> within ty Greater (candidate_bound ty fr) k"
      using tighten_correct [OF _ c(1) 2(5), of Greater] by auto
    obtain upper' where u: "tighten ty Less to upper = Inr upper'" "bound_ok ty upper'"
      "\<forall>k \<in> type_keys ty. within ty Less upper' k \<longleftrightarrow> within ty Less upper k \<and> within ty Less (candidate_bound ty to) k"
      using tighten_correct [OF _ c(2) 2(6), of Less] by auto
    have h: "leaf_holds H ty (op, literals, t) k
        \<longleftrightarrow> within ty Greater (candidate_bound ty fr) k \<and> within ty Less (candidate_bound ty to) k" for k
      using leaf_holds_Some [OF _ ft] 2(4) True by (simp add: leaf_fits_def)
    have run: "extract_loop ty ((op, literals, t) # ps) lower upper remaining = extract_loop ty ps lower' upper' remaining"
      using True ft l(1) u(1) by simp
    have "list_all leaf_fits ps" using 2(4) by simp
    from "2.IH"(3) [OF _ ft refl this l(2) u(2)] True obtain lo up rest where
      e: "extract_loop ty ps lower' upper' remaining = Inr (lo, up, rest)" "bound_ok ty lo" "bound_ok ty up"
      "\<forall>k \<in> type_keys ty. within ty Greater lo k \<and> within ty Less up k \<and> list_all (\<lambda>p. leaf_holds H ty p k) rest
        \<longleftrightarrow> within ty Greater lower' k \<and> within ty Less upper' k
          \<and> list_all (\<lambda>p. leaf_holds H ty p k) remaining \<and> list_all (\<lambda>p. leaf_holds H ty p k) ps"
      by auto
    then show ?thesis unfolding run list.pred_inject(2) h using l(3) u(3)
      by (intro exI [of _ lo] exI [of _ up] exI [of _ rest]) auto
  qed
qed simp

lemma try_extract_correct:
  assumes "list_all leaf_fits ps" "ps \<noteq> []" "ty = snd (snd (hd ps))"
  shows "try_extract_between ps = Inr (None, ps)
    \<or> (\<exists>b rest kf kt. try_extract_between ps = Inr (Some b, rest) \<and> bi_data_type b = ty
        \<and> serialize_datum (bi_from b) ty = Inr kf \<and> serialize_datum (bi_to b) ty = Inr kt
        \<and> kf \<in> type_keys ty \<and> kt \<in> type_keys ty
        \<and> (\<forall>k \<in> type_keys ty. list_all (\<lambda>p. leaf_holds H ty p k) ps
            \<longleftrightarrow> in_key_range (type_ord ty) kf kt (bi_from_inclusive b) (bi_to_inclusive b) k
              \<and> list_all (\<lambda>p. leaf_holds H ty p k) rest))"
proof -
  obtain op literals qs where ps: "ps = (op, literals, ty) # qs" using assms(2,3) by (cases ps) auto
  have ok: "bound_ok ty None" by (simp add: bound_ok_def)
  obtain lo up rest where e: "extract_loop ty ps None None [] = Inr (lo, up, rest)" "bound_ok ty lo" "bound_ok ty up"
    "\<forall>k \<in> type_keys ty. within ty Greater lo k \<and> within ty Less up k \<and> list_all (\<lambda>p. leaf_holds H ty p k) rest
        \<longleftrightarrow> list_all (\<lambda>p. leaf_holds H ty p k) ps"
    using extract_loop_correct [OF assms(1) ok ok, where remaining = "[]"] by (fastforce simp: within_def)
  show ?thesis
  proof (cases "(length ps = 1 \<and> op \<noteq> OpBetween) \<or> lo = None \<or> up = None")
    case True
    then show ?thesis using e(1) unfolding ps
      by (auto simp: try_extract_between_def split: option.splits)
  next
    case False
    then obtain f kf fi t kt ti where b: "lo = Some (f, kf, fi)" "up = Some (t, kt, ti)" by (cases lo; cases up) auto
    let ?b = "\<lparr>bi_from = f, bi_to = t, bi_from_inclusive = fi, bi_to_inclusive = ti, bi_data_type = ty\<rparr>"
    have "try_extract_between ps = Inr (Some ?b, rest)"
      using e(1) False unfolding ps by (auto simp: try_extract_between_def b)
    moreover have "serialize_datum f ty = Inr kf" "kf \<in> type_keys ty" "serialize_datum t ty = Inr kt" "kt \<in> type_keys ty"
      using e(2,3) b by (simp_all add: bound_ok_def)
    moreover have "within ty Greater lo k \<and> within ty Less up k \<longleftrightarrow> in_key_range (type_ord ty) kf kt fi ti k" for k
      by (simp add: b within_def in_key_range_def)
    ultimately show ?thesis using e(4) by (intro disjI2 exI [of _ ?b] exI [of _ rest] exI [of _ kf] exI [of _ kt]) auto
  qed
qed

lemma empty_range_sound:
  assumes "bi_data_type b = ty" "serialize_datum (bi_from b) ty = Inr kf" "serialize_datum (bi_to b) ty = Inr kt"
    "kf \<in> type_keys ty" "kt \<in> type_keys ty"
  shows "\<exists>e. between_is_empty b = Inr e \<and> (e \<longrightarrow> (\<forall>k \<in> type_keys ty.
      \<not> in_key_range (type_ord ty) kf kt (bi_from_inclusive b) (bi_to_inclusive b) k))"
proof -
  have no: "\<not> in_key_range (type_ord ty) kf kt fi ti k" if k: "k \<in> type_keys ty" and g: "type_ord ty kf kt = Greater" for k fi ti
  proof
    assume "in_key_range (type_ord ty) kf kt fi ti k"
    then have "type_ord ty k kf \<noteq> Less" "type_ord ty k kt \<noteq> Greater" by (auto simp: in_key_range_def split: if_splits)
    then show False using type_trans [OF k assms(4,5), of Greater] g by simp
  qed
  have same: "\<not> in_key_range (type_ord ty) kf kf fi ti k" if "\<not> fi \<or> \<not> ti" for k fi ti
    using that by (auto simp: in_key_range_def split: if_splits)
  have cmp: "make_key_comparator ty kf kt = Inr (type_ord ty kf kt)" by (rule type_cmp [OF assms(4,5)])
  show ?thesis
  proof (cases "type_ord ty kf kt")
    case Equal
    then have "kf = kt" by (rule type_ord_Equal [OF assms(4,5)])
    then show ?thesis using assms(1-3) cmp Equal same by (auto simp: between_is_empty_def)
  qed (use assms(1-3) cmp no in \<open>auto simp: between_is_empty_def\<close>)
qed

lemma extract_loop_subset:
  "extract_loop ty ps lower upper remaining = Inr (lo, up, rest) \<Longrightarrow> set rest \<subseteq> set remaining \<union> set ps"
proof (induction ty ps lower upper remaining rule: extract_loop.induct)
  case (2 ty op literals t ps lower upper remaining)
  then show ?case by (fastforce simp: result_simps split: if_splits option.splits prod.splits)
qed simp

lemma extract_between_subset: "extract_between ps = Inr (info, rest) \<Longrightarrow> set rest \<subseteq> set ps"
  using extract_loop_subset [of _ ps None None "[]"]
  by (fastforce simp: extract_between_def try_extract_between_def result_simps
      split: sum.splits error.splits list.splits prod.splits if_splits option.splits)

lemma extract_between_keys:
  assumes "list_all leaf_fits ps"
  shows "\<exists>info rest. extract_between ps = Inr (info, rest)
    \<and> (case info of
         None \<Rightarrow> rest = ps
       | Some b \<Rightarrow> \<exists>kf kt e. serialize_datum (bi_from b) (bi_data_type b) = Inr kf
           \<and> serialize_datum (bi_to b) (bi_data_type b) = Inr kt \<and> between_is_empty b = Inr e
           \<and> (\<forall>k \<in> type_keys (bi_data_type b).
                list_all (\<lambda>p. leaf_holds H (bi_data_type b) p k) ps
                \<longleftrightarrow> \<not> e \<and> in_key_range (type_ord (bi_data_type b)) kf kt (bi_from_inclusive b) (bi_to_inclusive b) k
                  \<and> list_all (\<lambda>p. leaf_holds H (bi_data_type b) p k) rest))"
proof (cases "ps = []")
  case True
  then show ?thesis by (simp add: extract_between_def try_extract_between_def)
next
  case False
  from try_extract_correct [OF assms False refl, of H] show ?thesis
  proof (elim disjE exE conjE)
    assume "try_extract_between ps = Inr (None, ps)"
    then show ?thesis by (simp add: extract_between_def)
  next
    fix b rest kf kt
    assume x: "try_extract_between ps = Inr (Some b, rest)" "bi_data_type b = snd (snd (hd ps))"
      and k: "serialize_datum (bi_from b) (snd (snd (hd ps))) = Inr kf" "serialize_datum (bi_to b) (snd (snd (hd ps))) = Inr kt"
        "kf \<in> type_keys (snd (snd (hd ps)))" "kt \<in> type_keys (snd (snd (hd ps)))"
      and all: "\<forall>k \<in> type_keys (snd (snd (hd ps))). list_all (\<lambda>p. leaf_holds H (snd (snd (hd ps))) p k) ps
            \<longleftrightarrow> in_key_range (type_ord (snd (snd (hd ps)))) kf kt (bi_from_inclusive b) (bi_to_inclusive b) k
              \<and> list_all (\<lambda>p. leaf_holds H (snd (snd (hd ps))) p k) rest"
    obtain e where "between_is_empty b = Inr e" "e \<longrightarrow> (\<forall>k \<in> type_keys (snd (snd (hd ps))).
        \<not> in_key_range (type_ord (snd (snd (hd ps)))) kf kt (bi_from_inclusive b) (bi_to_inclusive b) k)"
      using empty_range_sound [OF x(2) k] by blast
    then show ?thesis using x k(1,2) all
      by (intro exI [of _ "Some b"] exI [of _ rest]) (auto simp: extract_between_def)
  qed
qed

text \<open>On the key of a value, the meaning of a leaf on keys is its meaning on values, where the two orders agree.\<close>

lemma leaf_holds_value:
  assumes "leaf_fits p" "datum_fits ty d" "serialize_datum d ty = Inr k" "\<not> float_type ty"
  shows "leaf_holds (\<lambda>p _. leaf_true p d) ty p k \<longleftrightarrow> leaf_true p d"
proof -
  obtain op literals t where p: "p = (op, literals, t)" by (cases p) auto
  have c: "datum_cmp d v = Some (literal_ord ty k v)" if v: "datum_fits ty v" for v
  proof -
    obtain l where l: "serialize_datum v ty = Inr l" using datum_type_key [OF v] by blast
    have "type_ord ty = key_ord ty" using assms(2) by (cases ty) (simp_all add: type_ord_def datum_fits_simps fun_eq_iff)
    then show ?thesis using key_ord_datum [OF assms(2,3) v l assms(4)] l by (simp add: literal_ord_def)
  qed
  have o: "r \<noteq> Less \<longleftrightarrow> r = Greater \<or> r = Equal" "r \<noteq> Greater \<longleftrightarrow> r = Less \<or> r = Equal" for r
    by (cases r; simp)+
  show ?thesis
  proof (cases "t = ty")
    case True
    then have f: "list_all (datum_fits ty) literals" using assms(1) p by (simp add: leaf_fits_def)
    show ?thesis
    proof (cases "\<exists>v. literals = [v]")
      case one: True
      then show ?thesis using f True
        by (auto simp: p leaf_holds_def leaf_true_def eval_leaf_simps c split: predicate_operator.splits)
    next
      case False
      then show ?thesis using f True
        by (auto simp: p leaf_holds_def leaf_true_def eval_leaf_simps eval_between_def c o split: list.splits)
    qed
  qed (simp add: p leaf_holds_def)
qed

lemma leaves_hold_value:
  assumes "list_all leaf_fits ps" "datum_fits ty d" "serialize_datum d ty = Inr k" "\<not> float_type ty"
  shows "list_all (\<lambda>p. leaf_holds (\<lambda>p _. leaf_true p d) ty p k) ps \<longleftrightarrow> list_all (\<lambda>p. leaf_true p d) ps"
  using leaf_holds_value [OF _ assms(2-4)] assms(1) by (induction ps) auto

section \<open>Properties\<close>

text \<open>C1. Filtering a column through its B-tree index selects exactly the rows the predicate accepts. Take a column of a
  scalar type other than floating point with its row ids, NULLs among them; write its values as keys in the
  order of the type's comparator, with any block size, codec, version and Bloom filter setting. Opening the
  file succeeds; its first state on a cache that agrees with the files is a state of the reader, and in all of
  these the cache agrees with the files. From every state of the reader, every operator with literals of the
  column's type (comparison, IN, NOT IN, BETWEEN, NOT BETWEEN, IS NULL, IS NOT NULL, and on strings STARTS WITH,
  ENDS WITH, CONTAINS and LIKE) succeeds, leaves a state of the reader, and returns exactly the rows on whose
  value \<^verbatim>\<open>eval_leaf\<close> is true. FLOAT and DOUBLE columns are excluded: the index orders them by \<^verbatim>\<open>total_cmp\<close> and
  \<^verbatim>\<open>eval_leaf\<close> by \<^verbatim>\<open>partial_cmp\<close>, which differ on zeros of different sign and on NaN.\<close>

theorem index_filters_rows:
  assumes "env_ok E" "write_index E block_size ct lvl bloom (make_key_comparator ty) version (index_input ty data) = Inr (content, m, n)"
    and "int (length content) \<le> i32_max" "column_fits ty data" "distinct (map snd data)" "\<not> float_type ty"
    and "sorted_wrt (\<lambda>a b. key_ord ty (fst a) (fst b) \<noteq> Greater) (keyed (index_input ty data))"
    and "cache_of E L files cache" "files path = content"
  shows "\<exists>r. open_with_data_block_cache E content (int (length content)) m (make_key_comparator ty) path = Inr r
    \<and> (let I = reader_inv E L r (set (null_rows (index_input ty data))) files in
       I (initial_state cache) \<and> (\<forall>s. I s \<longrightarrow> cache_of E L files (rs_cache s))
       \<and> (\<forall>op literals. literals_ok ty op literals \<longrightarrow>
           achieves I (index_query E L r op literals ty)
             (\<lambda>rows. rows_in (env_roaring E) rows = matching_rows op literals data)))"
proof -
  let ?ins = "index_input ty data"
  have rows: "list_all in_i64 (map snd ?ins)"
    using assms(4) by (auto simp: column_fits_def index_input_def list_all_iff)
  have dk: "fst ` set (keyed ?ins) \<subseteq> datum_keys ty"
    using column_fitsD [OF assms(4)] by (auto simp: mem_keyed mem_index_input datum_keys_def) blast
  have ko: "key_order (make_key_comparator ty) (key_ord ty) (datum_keys ty)"
  proof (cases ty)
    case (TRow nl fs)
    then have "datum_keys ty = {}" by (simp add: datum_keys_def datum_fits_simps)
    then show ?thesis by (simp add: key_order_def key_ord_total)
  qed (use scalar_key_order [of ty] in simp_all)
  obtain r gs bs where r: "open_with_data_block_cache E content (int (length content)) m (make_key_comparator ty) path = Inr r"
    and op: "opened E (key_ord ty) (datum_keys ty) r gs (set (null_rows ?ins)) bs" and sp: "spread gs = keyed ?ins"
    and rf: "ir_file r = content" "ir_data_block_cache_file r = path"
    using written_index_opens [OF assms(1) ko assms(2,3) rows dk assms(7)] by blast
  have strs: "\<exists>gs bs. opened E cmp UNIV r gs (set (null_rows ?ins)) bs \<and> spread gs = keyed ?ins" if ch: "character_type ty"
  proof -
    have ko': "key_order (make_key_comparator ty) cmp UNIV" using character_ord [OF ch] bytewise_order by simp
    have "sorted_wrt (\<lambda>a b. cmp (fst a) (fst b) \<noteq> Greater) (keyed ?ins)" using assms(7) character_ord [OF ch] by simp
    from written_index_opens [OF assms(1) ko' assms(2,3) rows subset_UNIV this, of path] r show ?thesis by auto
  qed
  let ?I = "reader_inv E L r (set (null_rows ?ins)) files"
  have "?I (initial_state cache)" using assms(8,9) rf by (intro reader_inv_initial) simp_all
  then show ?thesis
    using r index_query_correct [OF op sp strs refl assms(4,6,5)] reader_inv_cache
    unfolding Let_def by (intro exI [of _ r]) blast
qed

text \<open>C27. Merging the bounds of several predicates on a column changes nothing. For leaves with literals of their types,
  whatever the leaves other than comparisons mean, merging succeeds; it either gives the leaves back, or a range
  and the leaves that are left, and then a key satisfies all leaves, a comparison being that of the key with the
  keys of its literals, exactly when it lies in the range and satisfies those left. In particular, on a column
  that is not of a floating-point type, a value passes all leaves as \<^verbatim>\<open>eval_leaf\<close> evaluates them exactly when its
  key lies in the range and it passes those left. A range reported as empty holds no key.\<close>

theorem extract_between_correct:
  assumes "list_all leaf_fits ps"
  shows "\<exists>info rest. extract_between ps = Inr (info, rest)
    \<and> (case info of
         None \<Rightarrow> rest = ps
       | Some b \<Rightarrow> \<exists>kf kt e. serialize_datum (bi_from b) (bi_data_type b) = Inr kf
           \<and> serialize_datum (bi_to b) (bi_data_type b) = Inr kt \<and> between_is_empty b = Inr e
           \<and> (\<forall>k \<in> type_keys (bi_data_type b).
                list_all (\<lambda>p. leaf_holds H (bi_data_type b) p k) ps
                \<longleftrightarrow> \<not> e \<and> in_key_range (type_ord (bi_data_type b)) kf kt (bi_from_inclusive b) (bi_to_inclusive b) k
                  \<and> list_all (\<lambda>p. leaf_holds H (bi_data_type b) p k) rest)
           \<and> (\<forall>d k. \<not> float_type (bi_data_type b) \<and> datum_fits (bi_data_type b) d
                  \<and> serialize_datum d (bi_data_type b) = Inr k \<longrightarrow>
                list_all (\<lambda>p. leaf_true p d) ps
                \<longleftrightarrow> \<not> e \<and> in_key_range (type_ord (bi_data_type b)) kf kt (bi_from_inclusive b) (bi_to_inclusive b) k
                  \<and> list_all (\<lambda>p. leaf_true p d) rest))"
proof -
  obtain info rest where x: "extract_between ps = Inr (info, rest)" using extract_between_keys [OF assms] by blast
  show ?thesis
  proof (cases info)
    case None
    then show ?thesis using extract_between_keys [OF assms, of H] x by auto
  next
    case (Some b)
    let ?ty = "bi_data_type b"
    define range_of where "range_of kf kt k \<longleftrightarrow> in_key_range (type_ord ?ty) kf kt (bi_from_inclusive b) (bi_to_inclusive b) k"
      for kf kt k
    have keys: "\<exists>kf kt e. serialize_datum (bi_from b) ?ty = Inr kf \<and> serialize_datum (bi_to b) ?ty = Inr kt
        \<and> between_is_empty b = Inr e \<and> (\<forall>k \<in> type_keys ?ty. list_all (\<lambda>p. leaf_holds G ?ty p k) ps
          \<longleftrightarrow> \<not> e \<and> range_of kf kt k \<and> list_all (\<lambda>p. leaf_holds G ?ty p k) rest)" for G
      using extract_between_keys [OF assms, of G] x Some unfolding range_of_def by simp
    then obtain kf kt e where k: "serialize_datum (bi_from b) ?ty = Inr kf" "serialize_datum (bi_to b) ?ty = Inr kt"
      "between_is_empty b = Inr e" by blast
    have all: "list_all (\<lambda>p. leaf_holds G ?ty p k) ps
        \<longleftrightarrow> \<not> e \<and> range_of kf kt k \<and> list_all (\<lambda>p. leaf_holds G ?ty p k) rest" if "k \<in> type_keys ?ty" for G k
      using keys [of G] k that by auto
    have fits: "list_all leaf_fits rest" using extract_between_subset [OF x] assms by (auto simp: list_all_iff)
    have "list_all (\<lambda>p. leaf_true p d) ps \<longleftrightarrow> \<not> e \<and> range_of kf kt k \<and> list_all (\<lambda>p. leaf_true p d) rest"
      if d: "\<not> float_type ?ty \<and> datum_fits ?ty d \<and> serialize_datum d ?ty = Inr k" for d k
    proof -
      have "k \<in> type_keys ?ty" using datum_type_key [of ?ty d] d by auto
      from all [OF this, of "\<lambda>p _. leaf_true p d"] show ?thesis
        using leaves_hold_value [OF assms] leaves_hold_value [OF fits] d by simp
    qed
    then show ?thesis using x Some k all unfolding range_of_def
      by (intro exI [of _ info] exI [of _ rest]) simp
  qed
qed

definition sample_leaves :: "leaf list" where
  "sample_leaves = [(OpGt, [DInt 5], TInt True), (OpIsNotNull, [], TInt True), (OpBetween, [DInt 5, DInt 9], TInt True)]"

lemma sample_key: "[7, 0, 0, 0] \<in> type_keys (TInt True)"
  using datum_type_key [of "TInt True" "DInt 7"]
  by (simp add: datum_fits_simps int_range_simps serialize_datum_def numeral_eq_Suc)

theorem extract_between_correct_witness:
  "extract_between sample_leaves
     = Inr (Some \<lparr>bi_from = DInt 5, bi_to = DInt 9, bi_from_inclusive = False, bi_to_inclusive = True, bi_data_type = TInt True\<rparr>,
            [(OpIsNotNull, [], TInt True)])
   \<and> list_all (\<lambda>p. leaf_holds (\<lambda>_ _. True) (TInt True) p [7, 0, 0, 0]) sample_leaves
   \<and> list_all (\<lambda>p. leaf_true p (DInt 7)) sample_leaves"
proof -
  let ?b = "\<lparr>bi_from = DInt 5, bi_to = DInt 9, bi_from_inclusive = False, bi_to_inclusive = True, bi_data_type = TInt True\<rparr>"
  have l: "list_all leaf_fits sample_leaves"
    by (simp add: sample_leaves_def leaf_fits_def datum_fits_simps int_range_simps)
  have x: "extract_between sample_leaves = Inr (Some ?b, [(OpIsNotNull, [], TInt True)])"
    "between_is_empty ?b = Inr False" by code_simp+
  have s: "serialize_datum (DInt 5) (TInt True) = Inr [5, 0, 0, 0]" "serialize_datum (DInt 9) (TInt True) = Inr [9, 0, 0, 0]"
    by code_simp+
  have "in_key_range (type_ord (TInt True)) [5, 0, 0, 0] [9, 0, 0, 0] False True [7, 0, 0, 0]" by code_simp
  moreover have "leaf_holds (\<lambda>_ _. True) (TInt True) (OpIsNotNull, [], TInt True) k" for k
    by (simp add: leaf_holds_def)
  moreover have "\<not> float_type (TInt True) \<and> datum_fits (TInt True) (DInt 7) \<and> serialize_datum (DInt 7) (TInt True) = Inr [7, 0, 0, 0]"
    by code_simp
  moreover have "leaf_true (OpIsNotNull, [], TInt True) (DInt 7)" by code_simp
  ultimately show ?thesis using extract_between_correct [OF l, of "\<lambda>_ _. True"] x s sample_key by auto
qed

lemma matching_rows_simps:
  "matching_rows op ls [] = {}"
  "matching_rows op ls ((v, row) # data)
     = (if eval_leaf op v ls = Inr True then insert row (matching_rows op ls data) else matching_rows op ls data)"
  by (auto simp: matching_rows_def)

definition sample_column :: column where
  "sample_column = [(Some (DInt (-5)), 3), (None, 4), (Some (DInt 5), 7), (Some (DInt 300), 2)]"

lemma sample_column_keys:
  "index_input (TInt True) sample_column
   = [(Some [0xFB, 0xFF, 0xFF, 0xFF], 3), (None, 4), (Some [5, 0, 0, 0], 7), (Some [0x2C, 1, 0, 0], 2)]"
  by code_simp

lemma sample_column_written:
  "short_result (write_index sample_env 8 CompressNone 0 False (compare_le_ints 4) 2 (index_input (TInt True) sample_column))"
  unfolding sample_column_keys by code_simp

text \<open>The conditions of the index theorems on INT keys, whose order is not that of their bytes.\<close>

lemma sample_column_index:
  "key_order (make_key_comparator (TInt True)) (key_ord (TInt True)) (datum_keys (TInt True))"
  "list_all in_i64 (map snd (index_input (TInt True) sample_column))"
  "fst ` set (keyed (index_input (TInt True) sample_column)) \<subseteq> datum_keys (TInt True)"
  "sorted_wrt (\<lambda>a b. key_ord (TInt True) (fst a) (fst b) \<noteq> Greater) (keyed (index_input (TInt True) sample_column))"
  "[5, 0, 0, 0] \<in> datum_keys (TInt True)"
  "key_rows (\<lambda>x. key_ord (TInt True) x [5, 0, 0, 0] = Less) (index_input (TInt True) sample_column) = {3}"
proof -
  show "key_order (make_key_comparator (TInt True)) (key_ord (TInt True)) (datum_keys (TInt True))"
    using scalar_key_order [of "TInt True"] by simp
  show "list_all in_i64 (map snd (index_input (TInt True) sample_column))"
    unfolding sample_column_keys by (simp add: int_range_simps)
  have fits: "column_fits (TInt True) sample_column"
    by (simp add: column_fits_def sample_column_def datum_fits_simps int_range_simps)
  show "fst ` set (keyed (index_input (TInt True) sample_column)) \<subseteq> datum_keys (TInt True)"
    using column_fitsD [OF fits] by (auto simp: mem_keyed mem_index_input datum_keys_def) blast
  show "sorted_wrt (\<lambda>a b. key_ord (TInt True) (fst a) (fst b) \<noteq> Greater) (keyed (index_input (TInt True) sample_column))"
    unfolding sample_column_keys by code_simp
  have "datum_fits (TInt True) (DInt 5)" "serialize_datum (DInt 5) (TInt True) = Inr [5, 0, 0, 0]" by code_simp+
  then show "[5, 0, 0, 0] \<in> datum_keys (TInt True)" by (auto simp: datum_keys_def)
  have "key_ord (TInt True) [0xFB, 0xFF, 0xFF, 0xFF] [5, 0, 0, 0] = Less" "key_ord (TInt True) [5, 0, 0, 0] [5, 0, 0, 0] = Equal"
    "key_ord (TInt True) [0x2C, 1, 0, 0] [5, 0, 0, 0] = Greater" by code_simp+
  then show "key_rows (\<lambda>x. key_ord (TInt True) x [5, 0, 0, 0] = Less) (index_input (TInt True) sample_column) = {3}"
    by (simp add: sample_column_keys)
qed

lemma sample_column_content:
  obtains content m n where
    "write_index sample_env 8 CompressNone 0 False (make_key_comparator (TInt True)) 2 (index_input (TInt True) sample_column)
       = Inr (content, m, n)" "int (length content) \<le> i32_max"
  using sample_column_written
  by (auto simp: short_result_def scalar_key_comparator_def int_range_simps split: sum.splits prod.splits)

theorem index_filters_rows_witness:
  "\<exists>content m n r rows s.
     write_index sample_env 8 CompressNone 0 False (make_key_comparator (TInt True)) 2 (index_input (TInt True) sample_column)
       = Inr (content, m, n)
     \<and> open_with_data_block_cache sample_env content (int (length content)) m (make_key_comparator (TInt True)) ''f'' = Inr r
     \<and> run_state (index_query sample_env list_lru r OpLtEq [DInt 5] (TInt True)) (initial_state (cache_new list_lru 64)) = (Inr rows, s)
     \<and> rows_in list_roaring rows = {3, 7}
     \<and> cache_of sample_env list_lru (\<lambda>_. content) (rs_cache s)"
proof -
  obtain content m n where w: "write_index sample_env 8 CompressNone 0 False (make_key_comparator (TInt True)) 2
      (index_input (TInt True) sample_column) = Inr (content, m, n)" "int (length content) \<le> i32_max"
    by (rule sample_column_content)
  have d: "column_fits (TInt True) sample_column" "distinct (map snd sample_column)" "\<not> float_type (TInt True)"
    by (simp_all add: column_fits_def sample_column_def datum_fits_simps int_range_simps float_type_def)
  have l: "literals_ok (TInt True) OpLtEq [DInt 5]" by (simp add: literals_ok_def datum_fits_simps int_range_simps)
  let ?I = "\<lambda>r. reader_inv sample_env list_lru r (set (null_rows (index_input (TInt True) sample_column))) (\<lambda>_. content)"
  obtain r where
    r: "open_with_data_block_cache sample_env content (int (length content)) m (make_key_comparator (TInt True)) ''f'' = Inr r"
    and I: "?I r (initial_state (cache_new list_lru 64))"
    and q: "\<forall>op literals. literals_ok (TInt True) op literals \<longrightarrow>
        achieves (?I r) (index_query sample_env list_lru r op literals (TInt True))
          (\<lambda>rows. rows_in (env_roaring sample_env) rows = matching_rows op literals sample_column)"
    using index_filters_rows [OF sample_env_ok w d sample_column_index(4) sample_cache [of "\<lambda>_. content"] refl, of "''f''"]
    unfolding Let_def by blast
  have "eval_leaf OpLtEq (Some (DInt (-5))) [DInt 5] = Inr True" "eval_leaf OpLtEq None [DInt 5] = Inr False"
    "eval_leaf OpLtEq (Some (DInt 5)) [DInt 5] = Inr True" "eval_leaf OpLtEq (Some (DInt 300)) [DInt 5] = Inr False"
    by code_simp+
  then have "matching_rows OpLtEq [DInt 5] sample_column = {3, 7}"
    by (simp add: sample_column_def matching_rows_simps insert_commute)
  moreover have "env_roaring sample_env = list_roaring" by (simp add: sample_env_def)
  ultimately show ?thesis using achievesD [OF q [rule_format, OF l] I] w(1) r reader_inv_cache by fastforce
qed

theorem index_comparisons_correct_witness:
  "(\<exists>content m n r rows s.
      write_index sample_env 8 CompressNone 0 False (make_key_comparator (TInt True)) 2 (index_input (TInt True) sample_column)
        = Inr (content, m, n)
      \<and> open_with_data_block_cache sample_env content (int (length content)) m (make_key_comparator (TInt True)) ''f'' = Inr r
      \<and> run_state (query_less_than sample_env list_lru r [5, 0, 0, 0]) (initial_state (cache_new list_lru 64)) = (Inr rows, s)
      \<and> rows_in list_roaring rows = {3})
   \<and> (\<exists>content m n r rows s.
      write_index sample_env 8 CompressNone 0 False (\<lambda>a b. Inr (cmp a b)) 2 sample_input = Inr (content, m, n)
      \<and> open_with_data_block_cache sample_env content (int (length content)) m (\<lambda>a b. Inr (cmp a b)) ''f'' = Inr r
      \<and> run_state (query_prefix sample_env list_lru r [9]) (initial_state (cache_new list_lru 64)) = (Inr rows, s)
      \<and> rows_in list_roaring rows = {2})"
proof
  have ro: "env_roaring sample_env = list_roaring" by (simp add: sample_env_def)
  obtain content m n where w: "write_index sample_env 8 CompressNone 0 False (make_key_comparator (TInt True)) 2
      (index_input (TInt True) sample_column) = Inr (content, m, n)" "int (length content) \<le> i32_max"
    by (rule sample_column_content)
  from index_comparisons_correct [OF sample_env_ok sample_column_index(1) w sample_column_index(2-4)
      sample_cache [of "\<lambda>_. content"] refl, of "''f''"]
  show "\<exists>content m n r rows s.
      write_index sample_env 8 CompressNone 0 False (make_key_comparator (TInt True)) 2 (index_input (TInt True) sample_column)
        = Inr (content, m, n)
      \<and> open_with_data_block_cache sample_env content (int (length content)) m (make_key_comparator (TInt True)) ''f'' = Inr r
      \<and> run_state (query_less_than sample_env list_lru r [5, 0, 0, 0]) (initial_state (cache_new list_lru 64)) = (Inr rows, s)
      \<and> rows_in list_roaring rows = {3}"
    unfolding Let_def using w(1) sample_column_index(5,6) ro by (elim exE conjE) (fastforce dest!: achievesD)
  obtain content m n where w: "write_index sample_env 8 CompressNone 0 False (\<lambda>a b. Inr (cmp a b)) 2 sample_input
      = Inr (content, m, n)" "int (length content) \<le> i32_max" by (rule sample_written)
  have ins: "list_all in_i64 (map snd sample_input)" "fst ` set (keyed sample_input) \<subseteq> UNIV"
    "sorted_wrt (\<lambda>a b. cmp (fst a) (fst b) \<noteq> Greater) (keyed sample_input)" "key_rows (prefix [9]) sample_input = {2}"
    by (simp_all add: sample_input_def int_range_simps not_less)
  from index_comparisons_correct [OF sample_env_ok bytewise_order w ins(1-3) sample_cache [of "\<lambda>_. content"] refl, of "''f''"]
  show "\<exists>content m n r rows s.
      write_index sample_env 8 CompressNone 0 False (\<lambda>a b. Inr (cmp a b)) 2 sample_input = Inr (content, m, n)
      \<and> open_with_data_block_cache sample_env content (int (length content)) m (\<lambda>a b. Inr (cmp a b)) ''f'' = Inr r
      \<and> run_state (query_prefix sample_env list_lru r [9]) (initial_state (cache_new list_lru 64)) = (Inr rows, s)
      \<and> rows_in list_roaring rows = {2}"
    unfolding Let_def using w(1) ins(4) ro by (elim exE conjE) (fastforce dest!: achievesD)
qed

text \<open>
  Why floating-point columns are left out of the first property: the index follows the bit-preserving total
  order, in which the two zeros of a DOUBLE column differ, and \<^verbatim>\<open>eval_leaf\<close> takes them for equal.
\<close>

lemma double_zeros_differ:
  "eval_leaf OpEq (Some (DDouble 0x8000000000000000)) [DDouble 0] = Inr True
   \<and> serialize_datum (DDouble 0x8000000000000000) (TDouble True) = Inr [0, 0, 0, 0, 0, 0, 0, 0x80]
   \<and> serialize_datum (DDouble 0) (TDouble True) = Inr [0, 0, 0, 0, 0, 0, 0, 0]
   \<and> make_key_comparator (TDouble True) [0, 0, 0, 0, 0, 0, 0, 0x80] [0, 0, 0, 0, 0, 0, 0, 0] = Inr Less"
  by code_simp

end
