(* ===== verification/Spec2Isabelle.thy ===== *)
theory Spec2Isabelle
  imports Bin_Packing Variant_Slices Row_Ranges Btree_Query
begin

text \<open>
  Verification of \<^verbatim>\<open>paimon-rust\<close>, the Rust implementation of the Apache Paimon table format. All paths below
  are relative to \<^verbatim>\<open>src/crates/paimon/src\<close>.

  \<^bold>\<open>The program.\<close> A table is a set of immutable data files named by manifests; a scan selects files and row
  ranges, groups them into splits and reads them. A global B-tree index (\<^verbatim>\<open>btree/\<close>) maps key values to row ids:
  a writer turns sorted keys into one SST file with a block index, posting lists, a Bloom filter, a null bitmap
  and a footer; a reader answers predicates from it through a block cache shared by all readers; the answer, a
  bitmap of row ids, is turned into row ranges (\<^verbatim>\<open>table/source.rs\<close>) that select the rows of a split
  (\<^verbatim>\<open>table/row_position_selection.rs\<close>). Semi-structured columns hold the Variant binary format (\<^verbatim>\<open>variant.rs\<close>).

  \<^bold>\<open>Conventions.\<close> Machine integers are \<open>int\<close> with the wrap or the range check of the source written out
  (\<open>wrap_signed\<close>, \<open>wrap_unsigned\<close>, \<open>checked_add_u64\<close>), \<^verbatim>\<open>usize\<close> positions are \<open>nat\<close>, bytes are \<open>8 word\<close>. A fallible
  operation returns \<open>error + 'a\<close>; a panic of the source, a failing \<^verbatim>\<open>assert!\<close>, an index out of range or an \<^verbatim>\<open>unwrap\<close>
  among them, is the error \<open>Panic\<close>, and succeeding excludes it. The build is a release build: arithmetic wraps and
  \<^verbatim>\<open>debug_assert!\<close> does nothing. An operation on shared state is an
  \<open>action\<close>, a fallible state monad, and \<open>achieves I m Q\<close> states that from every state with invariant \<open>I\<close> it
  succeeds with a result in \<open>Q\<close> and keeps \<open>I\<close>. Third-party code (roaring, the compression codecs, the lru
  crate, the file system, floating point logarithms) is a record of functions with a predicate that states its
  documented behaviour; each is instantiated by a concrete one. Loops are recursive functions with
  termination proofs. One has fuel, \<open>evict\<close> of the block cache, whose rounds drop entries of an \<^verbatim>\<open>lru\<close> map that is a
  parameter: its fuel is the number of entries, after which the map is empty and the loop ends anyway.

  \<^bold>\<open>The theories.\<close>
  \<^item> \<open>Prelude\<close>: results, machine integers, byte order, orderings and the contract \<open>total_cmp\<close> of a comparator,
    stable sorting. \<open>Data_Model\<close>: types and values of \<^verbatim>\<open>spec/\<close> (IEEE floats by bit pattern, strings with their UTF-8).
    \<open>Rust_Strings\<close>: the string operations of the standard library. \<open>Actions\<close>: the state monad.
  \<^item> \<open>Bin_Packing\<close>: \<^verbatim>\<open>table/bin_pack.rs\<close>. The packing is an order-preserving partition, each bin within the target
    unless a single file, and no bin could take the first file of the next.
  \<^item> \<open>Variant_Binary\<close>, \<open>Variant_Navigation\<close>, \<open>Variant_Slices\<close>: \<^verbatim>\<open>variant.rs\<close>. Reads of arbitrary bytes never leave the
    buffer; binary search over field names agrees with a linear scan; slices returned by navigation lie within the
    value.
  \<^item> \<open>Row_Ranges\<close>: \<^verbatim>\<open>table/source.rs\<close> and \<^verbatim>\<open>table/row_position_selection.rs\<close>. The range operations are the set operations;
    shards partition the selected rows; no operation makes an inverted range, which \<^verbatim>\<open>RowRange::new\<close> would refuse.
  \<^item> \<open>Var_Len\<close>, \<open>Roaring\<close>, \<open>Posting_List\<close>, \<open>Bloom_Filter\<close>, \<open>Sst_Block\<close>, \<open>Sst_Block_Laws\<close>, \<open>Btree_Footer\<close>, \<open>Index_Meta\<close>,
    \<open>Sst_File\<close>: the parts of an index file, one theory per source file of \<^verbatim>\<open>btree/\<close>. Each encoding has a round trip, the
    block seek equals a linear scan, the Bloom filter has no false negatives and the pruning by key bounds is
    sound.
  \<^item> \<open>Btree_Writer\<close>, \<open>Data_Block_Cache\<close>, \<open>Btree_Reader\<close>, \<open>Btree_Reader_Laws\<close>, \<open>Btree_Queries\<close>, \<open>Btree_Index\<close>:
    \<^verbatim>\<open>btree/writer.rs\<close>, \<^verbatim>\<open>btree/data_block_cache.rs\<close>, \<^verbatim>\<open>btree/reader.rs\<close>. The writer's file refines the list of keys and rows it was
    given, and every query of a reader over that file returns the rows of the list that the query selects, from
    every state in which the shared cache agrees with the files, and leaves such a state.
  \<^item> \<open>Key_Serde\<close>, \<open>Composite_Key\<close>, \<open>Composite_Key_Laws\<close>: \<^verbatim>\<open>btree/key_serde.rs\<close> and \<^verbatim>\<open>btree/composite_key.rs\<close>. Keys order as the values
    and tuples they stand for, key bytes round trip, literals are normalized exactly, and bytes of another type are
    rejected without a panic.
  \<^item> \<open>Predicates\<close>: evaluation of filters on values and the LIKE matcher of \<^verbatim>\<open>spec/predicate.rs\<close>, with the meaning of LIKE as an
    inductive relation. \<open>Btree_Query\<close>: \<^verbatim>\<open>btree/query.rs\<close>. A predicate evaluated through an index selects exactly the rows on
    whose values it is true, and merging bounds keeps the conjunction of the predicates. Values of FLOAT and DOUBLE are
    excluded where the row by row evaluation is compared: it orders them by \<^verbatim>\<open>partial_cmp\<close>, the index by \<^verbatim>\<open>total_cmp\<close>.

  \<^bold>\<open>Not modelled.\<close> Of the index, the planner of composite predicates (\<^verbatim>\<open>btree/composite_predicate.rs\<close>) and the reader's query
  over its intervals; file-system planning, scans, commits and merges of \<^verbatim>\<open>table/\<close>, beyond the parts above. File formats and Arrow kernels, which are calls of third-party crates; storage, catalogs and the
  REST client, which are I/O; the vector indexes, which are floating-point and native code; the query engine
  integration and the language bindings, which wrap the rest.
\<close>

end
